(* ===== verification/Prelude.thy ===== *)
theory Prelude
  imports Main "HOL-Library.Monad_Syntax" "HOL-Library.Product_Lexorder"
begin

section \<open>Shared vocabulary of the development\<close>

text \<open>
  The Rust base layer that every component shares: the two build profiles, the fixed-width
  unsigned arithmetic with its overflow behaviour, and the generic list lemmas.

  A computation that may panic has type \<open>'a option\<close>; \<open>None\<close> is the panic.
  The arithmetic operators of Rust depend on the build profile: with overflow checks
  (\<open>Debug\<close>) an overflow panics, without them (\<open>Release\<close>) it wraps around.
  Division by zero panics in both.
\<close>

named_theorems arith_ok \<open>checked operations that stay in range\<close>

datatype profile = Debug | Release

definition checked :: "nat \<Rightarrow> profile \<Rightarrow> nat \<Rightarrow> nat option" where
  "checked w p x =
     (if x < 2 ^ w then Some x
      else (case p of Debug \<Rightarrow> None | Release \<Rightarrow> Some (x mod 2 ^ w)))"

definition uint_add :: "nat \<Rightarrow> profile \<Rightarrow> nat \<Rightarrow> nat \<Rightarrow> nat option" where
  "uint_add w p a b = checked w p (a + b)"

definition uint_mul :: "nat \<Rightarrow> profile \<Rightarrow> nat \<Rightarrow> nat \<Rightarrow> nat option" where
  "uint_mul w p a b = checked w p (a * b)"

definition uint_sub :: "nat \<Rightarrow> profile \<Rightarrow> nat \<Rightarrow> nat \<Rightarrow> nat option" where
  "uint_sub w p a b =
     (if b \<le> a then Some (a - b)
      else (case p of Debug \<Rightarrow> None | Release \<Rightarrow> Some ((2 ^ w + a - b) mod 2 ^ w)))"

definition uint_div :: "nat \<Rightarrow> nat \<Rightarrow> nat option" where
  "uint_div a b = (if b = 0 then None else Some (a div b))"

definition uint_rem :: "nat \<Rightarrow> nat \<Rightarrow> nat option" where
  "uint_rem a b = (if b = 0 then None else Some (a mod b))"

text \<open>A value of the width is left alone by every operation that stays in range.\<close>

lemma checked_ok [arith_ok]: "x < 2 ^ w \<Longrightarrow> checked w p x = Some x"
  by (simp add: checked_def)

lemma uint_add_ok [arith_ok]: "a + b < 2 ^ w \<Longrightarrow> uint_add w p a b = Some (a + b)"
  by (simp add: uint_add_def checked_def)

lemma uint_mul_ok [arith_ok]: "a * b < 2 ^ w \<Longrightarrow> uint_mul w p a b = Some (a * b)"
  by (simp add: uint_mul_def checked_def)

lemma uint_sub_ok [arith_ok]: "b \<le> a \<Longrightarrow> uint_sub w p a b = Some (a - b)"
  by (simp add: uint_sub_def)

lemma uint_div_ok [arith_ok]: "b \<noteq> 0 \<Longrightarrow> uint_div a b = Some (a div b)"
  by (simp add: uint_div_def)

lemma uint_rem_ok [arith_ok]: "b \<noteq> 0 \<Longrightarrow> uint_rem a b = Some (a mod b)"
  by (simp add: uint_rem_def)

text \<open>Every result of the arithmetic is a value of the width.\<close>

lemma checked_bound: "checked w p x = Some y \<Longrightarrow> y < 2 ^ w"
  by (auto simp: checked_def split: if_splits profile.splits)

lemma uint_add_bound: "uint_add w p a b = Some y \<Longrightarrow> y < 2 ^ w"
  by (auto simp: uint_add_def dest: checked_bound)

lemma uint_sub_bound: "uint_sub w p a b = Some y \<Longrightarrow> a < 2 ^ w \<Longrightarrow> y < 2 ^ w"
  by (auto simp: uint_sub_def split: if_splits profile.splits)

lemma uint_sub_le: "uint_sub w p a b = Some y \<Longrightarrow> b \<le> a \<Longrightarrow> y = a - b"
  by (simp add: uint_sub_def)

subsection \<open>Lists\<close>

definition count_below :: "nat \<Rightarrow> nat list \<Rightarrow> nat" where
  "count_below m xs = length (filter (\<lambda>c. c < m) xs)"

lemma count_below_simps [simp]:
  "count_below m [] = 0"
  "count_below m (x # xs) = (if x < m then Suc (count_below m xs) else count_below m xs)"
  "count_below m (xs @ ys) = count_below m xs + count_below m ys"
  by (simp_all add: count_below_def)

lemma count_below_le_length: "count_below m xs \<le> length xs"
  by (simp add: count_below_def)

end
