(* ===== verification/Fenwick.thy ===== *)
theory Fenwick
  imports Prelude
begin

section \<open>Prefix counters: the interface of the \<open>ftree\<close> crate\<close>

text \<open>
  \<open>encode\<close> counts the placed code points with the third-party crate \<open>ftree\<close>, whose
  source is not part of the repository. The three functions it calls are the fields of a
  record that every definition takes as a parameter; each may panic. The locale states what the
  crate documents of them: a tree stands for the list of its cells, \<open>prefix_sum\<close> adds up
  the cells left of an index, \<open>add_at\<close> increments one cell. Sums are \<open>u64\<close>, so the
  laws speak of sums that fit.
\<close>

record 't ftree =
  from_iter :: "nat list \<Rightarrow> 't option"
  prefix_sum :: "'t \<Rightarrow> nat \<Rightarrow> nat \<Rightarrow> nat option"
  add_at :: "'t \<Rightarrow> nat \<Rightarrow> nat \<Rightarrow> 't option"

locale prefix_counter =
  fixes F :: "'t ftree"
    and invar :: "'t \<Rightarrow> bool"
    and cells :: "'t \<Rightarrow> nat list"
  assumes from_iter_law:
      "sum_list xs < 2 ^ 64 \<Longrightarrow> \<exists>t. from_iter F xs = Some t \<and> invar t \<and> cells t = xs"
    and prefix_sum_law:
      "invar t \<Longrightarrow> i \<le> length (cells t) \<Longrightarrow> init + sum_list (take i (cells t)) < 2 ^ 64 \<Longrightarrow>
        prefix_sum F t i init = Some (init + sum_list (take i (cells t)))"
    and add_at_law:
      "invar t \<Longrightarrow> i < length (cells t) \<Longrightarrow> sum_list (cells t) + d < 2 ^ 64 \<Longrightarrow>
        \<exists>t'. add_at F t i d = Some t' \<and> invar t' \<and> cells t' = (cells t)[i := cells t ! i + d]"

subsection \<open>A binary indexed tree\<close>

text \<open>
  The interface is inhabited: the textbook binary indexed tree satisfies the laws. Slot \<open>k\<close>
  holds the sum of the cells from \<open>clr (k + 1)\<close> to \<open>k\<close>, where \<open>clr\<close> clears the
  lowest set bit; \<open>up\<close> sets the lowest clear bit and leads to the next slot that covers
  the same cell. This is an instance for the witnesses, not a model of the crate's source.
\<close>

fun clr :: "nat \<Rightarrow> nat" where
  "clr i = (if i = 0 then 0 else if odd i then i - 1 else 2 * clr (i div 2))"

function up :: "nat \<Rightarrow> nat" where
  "up j = (if even j then j + 1 else 2 * up (j div 2) + 1)"
  by pat_completeness auto
termination
  by (relation "measure id") (auto elim!: oddE)

declare clr.simps [simp del] up.simps [simp del]

lemma clr_0 [simp]: "clr 0 = 0" and clr_odd: "odd i \<Longrightarrow> clr i = i - 1"
  and clr_double: "clr (2 * i) = 2 * clr i"
  by (simp_all add: clr.simps)

lemma up_even: "even j \<Longrightarrow> up j = j + 1" and up_odd: "up (2 * j + 1) = 2 * up j + 1"
  by (simp_all add: up.simps)

lemma clr_less: "0 < i \<Longrightarrow> clr i < i"
  by (induction i rule: clr.induct) (subst clr.simps, auto elim!: evenE)

lemma even_clr: "even (clr i)"
  by (subst clr.simps) auto

lemma up_greater: "j < up j"
proof (induction j rule: up.induct)
  case (1 j)
  then show ?case by (subst up.simps) (auto elim!: oddE)
qed

definition covers :: "nat \<Rightarrow> nat \<Rightarrow> bool" where
  "covers i j \<longleftrightarrow> clr (i + 1) \<le> j \<and> j \<le> i"

lemma covers_odd_odd: "covers (2 * c + 1) (2 * a + 1) \<longleftrightarrow> covers c a"
proof -
  have "clr (2 * c + 1 + 1) = 2 * clr (c + 1)" using clr_double [of "c + 1"] by simp
  then show ?thesis by (auto simp: covers_def)
qed

lemma covers_up: "covers i j \<longleftrightarrow> i = j \<or> covers i (up j)"
proof (induction j arbitrary: i rule: up.induct)
  case (1 j)
  show ?case
  proof (cases "even j")
    case True
    have "clr (i + 1) \<le> j \<longleftrightarrow> clr (i + 1) \<le> j + 1"
      using True even_clr [of "i + 1"] by (auto simp: le_Suc_eq)
    moreover have "clr (j + 1) = j" using True by (simp add: clr_odd)
    ultimately show ?thesis using True by (auto simp: covers_def up_even)
  next
    case False
    then obtain a where j: "j = 2 * a + 1" by (auto elim: oddE)
    show ?thesis
    proof (cases "even i")
      case True
      then have "clr (i + 1) = i" by (simp add: clr_odd)
      moreover have "i \<noteq> j" "i \<noteq> up j" using True j by (auto simp: up_odd simp del: One_nat_def)
      ultimately show ?thesis by (auto simp: covers_def)
    next
      case False
      then obtain c where "i = 2 * c + 1" by (auto elim: oddE)
      with "1.IH" [of c] j show ?thesis
        by (simp add: up_odd [simplified] covers_odd_odd [simplified])
    qed
  qed
qed

function bit_sum :: "nat list \<Rightarrow> nat \<Rightarrow> nat \<Rightarrow> nat" where
  "bit_sum t i acc = (if i = 0 then acc else bit_sum t (clr i) (acc + t ! (i - 1)))"
  by pat_completeness auto
termination
  by (relation "measure (\<lambda>(t, i, acc). i)") (auto simp: clr_less)

function bit_add :: "nat list \<Rightarrow> nat \<Rightarrow> nat \<Rightarrow> nat list" where
  "bit_add t j d = (if j < length t then bit_add (t[j := t ! j + d]) (up j) d else t)"
  by pat_completeness auto
termination
  by (relation "measure (\<lambda>(t, j, d). length t - j)") (auto simp: up_greater diff_less_mono2)

declare bit_sum.simps [simp del] bit_add.simps [simp del]

definition seg_sum :: "nat \<Rightarrow> nat \<Rightarrow> nat list \<Rightarrow> nat" where
  "seg_sum a b xs = sum_list (take (b - a) (drop a xs))"

definition represents :: "nat list \<Rightarrow> nat list \<Rightarrow> bool" where
  "represents t xs \<longleftrightarrow>
     length t = length xs \<and> (\<forall>k < length t. t ! k = seg_sum (clr (k + 1)) (k + 1) xs)"

lemma seg_sum_split: "a \<le> b \<Longrightarrow> sum_list (take b xs) = sum_list (take a xs) + seg_sum a b xs"
  by (metis le_add_diff_inverse seg_sum_def sum_list_append take_add)

lemma bit_sum_represents:
  "represents t xs \<Longrightarrow> i \<le> length xs \<Longrightarrow> bit_sum t i acc = acc + sum_list (take i xs)"
proof (induction t i acc rule: bit_sum.induct)
  case (1 t i acc)
  show ?case
  proof (cases "i = 0")
    case True
    then show ?thesis by (simp add: bit_sum.simps)
  next
    case False
    then have "clr i < i" by (simp add: clr_less)
    moreover have "t ! (i - 1) = seg_sum (clr i) i xs"
      using False "1.prems" by (auto simp: represents_def)
    ultimately show ?thesis
      using "1.IH" [OF False "1.prems"(1)] "1.prems"(2) False seg_sum_split [of "clr i" i xs]
      by (subst bit_sum.simps) simp
  qed
qed

lemma length_bit_add [simp]: "length (bit_add t j d) = length t"
  by (induction t j d rule: bit_add.induct) (subst bit_add.simps, simp)

lemma nth_bit_add:
  "i < length t \<Longrightarrow> bit_add t j d ! i = t ! i + (if covers i j then d else 0)"
proof (induction t j d rule: bit_add.induct)
  case (1 t j d)
  show ?case
  proof (cases "j < length t")
    case True
    have "\<not> covers j (up j)" using up_greater [of j] by (simp add: covers_def)
    with True "1.IH" [OF True] "1.prems" covers_up [of i j] show ?thesis
      by (subst bit_add.simps) (auto simp: nth_list_update)
  next
    case False
    with "1.prems" show ?thesis by (subst bit_add.simps) (auto simp: covers_def)
  qed
qed

lemma sum_list_take_update:
  fixes xs :: "nat list"
  shows "j < length xs \<Longrightarrow>
    sum_list (take n (xs[j := xs ! j + d])) = sum_list (take n xs) + (if j < n then d else 0)"
proof (induction xs arbitrary: j n)
  case Nil
  then show ?case by simp
next
  case (Cons x xs)
  then show ?case by (cases j; cases n) auto
qed

lemma seg_sum_update:
  assumes "j < length xs"
  shows "seg_sum a b (xs[j := xs ! j + d]) = seg_sum a b xs + (if a \<le> j \<and> j < b then d else 0)"
proof (cases "a \<le> b")
  case True
  then show ?thesis
    using seg_sum_split [OF True, of xs] seg_sum_split [OF True, of "xs[j := xs ! j + d]"]
    by (auto simp: sum_list_take_update [OF assms] split: if_splits)
next
  case False
  then show ?thesis by (auto simp: seg_sum_def)
qed

lemma bit_add_represents:
  assumes "represents t xs" "j < length xs"
  shows "represents (bit_add t j d) (xs[j := xs ! j + d])"
  using assms by (auto simp: represents_def nth_bit_add seg_sum_update covers_def less_Suc_eq_le)

definition bit_cells :: "nat list \<Rightarrow> nat list" where
  "bit_cells t = map (\<lambda>j. bit_sum t (j + 1) 0 - bit_sum t j 0) [0..<length t]"

lemma bit_cells_represents: "represents t xs \<Longrightarrow> bit_cells t = xs"
proof (rule nth_equalityI)
  assume r: "represents t xs"
  then show len: "length (bit_cells t) = length xs" by (simp add: bit_cells_def represents_def)
  fix j
  assume "j < length (bit_cells t)"
  with len have j: "j < length xs" "j < length t" using r by (simp_all add: represents_def)
  then show "bit_cells t ! j = xs ! j"
    by (simp add: bit_cells_def bit_sum_represents [OF r] take_Suc_conv_app_nth)
qed

definition bit_build :: "nat list \<Rightarrow> nat list" where
  "bit_build xs =
     fold (\<lambda>(j, x) t. bit_add t j x) (enumerate 0 xs) (replicate (length xs) 0)"

lemma seg_sum_zero [simp]: "seg_sum a b (replicate n 0) = 0"
  by (simp add: seg_sum_def)

lemma represents_zero: "represents (replicate n 0) (replicate n 0)"
  by (simp add: represents_def)

lemma bit_build_represents: "represents (bit_build xs) xs"
proof -
  have "represents (fold (\<lambda>(j, x) t. bit_add t j x) (enumerate (length pre) suf) t) (pre @ suf)"
    if "represents t (pre @ replicate (length suf) 0)" for pre suf t
    using that
  proof (induction suf arbitrary: pre t)
    case Nil
    then show ?case by simp
  next
    case (Cons x suf)
    have "represents (bit_add t (length pre) x) ((pre @ [x]) @ replicate (length suf) 0)"
      using bit_add_represents [OF Cons.prems, of "length pre" x]
      by (simp add: nth_append list_update_append)
    from Cons.IH [OF this] show ?case by simp
  qed
  from this [of _ "[]"] show ?thesis
    by (simp add: bit_build_def represents_zero)
qed

definition bit_tree :: "nat list ftree" where
  "bit_tree =
     \<lparr>from_iter = (\<lambda>xs. Some (bit_build xs)),
      prefix_sum = (\<lambda>t i init. if i \<le> length t then Some (bit_sum t i init) else None),
      add_at = (\<lambda>t i d. if i < length t then Some (bit_add t i d) else None)\<rparr>"

definition bit_invar :: "nat list \<Rightarrow> bool" where
  "bit_invar t \<longleftrightarrow> represents t (bit_cells t)"

interpretation bit_tree: prefix_counter bit_tree bit_invar bit_cells
proof (unfold_locales, goal_cases)
  case (1 xs)
  show ?case
    using bit_build_represents [of xs]
    by (simp add: bit_tree_def bit_invar_def bit_cells_represents)
next
  case (2 t i init)
  then show ?case
    by (simp add: bit_tree_def bit_invar_def bit_sum_represents represents_def)
next
  case (3 t i d)
  then have len: "length t = length (bit_cells t)" by (simp add: bit_cells_def)
  with 3 have r: "represents (bit_add t i d) ((bit_cells t)[i := bit_cells t ! i + d])"
    by (intro bit_add_represents) (simp_all add: bit_invar_def)
  with 3 len show ?case
    by (simp add: bit_tree_def bit_invar_def bit_cells_represents [OF r])
qed

end
