(* ===== verification/Punycode.thy ===== *)
theory Punycode
  imports Fenwick
begin

section \<open>The Punycode encoder (\<open>crates/punyenc/src/lib.rs\<close>)\<close>

text \<open>
  The model of the encoder, operation by operation: the Bootstring constants,
  \<open>digit_to_char\<close>, \<open>adapt\<close>, \<open>push_delta\<close> and \<open>encode\<close>. A
  \<open>u64\<close> is a natural number below \<open>2 ^ 64\<close>, and each operator of the source is the
  checked operator of the prelude at width 64, so the overflow behaviour of both build
  profiles is part of every definition. The output \<open>String\<close> is a list of (8-bit)
  characters: the code only ever pushes characters cast from \<open>u8\<close>.
\<close>

definition BASE :: nat where "BASE = 36"
definition TMIN :: nat where "TMIN = 1"
definition TMAX :: nat where "TMAX = 26"
definition SKEW :: nat where "SKEW = 38"
definition DAMP :: nat where "DAMP = 700"
definition INITIAL_BIAS :: nat where "INITIAL_BIAS = 72"
definition INITIAL_N :: nat where "INITIAL_N = 128"

lemmas puny_consts =
  BASE_def TMIN_def TMAX_def SKEW_def DAMP_def INITIAL_BIAS_def INITIAL_N_def

abbreviation "add64 \<equiv> uint_add 64"
abbreviation "sub64 \<equiv> uint_sub 64"
abbreviation "mul64 \<equiv> uint_mul 64"

subsection \<open>Digits\<close>

text \<open>
  \<open>debug_assert!\<close> is compiled in the \<open>Debug\<close> profile only; \<open>d as u8\<close> truncates.
\<close>

definition digit_to_char :: "profile \<Rightarrow> nat \<Rightarrow> char option" where
  "digit_to_char p d =
     (if p = Debug \<and> \<not> d < BASE then None
      else if d < 26 then
        do { c \<leftarrow> uint_add 8 p (of_char CHR ''a'') (d mod 256); Some (char_of c) }
      else
        do { e \<leftarrow> sub64 p d 26;
             c \<leftarrow> uint_add 8 p (of_char CHR ''0'') (e mod 256);
             Some (char_of c) })"

subsection \<open>Bias adaptation\<close>

function adapt_loop :: "profile \<Rightarrow> nat \<Rightarrow> nat \<Rightarrow> (nat \<times> nat) option" where
  "adapt_loop p delta k =
     (if delta > ((BASE - TMIN) * TMAX) div 2 then
        do { k' \<leftarrow> add64 p k BASE; adapt_loop p (delta div (BASE - TMIN)) k' }
      else Some (delta, k))"
  by pat_completeness auto
termination
  by (relation "measure (\<lambda>(p, delta, k). delta)") (auto simp: puny_consts)

declare adapt_loop.simps [simp del]

definition adapt :: "profile \<Rightarrow> nat \<Rightarrow> nat \<Rightarrow> bool \<Rightarrow> nat option" where
  "adapt p delta num_points first_time =
     do { let delta = (if first_time then delta div DAMP else delta div 2);
          q \<leftarrow> uint_div delta num_points;
          delta \<leftarrow> add64 p delta q;
          (delta, k) \<leftarrow> adapt_loop p delta 0;
          num \<leftarrow> mul64 p (BASE - TMIN + 1) delta;
          den \<leftarrow> add64 p delta SKEW;
          r \<leftarrow> uint_div num den;
          add64 p k r }"

subsection \<open>The generalized variable-length integer\<close>

definition threshold :: "profile \<Rightarrow> nat \<Rightarrow> nat \<Rightarrow> nat option" where
  "threshold p k bias =
     (if k \<le> bias then Some TMIN
      else do { b \<leftarrow> add64 p bias TMAX;
                if k \<ge> b then Some TMAX else sub64 p k bias })"

lemma threshold_range: "threshold p k bias = Some t \<Longrightarrow> 1 \<le> t \<and> t \<le> 26"
  by (auto simp: threshold_def puny_consts uint_add_def uint_sub_def checked_def
      split: if_splits profile.splits bind_splits)

function push_delta_loop ::
    "profile \<Rightarrow> string \<Rightarrow> nat \<Rightarrow> nat \<Rightarrow> nat \<Rightarrow> string option" where
  "push_delta_loop p outp q k bias =
     do { t \<leftarrow> threshold p k bias;
          if q < t then
            do { c \<leftarrow> digit_to_char p q; Some (outp @ [c]) }
          else
            do { d \<leftarrow> sub64 p q t;
                 b \<leftarrow> sub64 p BASE t;
                 r \<leftarrow> uint_rem d b;
                 v \<leftarrow> add64 p t r;
                 c \<leftarrow> digit_to_char p v;
                 q' \<leftarrow> uint_div d b;
                 k' \<leftarrow> add64 p k BASE;
                 push_delta_loop p (outp @ [c]) q' k' bias } }"
  by pat_completeness auto
termination
proof (relation "measure (\<lambda>(p, outp, q, k, bias). q)", goal_cases)
  case 1
  show ?case by simp
next
  case (2 p outp q k bias t d b r v c q' k')
  then have "1 \<le> t" "t \<le> q" "d = q - t" "q' \<le> d"
    by (auto dest: threshold_range simp: uint_sub_def uint_div_def split: if_splits)
  then show ?case by simp
qed

declare push_delta_loop.simps [simp del]

definition push_delta :: "profile \<Rightarrow> string \<Rightarrow> nat \<Rightarrow> nat \<Rightarrow> string option" where
  "push_delta p outp delta bias = push_delta_loop p outp delta BASE bias"

subsection \<open>The encoder\<close>

fun emit_basic :: "profile \<Rightarrow> nat list \<Rightarrow> string \<Rightarrow> nat \<Rightarrow> (string \<times> nat) option" where
  "emit_basic p [] outp basic_count = Some (outp, basic_count)"
| "emit_basic p (c # cs) outp basic_count =
     (if c < INITIAL_N then
        do { n \<leftarrow> add64 p basic_count 1;
             emit_basic p cs (outp @ [char_of (c mod 256)]) n }
      else emit_basic p cs outp basic_count)"

definition nonbasic_pairs :: "nat list \<Rightarrow> (nat \<times> nat) list" where
  "nonbasic_pairs code_points =
     sort (map (\<lambda>(i, c). (c, i))
       (filter (\<lambda>(i, c). c \<ge> INITIAL_N) (enumerate 0 code_points)))"

text \<open>The locals that the two nested loops of \<open>encode\<close> update.\<close>

record enc =
  outp :: string
  delta :: nat
  bias :: nat
  handled :: nat
  prev_c :: nat

function group_loop ::
    "profile \<Rightarrow> 't ftree \<Rightarrow> (nat \<times> nat) list \<Rightarrow> nat \<Rightarrow> nat \<Rightarrow> 't \<Rightarrow> nat \<Rightarrow> enc \<Rightarrow>
     (nat \<times> enc) option" where
  "group_loop p F pairs basic_count m placed i s =
     (if i < length pairs \<and> fst (pairs ! i) = m then
        do { let pos = snd (pairs ! i);
             c_p \<leftarrow> prefix_sum F placed pos 0;
             step \<leftarrow> sub64 p c_p (prev_c s);
             d \<leftarrow> add64 p (delta s) step;
             out \<leftarrow> push_delta p (outp s) d (bias s);
             h \<leftarrow> add64 p (handled s) 1;
             b \<leftarrow> adapt p d h (handled s = basic_count);
             group_loop p F pairs basic_count m placed (i + 1)
               (s\<lparr>outp := out, delta := 0, bias := b, handled := h, prev_c := c_p\<rparr>) }
      else Some (i, s))"
  by pat_completeness auto
termination
  by (relation "measure (\<lambda>(p, F, pairs, basic_count, m, placed, i, s). length pairs - i)") auto

declare group_loop.simps [simp del]

fun place_group :: "'t ftree \<Rightarrow> 't \<Rightarrow> (nat \<times> nat) list \<Rightarrow> 't option" where
  "place_group F placed [] = Some placed"
| "place_group F placed ((c, pos) # ps) =
     do { placed \<leftarrow> add_at F placed pos 1; place_group F placed ps }"

lemma group_loop_mono: "group_loop p F pairs bc m placed i s = Some (j, t) \<Longrightarrow> i \<le> j"
proof (induction p F pairs bc m placed i s arbitrary: j t rule: group_loop.induct)
  case (1 p F pairs bc m placed i s)
  show ?case
  proof (cases "i < length pairs \<and> fst (pairs ! i) = m")
    case True
    with "1.prems" obtain i' s' where "group_loop p F pairs bc m placed (i + 1) s' = Some (j, t)"
      by (subst (asm) group_loop.simps) (auto simp: Let_def split: bind_splits)
    show ?thesis
      using "1.prems" True "1.IH"
      by (subst (asm) group_loop.simps) (fastforce simp: Let_def split: bind_splits)
  next
    case False
    with "1.prems" show ?thesis by (subst (asm) group_loop.simps) auto
  qed
qed

lemma group_loop_progress:
  assumes "group_loop p F pairs bc (fst (pairs ! i)) placed i s = Some (j, t)"
    and "i < length pairs"
  shows "i < j"
proof -
  from assms obtain s' where
    "group_loop p F pairs bc (fst (pairs ! i)) placed (i + 1) s' = Some (j, t)"
    by (subst (asm) group_loop.simps) (auto simp: Let_def split: bind_splits)
  then show ?thesis by (auto dest: group_loop_mono)
qed

text \<open>
  The outer loop. The source's \<open>n\<close> is assigned \<open>m\<close> and incremented at the end of
  the group, hence \<open>m + 1\<close>; \<open>placed_below_m\<close> is \<open>handled\<close> at the start of the
  group, and the slice \<open>pairs[group_start..i]\<close> is the group just encoded.
\<close>

function encode_loop ::
    "profile \<Rightarrow> 't ftree \<Rightarrow> (nat \<times> nat) list \<Rightarrow> nat \<Rightarrow> nat \<Rightarrow> 't \<Rightarrow> nat \<Rightarrow> enc \<Rightarrow>
     enc option" where
  "encode_loop p F pairs basic_count n placed i s =
     (if i < length pairs then
        do { let m = fst (pairs ! i);
             gap \<leftarrow> sub64 p m n;
             h \<leftarrow> add64 p (handled s) 1;
             skip \<leftarrow> mul64 p gap h;
             d \<leftarrow> add64 p (delta s) skip;
             (j, t) \<leftarrow> group_loop p F pairs basic_count m placed i (s\<lparr>delta := d, prev_c := 0\<rparr>);
             rest \<leftarrow> sub64 p (handled s) (prev_c t);
             carry \<leftarrow> add64 p rest 1;
             n' \<leftarrow> add64 p m 1;
             placed' \<leftarrow> place_group F placed (take (j - i) (drop i pairs));
             encode_loop p F pairs basic_count n' placed' j (t\<lparr>delta := carry\<rparr>) }
      else Some s)"
  by pat_completeness auto
termination
  by (relation "measure (\<lambda>(p, F, pairs, basic_count, n, placed, i, s). length pairs - i)")
    (auto dest: group_loop_progress)

declare encode_loop.simps [simp del]

definition encode :: "profile \<Rightarrow> 't ftree \<Rightarrow> nat list \<Rightarrow> string option" where
  "encode p F code_points =
     do { (out, basic_count) \<leftarrow> emit_basic p code_points [] 0;
          let out = (if basic_count > 0 then out @ ''-'' else out);
          let pairs = nonbasic_pairs code_points;
          if pairs = [] then Some out
          else
            do { placed \<leftarrow> from_iter F (map (\<lambda>c. if c < INITIAL_N then 1 else 0) code_points);
                 s \<leftarrow> encode_loop p F pairs basic_count INITIAL_N placed 0
                       \<lparr>outp = out, delta = 0, bias = INITIAL_BIAS,
                        handled = basic_count, prev_c = 0\<rparr>;
                 Some (outp s) } }"

end
