(* ===== verification/Bootstring.thy ===== *)
theory Bootstring
  imports Prelude
begin

section \<open>Bootstring as RFC 3492 states it\<close>

text \<open>
  The specification the encoder is measured against, over unbounded naturals: the quadratic
  encoder of RFC 3492 section 6.3 (a minimum search and a pass over the whole input for each
  distinct code point), the decoder of section 6.2, and their round trip. Nothing here is
  taken from the crate: it is the abstract side of the refinement in \<open>Punycode_Correct\<close>.
\<close>

subsection \<open>Bias adaptation and variable-length integers\<close>

function rfc_adapt_loop :: "nat \<Rightarrow> nat \<Rightarrow> nat \<times> nat" where
  "rfc_adapt_loop d k = (if d > 455 then rfc_adapt_loop (d div 35) (k + 36) else (d, k))"
  by pat_completeness auto
termination
  by (relation "measure fst") auto

declare rfc_adapt_loop.simps [simp del]

definition rfc_adapt :: "nat \<Rightarrow> nat \<Rightarrow> bool \<Rightarrow> nat" where
  "rfc_adapt d np first =
     (let d = (if first then d div 700 else d div 2);
          (d, k) = rfc_adapt_loop (d + d div np) 0
      in k + 36 * d div (d + 38))"

definition rfc_threshold :: "nat \<Rightarrow> nat \<Rightarrow> nat" where
  "rfc_threshold k b = (if k \<le> b then 1 else if k \<ge> b + 26 then 26 else k - b)"

lemma rfc_threshold_ge1: "1 \<le> rfc_threshold k b"
  and rfc_threshold_le26: "rfc_threshold k b \<le> 26"
  by (auto simp: rfc_threshold_def)

function varint :: "nat \<Rightarrow> nat \<Rightarrow> nat \<Rightarrow> nat list" where
  "varint q k b =
     (let t = rfc_threshold k b
      in if q < t then [q]
         else (t + (q - t) mod (36 - t)) # varint ((q - t) div (36 - t)) (k + 36) b)"
  by pat_completeness auto
termination
proof (relation "measure fst", goal_cases)
  case 1
  show ?case by simp
next
  case (2 q k b t)
  then have "1 \<le> t" "t \<le> q" using rfc_threshold_ge1 [of k b] by auto
  then show ?case by (auto intro: le_less_trans [OF div_le_dividend])
qed

declare varint.simps [simp del]

lemma varint_digits: "d \<in> set (varint q k b) \<Longrightarrow> d < 36"
proof (induction q k b rule: varint.induct)
  case (1 q k b)
  let ?t = "rfc_threshold k b"
  have "(q - ?t) mod (36 - ?t) < 36 - ?t"
    using rfc_threshold_le26 [of k b] by (intro mod_less_divisor) simp
  then have "?t + (q - ?t) mod (36 - ?t) < 36" by simp
  moreover have "?t \<le> 26" by (rule rfc_threshold_le26)
  ultimately show ?case
    using "1.prems" "1.IH" by (subst (asm) varint.simps) (auto simp: Let_def split: if_splits)
qed

definition digit_char :: "nat \<Rightarrow> char" where
  "digit_char d = (if d < 26 then char_of (97 + d) else char_of (22 + d))"

definition rfc_digit :: "char \<Rightarrow> nat option" where
  "rfc_digit c =
     (let n = of_char c
      in if 97 \<le> n \<and> n \<le> 122 then Some (n - 97)
         else if 65 \<le> n \<and> n \<le> 90 then Some (n - 65)
         else if 48 \<le> n \<and> n \<le> 57 then Some (n - 22)
         else None)"

lemma rfc_digit_char [simp]: "d < 36 \<Longrightarrow> rfc_digit (digit_char d) = Some d"
  by (auto simp: rfc_digit_def digit_char_def Let_def of_char_of)

lemma digit_char_range:
  assumes "d < 36"
  shows "of_char (digit_char d) \<in> {48..57::nat} \<union> {97..122}"
  using assms by (auto simp: digit_char_def of_char_of)

lemma digit_char_not_delim: "d < 36 \<Longrightarrow> digit_char d \<noteq> CHR ''-''"
  using digit_char_range [of d] by auto

subsection \<open>The encoder of section 6.3\<close>

definition rfc_step ::
    "nat \<Rightarrow> nat \<Rightarrow> nat \<Rightarrow> nat \<times> nat \<times> nat \<times> string \<Rightarrow> nat \<times> nat \<times> nat \<times> string" where
  "rfc_step b m c = (\<lambda>(delta, bias, h, out).
     if c < m then (delta + 1, bias, h, out)
     else if c = m then
       (0, rfc_adapt delta (h + 1) (h = b), h + 1, out @ map digit_char (varint delta 36 bias))
     else (delta, bias, h, out))"

lemma rfc_step_cases [simp]:
  "c < m \<Longrightarrow> rfc_step b m c (d, bi, h, out) = (d + 1, bi, h, out)"
  "rfc_step b m m (d, bi, h, out) =
     (0, rfc_adapt d (h + 1) (h = b), h + 1, out @ map digit_char (varint d 36 bi))"
  "m < c \<Longrightarrow> rfc_step b m c (d, bi, h, out) = (d, bi, h, out)"
  by (simp_all add: rfc_step_def)

function rfc_loop ::
    "nat \<Rightarrow> nat list \<Rightarrow> nat \<Rightarrow> nat \<times> nat \<times> nat \<times> string \<Rightarrow> string" where
  "rfc_loop b cps n st =
     (case filter (\<lambda>c. n \<le> c) cps of
        [] \<Rightarrow> (case st of (delta, bias, h, out) \<Rightarrow> out)
      | c # cs \<Rightarrow>
          (case st of (delta, bias, h, out) \<Rightarrow>
             let m = fold min cs c in
             case fold (rfc_step b m) cps (delta + (m - n) * (h + 1), bias, h, out) of
               (delta, bias, h, out) \<Rightarrow> rfc_loop b cps (m + 1) (delta + 1, bias, h, out)))"
  by pat_completeness auto

lemma fold_min_Min: "fold min cs c = Min (set (c # cs))" for c :: nat
  by (simp only: Min.set_eq_fold)

lemma fold_min_mem: "fold min cs (c :: nat) \<in> set (c # cs)"
  unfolding fold_min_Min by (intro Min_in) auto

lemma fold_min_le: "x \<in> set (c # cs) \<Longrightarrow> fold min cs (c :: nat) \<le> x"
  unfolding fold_min_Min by (intro Min_le) auto

lemma filter_above_shorter:
  fixes m n :: nat
  assumes "m \<in> set cps" "n \<le> m"
  shows "length (filter (\<lambda>c. m + 1 \<le> c) cps) < length (filter (\<lambda>c. n \<le> c) cps)"
proof -
  have "filter (\<lambda>c. m + 1 \<le> c) cps = filter (\<lambda>c. m + 1 \<le> c) (filter (\<lambda>c. n \<le> c) cps)"
    using assms by (auto intro!: filter_cong)
  moreover have "length \<dots> < length (filter (\<lambda>c. n \<le> c) cps)"
    using assms by (intro length_filter_less [of m]) auto
  ultimately show ?thesis by simp
qed

termination rfc_loop
proof (relation "measure (\<lambda>(b, cps, n, st). length (filter (\<lambda>c. n \<le> c) cps))", goal_cases)
  case 1
  show ?case by simp
next
  case (2 b cps n st c cs)
  let ?m = "fold min cs c"
  from 2 have "?m \<in> set (filter (\<lambda>c. n \<le> c) cps)" by (metis fold_min_mem)
  then have "?m \<in> set cps" "n \<le> ?m" by auto
  then have "length (filter (\<lambda>c. ?m + 1 \<le> c) cps) < length (filter (\<lambda>c. n \<le> c) cps)"
    by (rule filter_above_shorter)
  with 2 show ?case by simp
qed

declare rfc_loop.simps [simp del]

definition basic_part :: "nat list \<Rightarrow> nat list" where
  "basic_part cps = filter (\<lambda>c. c < 128) cps"

definition rfc_encode :: "nat list \<Rightarrow> string" where
  "rfc_encode cps =
     (let bs = basic_part cps;
          b = length bs;
          out = map char_of bs @ (if b > 0 then ''-'' else [])
      in rfc_loop b cps 128 (0, 72, b, out))"

subsection \<open>The decoder of section 6.2\<close>

fun decode_varint ::
    "string \<Rightarrow> nat \<Rightarrow> nat \<Rightarrow> nat \<Rightarrow> nat \<Rightarrow> (nat \<times> string) option" where
  "decode_varint [] k b w i = None"
| "decode_varint (c # cs) k b w i =
     (case rfc_digit c of
        None \<Rightarrow> None
      | Some d \<Rightarrow>
          let t = rfc_threshold k b; i = i + d * w
          in if d < t then Some (i, cs) else decode_varint cs (k + 36) b (w * (36 - t)) i)"

lemma decode_varint_shorter:
  "decode_varint cs k b w i = Some (j, rest) \<Longrightarrow> length rest < length cs"
  by (induction cs k b w i rule: decode_varint.induct)
    (fastforce simp: Let_def split: option.splits if_splits)+

definition insert_at :: "nat \<Rightarrow> 'a \<Rightarrow> 'a list \<Rightarrow> 'a list" where
  "insert_at j x xs = take j xs @ x # drop j xs"

function decode_loop ::
    "nat \<Rightarrow> nat \<Rightarrow> nat \<Rightarrow> nat list \<Rightarrow> string \<Rightarrow> nat list option" where
  "decode_loop n i bias out cs =
     (if cs = [] then Some out
      else case decode_varint cs 36 bias 1 i of
        None \<Rightarrow> None
      | Some (i', rest) \<Rightarrow>
          (let l = length out + 1; n' = n + i' div l; j = i' mod l
           in decode_loop n' (j + 1) (rfc_adapt (i' - i) l (i = 0)) (insert_at j n' out) rest))"
  by pat_completeness auto
termination
  by (relation "measure (\<lambda>(n, i, bias, out, cs). length cs)") (auto dest: decode_varint_shorter)

declare decode_loop.simps [simp del]

text \<open>Everything before the last delimiter is copied verbatim.\<close>

definition last_delim :: "string \<Rightarrow> (string \<times> string) option" where
  "last_delim s =
     (if CHR ''-'' \<in> set s
      then Some (rev (tl (dropWhile (\<lambda>c. c \<noteq> CHR ''-'') (rev s))),
                 rev (takeWhile (\<lambda>c. c \<noteq> CHR ''-'') (rev s)))
      else None)"

definition rfc_decode :: "string \<Rightarrow> nat list option" where
  "rfc_decode s =
     (case last_delim s of
        None \<Rightarrow> decode_loop 128 0 72 [] s
      | Some (bs, rest) \<Rightarrow>
          if \<forall>c \<in> set bs. of_char c < (128 :: nat)
          then decode_loop 128 0 72 (map of_char bs) rest else None)"

subsection \<open>Round trip\<close>

lemma decode_varint_varint:
  "decode_varint (map digit_char (varint q k b) @ rest) k b w i = Some (i + q * w, rest)"
proof (induction q k b arbitrary: w i rule: varint.induct)
  case (1 q k b)
  let ?t = "rfc_threshold k b"
  show ?case
  proof (cases "q < ?t")
    case True
    then have "q < 36" using rfc_threshold_le26 [of k b] by simp
    with True show ?thesis by (subst varint.simps) (simp add: Let_def)
  next
    case False
    let ?d = "?t + (q - ?t) mod (36 - ?t)" and ?q = "(q - ?t) div (36 - ?t)"
    have "varint q k b = ?d # varint ?q (k + 36) b"
      using False by (subst varint.simps) (simp add: Let_def)
    moreover from this have "?d < 36" using varint_digits [of ?d q k b] by simp
    moreover have "?d * w + ?q * (w * (36 - ?t)) = q * w"
    proof -
      have "?d * w + ?q * (w * (36 - ?t)) =
          (?t + ((q - ?t) div (36 - ?t) * (36 - ?t) + (q - ?t) mod (36 - ?t))) * w"
        by (simp add: algebra_simps)
      also have "\<dots> = q * w" using False by (simp only: div_mult_mod_eq) simp
      finally show ?thesis .
    qed
    ultimately show ?thesis using "1.IH" [OF refl False, of "w * (36 - ?t)" "i + ?d * w"]
      by (simp add: Let_def add.assoc)
  qed
qed

definition digit_string :: "string \<Rightarrow> bool" where
  "digit_string s \<longleftrightarrow> (\<forall>c \<in> set s. \<exists>d < 36. c = digit_char d)"

lemma digit_string_simps [simp]:
  "digit_string []"
  "digit_string (s @ t) \<longleftrightarrow> digit_string s \<and> digit_string t"
  "digit_string (map digit_char (varint q k b))"
  by (auto simp: digit_string_def dest: varint_digits)

lemma digit_string_no_delim: "digit_string s \<Longrightarrow> CHR ''-'' \<notin> set s"
  unfolding digit_string_def by (metis digit_char_not_delim)

lemma varint_nonempty [simp]: "varint q k b \<noteq> []"
  by (subst varint.simps) (simp add: Let_def)

lemma div_mod_unique_nat:
  fixes a l P :: nat
  assumes "P < l"
  shows "(a * l + P) div l = a" and "(a * l + P) mod l = P"
  using assms by simp_all

text \<open>One insertion: the decoder's virtual position \<open>n * (h + 1) + i\<close> plus the delta.\<close>

lemma decode_loop_insert:
  assumes "length out = h" and "n * (h + 1) + i + D = m * (h + 1) + P" and "P \<le> h" and "n \<le> m"
  shows "decode_loop n i bias out (map digit_char (varint D 36 bias) @ rest) =
    decode_loop m (P + 1) (rfc_adapt D (h + 1) (i = 0)) (insert_at P m out) rest"
proof -
  have "m * (h + 1) = n * (h + 1) + (m - n) * (h + 1)"
    using assms(4) by (metis add_mult_distrib le_add_diff_inverse)
  with assms have "i + D = (m - n) * (h + 1) + P" by simp
  then have "(i + D) div (h + 1) = m - n" "(i + D) mod (h + 1) = P"
    using div_mod_unique_nat [of P "h + 1" "m - n"] assms(3) by simp_all
  then show ?thesis using assms
    by (subst decode_loop.simps) (simp add: decode_varint_varint Let_def)
qed

text \<open>The decoder's state while the encoder is in the pass for the value \<open>m\<close>, having read
  \<open>pre\<close>: its output is what the pass has emitted so far, in input order.\<close>

definition in_pass ::
    "nat \<Rightarrow> nat \<Rightarrow> nat list \<Rightarrow> nat list \<Rightarrow> nat \<times> nat \<times> nat list \<Rightarrow> nat \<Rightarrow> nat \<Rightarrow> bool" where
  "in_pass b m pre suf st D h \<longleftrightarrow>
     (case st of (n, i, dout) \<Rightarrow>
        dout = filter (\<lambda>c. c \<le> m) pre @ filter (\<lambda>c. c < m) suf \<and> h = length dout \<and>
        n \<le> m \<and> i \<le> h \<and> b \<le> h \<and> (i = 0 \<longleftrightarrow> h = b) \<and>
        n * (h + 1) + i + D = m * (h + 1) + length (filter (\<lambda>c. c \<le> m) pre))"

lemma in_pass_less:
  "in_pass b m pre (c # suf) st D h \<Longrightarrow> c < m \<Longrightarrow> in_pass b m (pre @ [c]) suf st (D + 1) h"
  by (auto simp: in_pass_def)

lemma in_pass_greater:
  "in_pass b m pre (c # suf) st D h \<Longrightarrow> m < c \<Longrightarrow> in_pass b m (pre @ [c]) suf st D h"
  by (auto simp: in_pass_def)

lemma in_pass_equal:
  assumes "in_pass b m pre (m # suf) (n, i, dout) D h"
  defines "P \<equiv> length (filter (\<lambda>c. c \<le> m) pre)"
  shows "in_pass b m (pre @ [m]) suf (m, P + 1, insert_at P m dout) 0 (h + 1)"
    and "decode_loop n i bias dout (map digit_char (varint D 36 bias) @ rest) =
      decode_loop m (P + 1) (rfc_adapt D (h + 1) (h = b)) (insert_at P m dout) rest"
proof -
  show "in_pass b m (pre @ [m]) suf (m, P + 1, insert_at P m dout) 0 (h + 1)"
    using assms by (auto simp: in_pass_def insert_at_def)
  have "P \<le> h" "length dout = h" "(i = 0) = (h = b)"
    using assms by (auto simp: in_pass_def)
  then show "decode_loop n i bias dout (map digit_char (varint D 36 bias) @ rest) =
      decode_loop m (P + 1) (rfc_adapt D (h + 1) (h = b)) (insert_at P m dout) rest"
    using assms decode_loop_insert [of dout h n i D m P bias rest] by (simp add: in_pass_def)
qed

lemma pass_decode:
  assumes "in_pass b m pre suf (n, i, dout) D h"
    and "fold (rfc_step b m) suf (D, bias, h, out) = (D', bias', h', out')"
  shows "\<exists>tail n' i' dout'. out' = out @ tail \<and> digit_string tail \<and>
    in_pass b m (pre @ suf) [] (n', i', dout') D' h' \<and>
    (\<forall>rest. decode_loop n i bias dout (tail @ rest) = decode_loop n' i' bias' dout' rest)"
  using assms
proof (induction suf arbitrary: pre n i dout D bias h out)
  case Nil
  then show ?case by (intro exI [of _ "[]"] exI [of _ n] exI [of _ i] exI [of _ dout]) simp
next
  case (Cons c suf)
  consider "c < m" | "c = m" | "m < c" by linarith
  then show ?case
  proof cases
    case 1
    with Cons.prems Cons.IH [OF in_pass_less [OF Cons.prems(1) 1]] show ?thesis
      by simp
  next
    case 2
    let ?P = "length (filter (\<lambda>c. c \<le> m) pre)"
    let ?b = "rfc_adapt D (h + 1) (h = b)"
    let ?v = "map digit_char (varint D 36 bias)"
    note eq = in_pass_equal [OF Cons.prems(1) [unfolded 2]]
    obtain tail n' i' dout' where IH: "out' = (out @ ?v) @ tail" "digit_string tail"
      "in_pass b m (pre @ m # suf) [] (n', i', dout') D' h'"
      "\<forall>rest. decode_loop m (?P + 1) ?b (insert_at ?P m dout) (tail @ rest) =
        decode_loop n' i' bias' dout' rest"
      using Cons.prems(2) Cons.IH [OF eq(1), of ?b "out @ ?v"] 2
      by auto
    then show ?thesis
      by (intro exI [of _ "?v @ tail"] exI [of _ n'] exI [of _ i'] exI [of _ dout'])
        (simp add: 2 eq(2))
  next
    case 3
    with Cons.prems Cons.IH [OF in_pass_greater [OF Cons.prems(1) 3]] show ?thesis
      by simp
  qed
qed

lemma in_pass_start:
  assumes "dout = filter (\<lambda>c. c < N) cps" "h = length dout" "n \<le> N" "i \<le> h" "b \<le> h"
    and "i = 0 \<longleftrightarrow> h = b" and "n * (h + 1) + i + D = N * (h + 1)"
    and "N \<le> m" and "\<forall>c \<in> set cps. N \<le> c \<longrightarrow> m \<le> c"
  shows "in_pass b m [] cps (n, i, dout) (D + (m - N) * (h + 1)) h"
proof -
  have "filter (\<lambda>c. c < N) cps = filter (\<lambda>c. c < m) cps"
    using assms(8,9) by (intro filter_cong) fastforce+
  moreover have "N * (h + 1) + (m - N) * (h + 1) = m * (h + 1)"
    using assms(8) by (metis add_mult_distrib le_add_diff_inverse)
  ultimately show ?thesis using assms by (simp add: in_pass_def)
qed

lemma loop_decode:
  assumes "dout = filter (\<lambda>c. c < N) cps" "h = length dout" "n \<le> N" "i \<le> h" "b \<le> h"
    and "i = 0 \<longleftrightarrow> h = b" and "n * (h + 1) + i + D = N * (h + 1)"
  shows "\<exists>tail. rfc_loop b cps N (D, bias, h, out) = out @ tail \<and> digit_string tail \<and>
    decode_loop n i bias dout tail = Some cps"
  using assms
proof (induction b cps N "(D, bias, h, out)" arbitrary: D bias h out n i dout rule: rfc_loop.induct)
  case (1 b cps N D bias h out)
  show ?case
  proof (cases "filter (\<lambda>c. N \<le> c) cps")
    case Nil
    then have "dout = cps"
      using "1.prems"(1) by (simp add: filter_empty_conv not_le)
    with Nil show ?thesis
      by (subst rfc_loop.simps, intro exI [of _ "[]"]) (simp add: decode_loop.simps)
  next
    case (Cons c cs)
    let ?m = "fold min cs c"
    have "?m \<in> set (filter (\<lambda>c. N \<le> c) cps)" using Cons by (metis fold_min_mem)
    then have m: "N \<le> ?m" by simp
    have "x \<in> set (c # cs)" if "x \<in> set cps" "N \<le> x" for x
      using that by (simp flip: Cons)
    then have min: "\<forall>c \<in> set cps. N \<le> c \<longrightarrow> ?m \<le> c"
      by (blast intro: fold_min_le)
    obtain D' bias' h' out' where pass:
      "fold (rfc_step b ?m) cps (D + (?m - N) * (h + 1), bias, h, out) = (D', bias', h', out')"
      by (metis prod_cases4)
    obtain tail n' i' dout' where t: "out' = out @ tail" "digit_string tail"
      "in_pass b ?m cps [] (n', i', dout') D' h'"
      "\<forall>rest. decode_loop n i bias dout (tail @ rest) = decode_loop n' i' bias' dout' rest"
      using pass_decode [OF in_pass_start [OF "1.prems" m min] pass] by auto
    have prems: "dout' = filter (\<lambda>c. c < ?m + 1) cps" "h' = length dout'" "n' \<le> ?m + 1"
      "i' \<le> h'" "b \<le> h'" "i' = 0 \<longleftrightarrow> h' = b"
      "n' * (h' + 1) + i' + (D' + 1) = (?m + 1) * (h' + 1)"
      using t(3) by (auto simp: in_pass_def less_Suc_eq_le)
    obtain tail2 where t2: "rfc_loop b cps (?m + 1) (D' + 1, bias', h', out') = out' @ tail2"
      "digit_string tail2" "decode_loop n' i' bias' dout' tail2 = Some cps"
      using "1.hyps" [OF Cons refl refl refl refl pass [symmetric] refl refl prems]
      by auto
    show ?thesis
      using Cons pass t t2 by (subst rfc_loop.simps, intro exI [of _ "tail @ tail2"]) simp
  qed
qed

lemma last_delim_append:
  "CHR ''-'' \<notin> set t \<Longrightarrow> last_delim (s @ CHR ''-'' # t) = Some (s, t)"
  by (simp add: last_delim_def dropWhile_append takeWhile_append)

lemma basic_part_chars: "map of_char (map char_of (basic_part cps) :: string) = basic_part cps"
  by (induction cps) (auto simp: basic_part_def of_char_of)

text \<open>What the encoder writes, and that the decoder reads it back.\<close>

lemma rfc_encode_tail:
  obtains tail where
    "rfc_encode cps =
       map char_of (basic_part cps) @ (if basic_part cps = [] then [] else ''-'') @ tail"
    "digit_string tail" "decode_loop 128 0 72 (basic_part cps) tail = Some cps"
    "rfc_loop (length (basic_part cps)) cps 128 (0, 72, length (basic_part cps),
       map char_of (basic_part cps) @ (if basic_part cps = [] then [] else ''-'')) =
     map char_of (basic_part cps) @ (if basic_part cps = [] then [] else ''-'') @ tail"
proof -
  let ?bs = "basic_part cps"
  let ?out = "map char_of ?bs @ (if ?bs = [] then [] else ''-'')"
  obtain tail where "rfc_loop (length ?bs) cps 128 (0, 72, length ?bs, ?out) = ?out @ tail"
    "digit_string tail" "decode_loop 128 0 72 ?bs tail = Some cps"
    using loop_decode [of ?bs 128 cps "length ?bs" 128 0 "length ?bs" 0 72 ?out]
    by (auto simp: basic_part_def)
  then show ?thesis using that [of tail] by (simp add: rfc_encode_def Let_def split: if_splits)
qed

theorem rfc_roundtrip: "rfc_decode (rfc_encode cps) = Some cps"
proof -
  let ?bs = "basic_part cps"
  obtain tail where t: "rfc_encode cps = map char_of ?bs @ (if ?bs = [] then [] else ''-'') @ tail"
    "digit_string tail" "decode_loop 128 0 72 ?bs tail = Some cps"
    by (rule rfc_encode_tail)
  have nodelim: "CHR ''-'' \<notin> set tail"
    using t(2) by (rule digit_string_no_delim)
  show ?thesis
  proof (cases "?bs = []")
    case True
    with t nodelim show ?thesis by (simp add: rfc_decode_def last_delim_def)
  next
    case False
    then have "last_delim (rfc_encode cps) = Some (map char_of ?bs, tail)"
      using nodelim by (simp add: t(1) last_delim_append)
    moreover have "\<forall>c \<in> set (map char_of ?bs :: string). of_char c < (128 :: nat)"
      by (auto simp: basic_part_def of_char_of)
    ultimately show ?thesis
      using t(3) basic_part_chars [of cps] by (simp add: rfc_decode_def del: map_map)
  qed
qed

end
