(* ===== verification/Punycode_Correct.thy ===== *)
theory Punycode_Correct
  imports Punycode Bootstring
begin

section \<open>The encoder refines RFC 3492\<close>

text \<open>
  In-range inputs never reach the panicking or wrapping branch of the checked arithmetic, and
  there the Fenwick-driven loops of \<open>Punycode\<close> produce exactly what the quadratic encoder
  of \<open>Bootstring\<close> produces. The deltas stay below \<open>2 ^ 63\<close> for inputs shorter
  than \<open>2 ^ 42\<close> code points, because a code point is below \<open>2 ^ 21\<close>.
\<close>

lemma of_char_a [simp]: "of_char CHR ''a'' = (97 :: nat)"
  and of_char_0 [simp]: "of_char CHR ''0'' = (48 :: nat)"
  by simp_all

lemma digit_to_char_ok [arith_ok]: "d < 36 \<Longrightarrow> digit_to_char p d = Some (digit_char d)"
  by (auto simp: digit_to_char_def digit_char_def BASE_def uint_add_def uint_sub_def checked_def)

subsection \<open>Bias adaptation\<close>

lemma adapt_loop_ok:
  "d < 2 ^ j \<Longrightarrow> k + 36 * j < 2 ^ 64 \<Longrightarrow> adapt_loop p d k = Some (rfc_adapt_loop d k)"
proof (induction j arbitrary: d k)
  case 0
  then show ?case
    by (subst adapt_loop.simps, subst rfc_adapt_loop.simps) (simp add: puny_consts)
next
  case (Suc j)
  have "d div 35 < 2 ^ j" using Suc.prems(1) by simp
  moreover have "(k + 36) + 36 * j < 2 ^ 64" using Suc.prems(2) by simp
  ultimately have "adapt_loop p (d div 35) (k + 36) = Some (rfc_adapt_loop (d div 35) (k + 36))"
    by (rule Suc.IH)
  then show ?case using Suc.prems(2)
    by (subst adapt_loop.simps, subst rfc_adapt_loop.simps) (simp add: puny_consts arith_ok)
qed

lemma rfc_adapt_loop_bound:
  "d < 2 ^ j \<Longrightarrow> rfc_adapt_loop d k = (d', k') \<Longrightarrow> d' \<le> 455 \<and> k' \<le> k + 36 * j"
proof (induction j arbitrary: d k)
  case 0
  then show ?case by (simp add: rfc_adapt_loop.simps [of 0 k])
next
  case (Suc j)
  have "d div 35 < 2 ^ j" using Suc.prems(1) by simp
  with Suc.IH [of "d div 35" "k + 36"] Suc.prems(2) show ?case
    by (auto simp: rfc_adapt_loop.simps [of d k] split: if_splits)
qed

lemma adapt_start_bound:
  fixes d np :: nat
  assumes "d < 2 ^ 63"
  shows "(if f then d div 700 else d div 2) + (if f then d div 700 else d div 2) div np < 2 ^ 63"
proof -
  define e where "e = (if f then d div 700 else d div 2)"
  have "e div np \<le> e" by (rule div_le_dividend)
  moreover have "e < 2 ^ 62" using assms(1) by (auto simp: e_def)
  ultimately have "e + e div np < 2 ^ 62 + 2 ^ 62" by linarith
  then show ?thesis by (simp add: e_def [symmetric])
qed

lemma adapt_quotient_bound: "36 * d div (d + 38) \<le> (36 :: nat)"
proof -
  have "36 * d div (d + 38) \<le> 36 * (d + 38) div (d + 38)" by (intro div_le_mono) simp
  also have "\<dots> = 36" by (rule nonzero_mult_div_cancel_right) simp
  finally show ?thesis .
qed

lemma rfc_adapt_bound:
  assumes "d < 2 ^ 63"
  shows "rfc_adapt d np f \<le> 2340"
proof -
  let ?d = "if f then d div 700 else d div 2"
  obtain d' k' where dk: "rfc_adapt_loop (?d + ?d div np) 0 = (d', k')" by fastforce
  have "k' \<le> 36 * 63" using rfc_adapt_loop_bound [OF adapt_start_bound [OF assms] dk] by simp
  moreover have "36 * d' div (d' + 38) \<le> 36" by (rule adapt_quotient_bound)
  ultimately show ?thesis using dk by (simp add: rfc_adapt_def Let_def)
qed

lemma adapt_ok:
  assumes "d < 2 ^ 63" and "1 \<le> np"
  shows "adapt p d np f = Some (rfc_adapt d np f)"
proof -
  define e where "e = (if f then d div 700 else d div 2)"
  obtain d' k' where dk: "rfc_adapt_loop (e + e div np) 0 = (d', k')" by fastforce
  have lt: "e + e div np < 2 ^ 63" unfolding e_def by (rule adapt_start_bound [OF assms(1)])
  then have b: "d' \<le> 455" "k' \<le> 36 * 63" using rfc_adapt_loop_bound [OF lt dk] by auto
  have q: "36 * d' div (d' + 38) \<le> 36" by (rule adapt_quotient_bound)
  have "adapt_loop p (e + e div np) 0 = Some (d', k')"
    using adapt_loop_ok [OF lt, of 0 p] dk by simp
  then show ?thesis
    using assms(2) lt b q dk unfolding adapt_def rfc_adapt_def puny_consts e_def [symmetric]
    by (simp add: Let_def arith_ok)
qed

subsection \<open>Variable-length integers\<close>

lemma threshold_ok: "b + 26 < 2 ^ 64 \<Longrightarrow> threshold p k b = Some (rfc_threshold k b)"
  by (auto simp: threshold_def rfc_threshold_def puny_consts arith_ok)

lemma push_delta_loop_ok:
  assumes "q < 2 ^ j" and "k + 36 * j + 36 < 2 ^ 64" and "b + 26 < 2 ^ 64" and "j \<le> 63"
  shows "push_delta_loop p out q k b = Some (out @ map digit_char (varint q k b))"
  using assms
proof (induction j arbitrary: q k out)
  case 0
  then have "q < rfc_threshold k b" using rfc_threshold_ge1 [of k b] by simp
  with 0 show ?case
    by (subst push_delta_loop.simps, subst varint.simps)
      (simp add: threshold_ok arith_ok Let_def)
next
  case (Suc j)
  let ?t = "rfc_threshold k b"
  have t: "1 \<le> ?t" "?t \<le> 26" by (rule rfc_threshold_ge1 rfc_threshold_le26)+
  show ?case
  proof (cases "q < ?t")
    case True
    with t Suc.prems show ?thesis
      by (subst push_delta_loop.simps, subst varint.simps)
        (simp add: threshold_ok arith_ok Let_def)
  next
    case False
    let ?q = "(q - ?t) div (36 - ?t)" and ?r = "(q - ?t) mod (36 - ?t)"
    have "?q \<le> (q - ?t) div 10" using t(2) by (intro div_le_mono2) auto
    then have "?q < 2 ^ j" using Suc.prems(1) by simp
    then have IH: "push_delta_loop p out' ?q (k + 36) b =
        Some (out' @ map digit_char (varint ?q (k + 36) b))" for out'
      using Suc.prems by (intro Suc.IH) auto
    have "?r < 36 - ?t" using t(2) by (intro mod_less_divisor) simp
    then have d: "?t + ?r < 36" by simp
    have "push_delta_loop p out q k b = push_delta_loop p (out @ [digit_char (?t + ?r)]) ?q (k + 36) b"
      using False Suc.prems t d
      by (subst push_delta_loop.simps) (simp add: threshold_ok puny_consts arith_ok)
    also have "\<dots> = Some (out @ map digit_char (varint q k b))"
      using False by (simp add: IH varint.simps [of q k b] Let_def)
    finally show ?thesis .
  qed
qed

lemma push_delta_ok:
  assumes "d < 2 ^ 63" and "b \<le> 2340"
  shows "push_delta p out d b = Some (out @ map digit_char (varint d 36 b))"
  unfolding push_delta_def BASE_def by (rule push_delta_loop_ok [of _ 63]) (use assms in auto)

subsection \<open>Occurrences of one code point\<close>

fun occs :: "nat \<Rightarrow> nat \<Rightarrow> nat list \<Rightarrow> (nat \<times> nat) list" where
  "occs m k [] = []"
| "occs m k (c # cs) = (if c = m then (m, k) # occs m (k + 1) cs else occs m (k + 1) cs)"

definition pairs_ge :: "nat \<Rightarrow> nat list \<Rightarrow> (nat \<times> nat) list" where
  "pairs_ge n cps = sort (map (\<lambda>(i, c). (c, i)) (filter (\<lambda>(i, c). n \<le> c) (enumerate 0 cps)))"

lemma nonbasic_pairs_eq: "nonbasic_pairs cps = pairs_ge 128 cps"
  by (simp add: nonbasic_pairs_def pairs_ge_def INITIAL_N_def)

lemma mem_occs:
  "(a, b) \<in> set (occs m k cs) \<longleftrightarrow> a = m \<and> k \<le> b \<and> b < k + length cs \<and> cs ! (b - k) = m"
proof (induction cs arbitrary: k)
  case Nil
  then show ?case by simp
next
  case (Cons c cs)
  show ?case
  proof (cases "k < b")
    case True
    then have "(c # cs) ! (b - k) = cs ! (b - (k + 1))" by (simp add: nth_Cons')
    with True show ?thesis by (auto simp: Cons.IH)
  next
    case False
    then show ?thesis by (auto simp: Cons.IH)
  qed
qed

lemma set_occs: "set (occs m k cs) = {(m, k + i) | i. i < length cs \<and> cs ! i = m}"
  by (auto simp: mem_occs) (metis add_diff_cancel_left' le_iff_add nat_add_left_cancel_less)

lemma sorted_occs: "sorted (occs m k cs)" and distinct_occs: "distinct (occs m k cs)"
  by (induction cs arbitrary: k) (auto simp: set_occs less_eq_prod_def)

lemma length_occs: "length (occs m k cs) + count_below m cs = count_below (m + 1) cs"
  by (induction cs arbitrary: k) (auto simp: less_Suc_eq)

lemma set_pairs_ge: "set (pairs_ge n cps) = {(c, i). i < length cps \<and> cps ! i = c \<and> n \<le> c}"
  by (force simp: pairs_ge_def in_set_enumerate_eq image_def)

lemma distinct_pairs_ge: "distinct (pairs_ge n cps)"
  by (auto simp: pairs_ge_def distinct_map inj_on_def)

lemma pairs_ge_split:
  assumes "n \<le> m" and "\<forall>c \<in> set cps. n \<le> c \<longrightarrow> m \<le> c"
  shows "pairs_ge n cps = occs m 0 cps @ pairs_ge (m + 1) cps"
proof (rule sorted_distinct_set_unique)
  show "sorted (pairs_ge n cps)" by (simp add: pairs_ge_def)
  show "distinct (pairs_ge n cps)" by (rule distinct_pairs_ge)
  show "sorted (occs m 0 cps @ pairs_ge (m + 1) cps)"
    by (auto simp: sorted_append sorted_occs set_occs set_pairs_ge less_eq_prod_def)
      (simp add: pairs_ge_def)
  show "distinct (occs m 0 cps @ pairs_ge (m + 1) cps)"
    by (auto simp: distinct_occs distinct_pairs_ge set_occs set_pairs_ge)
  show "set (pairs_ge n cps) = set (occs m 0 cps @ pairs_ge (m + 1) cps)"
    using assms by (fastforce simp: set_occs set_pairs_ge)
qed

lemma pairs_ge_Nil_iff: "pairs_ge n cps = [] \<longleftrightarrow> filter (\<lambda>c. n \<le> c) cps = []"
proof -
  have "pairs_ge n cps = [] \<longleftrightarrow> set (pairs_ge n cps) = {}" by simp
  also have "\<dots> \<longleftrightarrow> (\<forall>c \<in> set cps. \<not> n \<le> c)"
    unfolding set_pairs_ge by (fastforce simp: in_set_conv_nth)
  finally show ?thesis by (simp add: filter_empty_conv)
qed

subsection \<open>The tree cells as an indicator\<close>

definition indicator :: "nat \<Rightarrow> nat list \<Rightarrow> nat list" where
  "indicator m cps = map (\<lambda>c. if c < m then 1 else 0) cps"

lemma indicator_simps [simp]:
  "indicator m [] = []"
  "indicator m (c # cs) = (if c < m then 1 else 0) # indicator m cs"
  "indicator m (xs @ ys) = indicator m xs @ indicator m ys"
  "length (indicator m cps) = length cps"
  by (simp_all add: indicator_def)

lemma sum_indicator [simp]: "sum_list (indicator m cps) = count_below m cps"
  by (induction cps) auto

lemma count_below_cong:
  "n \<le> m \<Longrightarrow> \<forall>c \<in> set cps. n \<le> c \<longrightarrow> m \<le> c \<Longrightarrow> count_below n cps = count_below m cps"
  by (induction cps) auto

lemma indicator_cong:
  "n \<le> m \<Longrightarrow> \<forall>c \<in> set cps. n \<le> c \<longrightarrow> m \<le> c \<Longrightarrow> indicator n cps = indicator m cps"
  by (induction cps) auto

subsection \<open>The loops, for any tree that obeys the interface\<close>

definition small_input :: "nat list \<Rightarrow> bool" where
  "small_input cps \<longleftrightarrow> length cps < 2 ^ 42 \<and> (\<forall>c \<in> set cps. c \<le> 1114111)"

lemma small_input_simps:
  "small_input cps \<Longrightarrow> length cps < 2 ^ 42"
  "small_input cps \<Longrightarrow> c \<in> set cps \<Longrightarrow> c \<le> 1114111"
  by (simp_all add: small_input_def)

lemma count_below_small: "small_input cps \<Longrightarrow> count_below m cps < 2 ^ 42"
  by (meson count_below_le_length le_less_trans small_input_simps(1))

lemma drop_eq_ConsD:
  assumes "drop i xs = y # ys"
  shows "i < length xs" and "xs ! i = y" and "drop (i + 1) xs = ys"
proof -
  show "i < length xs" using assms by (cases "i < length xs") auto
  then show "xs ! i = y" using assms by (metis Cons_nth_drop_Suc list.inject)
  show "drop (i + 1) xs = ys" using assms by (simp add: drop_Suc tl_drop [symmetric])
qed

lemma emit_basic_ok:
  "n + length cps < 2 ^ 64 \<Longrightarrow> emit_basic p cps out n =
    Some (out @ map char_of (basic_part cps), n + length (basic_part cps))"
  by (induction cps arbitrary: out n) (auto simp: basic_part_def INITIAL_N_def arith_ok)

context prefix_counter
begin

lemma prefix_sum_indicator:
  assumes "invar t" "cells t = indicator m (pre @ suf)" "small_input (pre @ suf)"
  shows "prefix_sum F t (length pre) 0 = Some (count_below m pre)"
proof -
  have "count_below m (pre @ suf) < 2 ^ 42" by (rule count_below_small [OF assms(3)])
  then show ?thesis
    using assms(1,2) prefix_sum_law [of t "length pre" 0] by simp
qed

lemma place_occs:
  assumes "invar t" "cells t = indicator (m + 1) pre @ indicator m suf"
    and "small_input (pre @ suf)"
  shows "\<exists>t'. place_group F t (occs m (length pre) suf) = Some t' \<and> invar t' \<and>
    cells t' = indicator (m + 1) (pre @ suf)"
  using assms
proof (induction suf arbitrary: pre t)
  case Nil
  then show ?case by simp
next
  case (Cons c suf)
  have small: "small_input ((pre @ [c]) @ suf)" using Cons.prems(3) by simp
  show ?case
  proof (cases "c = m")
    case True
    have "length (indicator (m + 1) pre) = length pre" by simp
    moreover have "sum_list (cells t) \<le> length (pre @ c # suf)"
      unfolding Cons.prems(2) sum_list_append sum_indicator length_append
      by (intro add_mono count_below_le_length)
    then have "sum_list (cells t) + 1 < 2 ^ 64"
      using small_input_simps(1) [OF Cons.prems(3)] by simp
    ultimately obtain t' where t': "add_at F t (length pre) 1 = Some t'" "invar t'"
      "cells t' = indicator (m + 1) (pre @ [c]) @ indicator m suf"
      using add_at_law [OF Cons.prems(1), of "length pre" 1] Cons.prems(2) True
      by (auto simp: nth_append list_update_append)
    with Cons.IH [OF t'(2,3) small] True show ?thesis by simp
  next
    case False
    then have "cells t = indicator (m + 1) (pre @ [c]) @ indicator m suf"
      using Cons.prems(2) by (auto simp: less_Suc_eq)
    from Cons.IH [OF Cons.prems(1) this small] False show ?thesis by simp
  qed
qed

lemma group_loop_refines:
  assumes "small_input (pre @ suf)" "invar t" "cells t = indicator m (pre @ suf)"
    and "drop i pairs = occs m (length pre) suf @ rest" "\<forall>x \<in> set rest. fst x \<noteq> m"
    and "prev_c s \<le> count_below m pre" "bias s \<le> 2340"
    and "delta s + length (pre @ suf) < 2 ^ 63" "handled s + length suf < 2 ^ 63"
    and "fold (rfc_step b m) suf
      (delta s + (count_below m pre - prev_c s), bias s, handled s, outp s) = (dl, bi, h, out)"
  shows "\<exists>D P. group_loop p F pairs b m t i s =
      Some (i + length (occs m (length pre) suf),
        s\<lparr>outp := out, delta := D, bias := bi, handled := h, prev_c := P\<rparr>) \<and>
    dl = D + (count_below m (pre @ suf) - P) \<and> P \<le> count_below m (pre @ suf) \<and> bi \<le> 2340 \<and>
    h = handled s + length (occs m (length pre) suf) \<and>
    D = (if occs m (length pre) suf = [] then delta s else 0)"
  using assms
proof (induction suf arbitrary: pre i s)
  case Nil
  have "pairs ! i \<in> set rest" if "i < length pairs"
    using that Nil.prems(4) by (metis append_Nil list.set_intros(1) occs.simps(1) Cons_nth_drop_Suc)
  then have "\<not> (i < length pairs \<and> fst (pairs ! i) = m)" using Nil.prems(5) by blast
  then have "group_loop p F pairs b m t i s = Some (i, s)"
    by (subst group_loop.simps) (rule if_not_P)
  with Nil.prems show ?case
    by (intro exI [of _ "delta s"] exI [of _ "prev_c s"]) auto
next
  case (Cons c suf)
  have small: "small_input ((pre @ [c]) @ suf)" using Cons.prems(1) by simp
  have cells: "cells t = indicator m ((pre @ [c]) @ suf)" using Cons.prems(3) by simp
  show ?case
  proof (cases "c = m")
    case False
    then have "fold (rfc_step b m) suf
      (delta s + (count_below m (pre @ [c]) - prev_c s), bias s, handled s, outp s) = (dl, bi, h, out)"
      using Cons.prems(6,10) by (cases c m rule: linorder_cases) (auto simp: Suc_diff_le)
    with Cons.IH [OF small Cons.prems(2) cells, of i s] Cons.prems False show ?thesis by simp
  next
    case True
    let ?q = "count_below m pre"
    let ?d = "delta s + (?q - prev_c s)"
    let ?bi = "rfc_adapt ?d (handled s + 1) (handled s = b)"
    let ?out = "outp s @ map digit_char (varint ?d 36 (bias s))"
    let ?s = "s\<lparr>outp := ?out, delta := 0, bias := ?bi, handled := handled s + 1, prev_c := ?q\<rparr>"
    have dr: "drop i pairs = (m, length pre) # (occs m (length (pre @ [c])) suf @ rest)"
      using Cons.prems(4) True by simp
    note dr' = drop_eq_ConsD [OF dr]
    have "?q \<le> length pre" by (rule count_below_le_length)
    then have d: "?d < 2 ^ 63" using Cons.prems(8) by simp
    have "prefix_sum F t (length pre) 0 = Some ?q"
      using Cons.prems(1-3) by (intro prefix_sum_indicator)
    then have "group_loop p F pairs b m t i s = group_loop p F pairs b m t (i + 1) ?s"
      using dr' d Cons.prems(6,7,9)
      by (subst group_loop.simps) (simp add: Let_def arith_ok push_delta_ok adapt_ok)
    moreover have "fold (rfc_step b m) suf
      (delta ?s + (count_below m (pre @ [c]) - prev_c ?s), bias ?s, handled ?s, outp ?s) = (dl, bi, h, out)"
      using Cons.prems(10) True by simp
    moreover have "bias ?s \<le> 2340" using rfc_adapt_bound [OF d] by simp
    ultimately show ?thesis
      using Cons.IH [OF small Cons.prems(2) cells dr'(3) Cons.prems(5), of ?s] Cons.prems(8,9) True
      by (simp split: if_splits)
  qed
qed

lemma encode_loop_refines:
  assumes "small_input cps" "invar t" "cells t = indicator n cps"
    and "drop i pairs = pairs_ge n cps" "handled s = count_below n cps"
    and "bias s \<le> 2340" "delta s \<le> length cps + 1"
    and "st = (delta s, bias s, handled s, outp s)"
  shows "\<exists>s'. encode_loop p F pairs b n t i s = Some s' \<and> outp s' = rfc_loop b cps n st"
  using assms
proof (induction b cps n st arbitrary: t i s rule: rfc_loop.induct)
  case (1 b cps n st)
  show ?case
  proof (cases "filter (\<lambda>c. n \<le> c) cps")
    case Nil
    then have "\<not> i < length pairs"
      using "1.prems"(4) pairs_ge_Nil_iff [of n cps] by simp
    then have "encode_loop p F pairs b n t i s = Some s"
      by (subst encode_loop.simps) (rule if_not_P)
    with Nil "1.prems"(8) show ?thesis by (subst rfc_loop.simps) simp
  next
    case (Cons c cs)
    let ?m = "fold min cs c"
    have "?m \<in> set (filter (\<lambda>c. n \<le> c) cps)" using Cons by (metis fold_min_mem)
    then have m: "n \<le> ?m" "?m \<in> set cps" by auto
    have "x \<in> set (c # cs)" if "x \<in> set cps" "n \<le> x" for x
      using that by (simp flip: Cons)
    then have min: "\<forall>c \<in> set cps. n \<le> c \<longrightarrow> ?m \<le> c"
      by (blast intro: fold_min_le)
    let ?O = "occs ?m 0 cps"
    have dr: "drop i pairs = ?O @ pairs_ge (?m + 1) cps"
      using "1.prems"(4) pairs_ge_split [OF m(1) min] by simp
    have O: "?O \<noteq> []"
      using m(2) mem_occs [of ?m _ ?m 0 cps] by (fastforce simp: in_set_conv_nth)
    have i: "i < length pairs" "fst (pairs ! i) = ?m"
    proof -
      obtain y ys where y: "?O = y # ys" using O by (cases ?O) auto
      then have "y \<in> set ?O" by simp
      then have "fst y = ?m" by (metis mem_occs prod.collapse)
      with drop_eq_ConsD [of i pairs y] dr y show "i < length pairs" "fst (pairs ! i) = ?m"
        by simp_all
    qed
    have h: "handled s = count_below ?m cps" "handled s \<le> length cps"
      using "1.prems"(5) count_below_cong [OF m(1) min] count_below_le_length [of n cps] by simp_all
    have len: "length cps < 2 ^ 42" "?m \<le> 1114111"
      using "1.prems"(1) m(2) by (auto dest: small_input_simps)
    have "(?m - n) * (handled s + 1) \<le> 1114111 * 2 ^ 42"
      using len h(2) by (intro mult_le_mono) auto
    moreover define d where "d = delta s + (?m - n) * (handled s + 1)"
    ultimately have skip: "(?m - n) * (handled s + 1) < 2 ^ 64" and d: "d + length cps < 2 ^ 63"
      using len "1.prems"(7) by simp_all
    let ?s = "s\<lparr>delta := d, prev_c := 0\<rparr>"
    obtain dl bi h' out where pass:
      "fold (rfc_step b ?m) cps (d, bias s, handled s, outp s) = (dl, bi, h', out)"
      by (metis prod_cases4)
    have "\<exists>D P. group_loop p F pairs b ?m t i ?s =
        Some (i + length ?O, ?s\<lparr>outp := out, delta := D, bias := bi, handled := h', prev_c := P\<rparr>) \<and>
      dl = D + (count_below ?m cps - P) \<and> P \<le> count_below ?m cps \<and> bi \<le> 2340 \<and>
      h' = handled s + length ?O \<and> D = (if ?O = [] then d else 0)"
      using group_loop_refines [of "[]" cps t ?m i pairs "pairs_ge (?m + 1) cps" ?s b dl bi h' out p]
        "1.prems"(1,2,3,6) indicator_cong [OF m(1) min] dr d h len pass
      by (auto simp: set_pairs_ge)
    then obtain P where g: "group_loop p F pairs b ?m t i ?s =
        Some (i + length ?O, ?s\<lparr>outp := out, delta := 0, bias := bi, handled := h', prev_c := P\<rparr>)"
      "dl = count_below ?m cps - P" "P \<le> count_below ?m cps" "bi \<le> 2340"
      "h' = handled s + length ?O"
      using O by auto
    have tk: "take (length ?O) (drop i pairs) = ?O" using dr by simp
    obtain t' where t': "place_group F t ?O = Some t'" "invar t'"
      "cells t' = indicator (?m + 1) cps"
      using place_occs [of t ?m "[]" cps] "1.prems"(1,2,3) indicator_cong [OF m(1) min] by auto
    let ?s' = "s\<lparr>outp := out, bias := bi, handled := h', prev_c := P, delta := dl + 1\<rparr>"
    have "encode_loop p F pairs b n t i s =
        encode_loop p F pairs b (?m + 1) t' (i + length ?O) ?s'"
    proof -
      have ar: "sub64 p ?m n = Some (?m - n)" "add64 p (handled s) 1 = Some (handled s + 1)"
        "mul64 p (?m - n) (handled s + 1) = Some ((?m - n) * (handled s + 1))"
        "add64 p (delta s) ((?m - n) * (handled s + 1)) = Some d"
        "sub64 p (handled s) P = Some dl" "add64 p dl 1 = Some (dl + 1)"
        "add64 p ?m 1 = Some (?m + 1)"
        using m(1) h len skip d g(2,3) count_below_le_length [of ?m cps]
        by (simp_all add: arith_ok d_def)
      show ?thesis
        by (subst encode_loop.simps)
          (simp add: i Let_def ar [simplified] g(1) [simplified] tk t'(1))
    qed
    moreover have "\<exists>s'. encode_loop p F pairs b (?m + 1) t' (i + length ?O) ?s' = Some s' \<and>
        outp s' = rfc_loop b cps (?m + 1) (dl + 1, bi, h', out)"
    proof (rule "1.IH" [OF Cons "1.prems"(8) [symmetric] refl refl refl
          pass [unfolded d_def, symmetric] refl refl])
      show "drop (i + length ?O) pairs = pairs_ge (?m + 1) cps"
        using dr by (metis append_eq_conv_conj drop_drop add.commute)
      show "handled ?s' = count_below (?m + 1) cps"
        using g(5) h(1) length_occs [of ?m 0 cps] by simp
      show "delta ?s' \<le> length cps + 1"
        using g(2) count_below_le_length [of ?m cps] by simp
    qed (use "1.prems" t' g in simp_all)
    ultimately show ?thesis
      using Cons pass "1.prems"(8) unfolding d_def by (subst rfc_loop.simps) (simp add: Let_def)
  qed
qed

lemma encode_refines:
  assumes "small_input cps"
  shows "encode p F cps = Some (rfc_encode cps)"
proof -
  let ?b = "length (basic_part cps)"
  let ?out = "map char_of (basic_part cps) @ (if ?b > 0 then ''-'' else [])"
  have b: "?b = count_below 128 cps" by (simp add: basic_part_def count_below_def)
  have emit: "emit_basic p cps [] 0 = Some (map char_of (basic_part cps), ?b)"
    using emit_basic_ok [of 0 cps p "[]"] small_input_simps(1) [OF assms] by simp
  have ind: "map (\<lambda>c. if c < 128 then 1 else 0) cps = indicator 128 cps"
    by (simp add: indicator_def)
  obtain t where t: "from_iter F (indicator 128 cps) = Some t" "invar t" "cells t = indicator 128 cps"
    using from_iter_law [of "indicator 128 cps"] count_below_small [OF assms, of 128] by auto
  let ?s = "\<lparr>outp = ?out, delta = 0, bias = 72, handled = ?b, prev_c = 0\<rparr>"
  obtain s' where s': "encode_loop p F (pairs_ge 128 cps) ?b 128 t 0 ?s = Some s'"
    "outp s' = rfc_loop ?b cps 128 (0, 72, ?b, ?out)"
    using encode_loop_refines [OF assms t(2,3), of 0 "pairs_ge 128 cps" ?s _ p ?b] b by auto
  show ?thesis
  proof (cases "pairs_ge 128 cps = []")
    case True
    then have "rfc_encode cps = ?out"
      by (subst rfc_encode_def) (simp add: pairs_ge_Nil_iff Let_def rfc_loop.simps)
    with True show ?thesis by (simp add: encode_def emit nonbasic_pairs_eq)
  next
    case False
    with s' t(1) show ?thesis
      by (cases "basic_part cps = []")
        (simp_all add: encode_def emit nonbasic_pairs_eq ind rfc_encode_def Let_def puny_consts)
  qed
qed

end

end
