(* ===== verification/Bootstring_Inverse.thy ===== *)
theory Bootstring_Inverse
  imports Bootstring
begin

section \<open>The encoder inverts the decoder\<close>

text \<open>
  A string is canonical when it has the form the encoder writes: ASCII characters and a delimiter if
  there are any, then lower case digits. Different canonical strings decode differently, because the
  decoder inserts code points in ascending order, equal ones from left to right, and an integer has one
  representation. So the encoder gives back every canonical string that decodes.
\<close>

definition canonical :: "string \<Rightarrow> bool" where
  "canonical s \<longleftrightarrow>
     (case last_delim s of
        None \<Rightarrow> digit_string s
      | Some (bs, rest) \<Rightarrow> bs \<noteq> [] \<and> digit_string rest)"

subsection \<open>Integers\<close>

lemma varint_cons:
  assumes "d < 36" and "\<not> d < rfc_threshold k b"
  shows "varint (d + q * (36 - rfc_threshold k b)) k b = d # varint q (k + 36) b"
proof -
  let ?t = "rfc_threshold k b"
  let ?q = "d + q * (36 - ?t)"
  have "?q - ?t = q * (36 - ?t) + (d - ?t)" using assms(2) by simp
  moreover have "d - ?t < 36 - ?t" using assms by linarith
  ultimately have "(?q - ?t) div (36 - ?t) = q" "(?q - ?t) mod (36 - ?t) = d - ?t"
    using div_mod_unique_nat [of "d - ?t" "36 - ?t" q] by simp_all
  then show ?thesis using assms(2) by (subst varint.simps) (simp add: Let_def)
qed

lemma decode_varint_inverse:
  assumes "decode_varint s k b w i = Some (j, r)" and "digit_string s"
  shows "\<exists>q. j = i + q * w \<and> s = map digit_char (varint q k b) @ r"
  using assms
proof (induction s k b w i rule: decode_varint.induct)
  case (2 c cs k b w i)
  let ?t = "rfc_threshold k b"
  obtain d where d: "d < 36" "c = digit_char d" using "2.prems"(2) by (auto simp: digit_string_def)
  have cs: "digit_string cs" using "2.prems"(2) by (simp add: digit_string_def)
  show ?case
  proof (cases "d < ?t")
    case True
    then have "varint d k b = [d]" by (subst varint.simps) simp
    then show ?thesis using "2.prems"(1) d True by (intro exI [of _ d]) (simp add: Let_def)
  next
    case False
    then have "decode_varint cs (k + 36) b (w * (36 - ?t)) (i + d * w) = Some (j, r)"
      using "2.prems"(1) d by (simp add: Let_def)
    then obtain q where q: "j = i + d * w + q * (w * (36 - ?t))" "cs = map digit_char (varint q (k + 36) b) @ r"
      using "2.IH" [of d ?t "i + d * w"] d False cs by auto
    then show ?thesis
      using d varint_cons [OF d(1) False, of q]
      by (intro exI [of _ "d + q * (36 - ?t)"]) (simp add: algebra_simps)
  qed
qed simp

subsection \<open>What the result says of the state\<close>

text \<open>All code points so far are at most \<open>n\<close>, and those from the position \<open>i\<close> on are smaller.\<close>

definition inserted_up_to :: "nat \<Rightarrow> nat \<Rightarrow> nat list \<Rightarrow> bool" where
  "inserted_up_to n i out \<longleftrightarrow>
     (\<forall>c \<in> set out. c \<le> n) \<and> i \<le> length out \<and> (\<forall>c \<in> set (drop i out). c < n)"

text \<open>One insertion, at the position \<open>j\<close> of the value \<open>m\<close>.\<close>

definition next_insert :: "nat \<Rightarrow> nat \<Rightarrow> nat list \<Rightarrow> nat \<Rightarrow> nat \<Rightarrow> bool" where
  "next_insert n i out m j \<longleftrightarrow> j \<le> length out \<and> (n < m \<or> n = m \<and> i \<le> j)"

lemma insert_at_simps [simp]:
  "length (insert_at j x xs) = Suc (length xs)" "set (insert_at j x xs) = insert x (set xs)"
  "j \<le> length xs \<Longrightarrow> take (Suc j) (insert_at j x xs) = take j xs @ [x]"
  "\<not> P x \<Longrightarrow> filter P (insert_at j x xs) = filter P xs"
proof -
  show "set (insert_at j x xs) = insert x (set xs)"
    by (simp add: insert_at_def) (metis Un_insert_right append_take_drop_id set_append)
  show "\<not> P x \<Longrightarrow> filter P (insert_at j x xs) = filter P xs"
    by (simp add: insert_at_def) (metis append_take_drop_id filter_append)
qed (simp_all add: insert_at_def min_def)

lemma next_insert_keeps:
  assumes "inserted_up_to n i out" and "next_insert n i out m j"
  shows "inserted_up_to m (j + 1) (insert_at j m out)"
proof -
  have "n \<le> m" using assms(2) by (auto simp: next_insert_def)
  moreover have "c < m" if "c \<in> set (drop j out)" for c
    using that in_set_dropD [OF that] assms set_drop_subset_set_drop [of i j out]
    by (fastforce simp: inserted_up_to_def next_insert_def)
  moreover have "drop (j + 1) (insert_at j m out) = drop j out"
    using assms(2) by (simp add: insert_at_def next_insert_def)
  ultimately show ?thesis using assms by (auto simp: inserted_up_to_def next_insert_def)
qed

lemma next_insert_new:
  assumes "inserted_up_to n i out" and "next_insert n i out m j" and "j < length out"
  shows "out ! j < m"
proof -
  have "out ! j \<in> set (drop i out)" if "i \<le> j"
    using nth_mem [of "j - i" "drop i out"] that assms(3) by simp
  then show ?thesis
    using assms(1,2) nth_mem [OF assms(3)] unfolding inserted_up_to_def next_insert_def
    by (metis le_less_trans)
qed

text \<open>A step of the decoder on digits.\<close>

lemma decode_loop_step:
  assumes "decode_loop n i bias out s = Some cps" and "digit_string s" and "s \<noteq> []" and "i \<le> length out"
  obtains m j D r where "s = map digit_char (varint D 36 bias) @ r" "digit_string r"
    "next_insert n i out m j" "n * (length out + 1) + i + D = m * (length out + 1) + j"
    "decode_loop m (j + 1) (rfc_adapt D (length out + 1) (i = 0)) (insert_at j m out) r = Some cps"
proof -
  obtain i' r where v: "decode_varint s 36 bias 1 i = Some (i', r)"
    using assms(1,3) by (subst (asm) decode_loop.simps) (auto split: option.splits)
  obtain D where D: "i' = i + D" "s = map digit_char (varint D 36 bias) @ r"
    using decode_varint_inverse [OF v assms(2)] by auto
  let ?l = "length out + 1"
  have e: "i' = i' div ?l * ?l + i' mod ?l" by (simp only: div_mult_mod_eq)
  have "i' mod ?l \<le> length out" using mod_less_divisor [of ?l i'] by simp
  moreover have "i \<le> i' mod ?l" if "i' div ?l = 0" using e D(1) that by simp
  ultimately have "next_insert n i out (n + i' div ?l) (i' mod ?l)"
    unfolding next_insert_def by (metis add.right_neutral less_add_same_cancel1 neq0_conv)
  moreover have "n * ?l + i + D = (n + i' div ?l) * ?l + i' mod ?l"
    using e D(1) by (simp add: algebra_simps)
  moreover have "decode_loop (n + i' div ?l) (i' mod ?l + 1) (rfc_adapt D ?l (i = 0))
      (insert_at (i' mod ?l) (n + i' div ?l) out) r = Some cps"
    using assms(1,3) v D(1) by (subst (asm) decode_loop.simps) (simp add: Let_def)
  ultimately show ?thesis
    using that [OF D(2)] D(2) assms(2) by simp
qed

lemma decode_loop_result:
  assumes "decode_loop n i bias out s = Some cps" and "digit_string s" and "inserted_up_to n i out"
  shows "filter (\<lambda>c. c < n) cps = filter (\<lambda>c. c < n) out \<and>
    take i (filter (\<lambda>c. c \<le> n) cps) = take i out"
  using assms
proof (induction "length s" arbitrary: n i bias out s rule: less_induct)
  case less
  show ?case
  proof (cases "s = []")
    case True
    then have "cps = out" using less.prems(1) by (simp add: decode_loop.simps)
    moreover have "filter (\<lambda>c. c \<le> n) out = out"
      using less.prems(3) by (intro filter_True) (auto simp: inserted_up_to_def)
    ultimately show ?thesis by simp
  next
    case False
    have "i \<le> length out" using less.prems(3) by (simp add: inserted_up_to_def)
    then obtain m j D r where r: "s = map digit_char (varint D 36 bias) @ r" "digit_string r"
      "next_insert n i out m j"
      "decode_loop m (j + 1) (rfc_adapt D (length out + 1) (i = 0)) (insert_at j m out) r = Some cps"
      by (rule decode_loop_step [OF less.prems(1,2) False])
    have IH: "filter (\<lambda>c. c < m) cps = filter (\<lambda>c. c < m) out"
      "take (j + 1) (filter (\<lambda>c. c \<le> m) cps) = take j out @ [m]"
      using less.hyps [OF _ r(4,2) next_insert_keeps [OF less.prems(3) r(3)]] r(1,3)
      by (simp_all add: next_insert_def)
    have nm: "n \<le> m" using r(3) by (auto simp: next_insert_def)
    have below: "filter P cps = filter P out" if "\<And>c. P c \<Longrightarrow> c < m" for P
    proof -
      have "filter P xs = filter P (filter (\<lambda>c. c < m) xs)" for xs
        unfolding filter_filter by (intro filter_cong refl) (use that in blast)
      from this [of cps] this [of out] show ?thesis by (simp only: IH(1))
    qed
    have "take i (filter (\<lambda>c. c \<le> n) cps) = take i out"
    proof (cases "n = m")
      case True
      then have ij: "i \<le> j" "j \<le> length out" using r(3) by (auto simp: next_insert_def)
      then have "take i (filter (\<lambda>c. c \<le> n) cps) = take i (take (j + 1) (filter (\<lambda>c. c \<le> m) cps))"
        using True by (simp add: min_def)
      also have "\<dots> = take i out" unfolding IH(2) using ij by simp
      finally show ?thesis .
    next
      case False
      then have "filter (\<lambda>c. c \<le> n) cps = filter (\<lambda>c. c \<le> n) out" using nm by (intro below) simp
      also have "\<dots> = out" using less.prems(3) by (intro filter_True) (auto simp: inserted_up_to_def)
      finally show ?thesis by simp
    qed
    then show ?thesis using below [of "\<lambda>c. c < n"] nm by simp
  qed
qed

subsection \<open>Canonical strings decode differently\<close>

text \<open>The first insertion can be read off the result.\<close>

lemma first_insert:
  assumes "inserted_up_to n i out" and "next_insert n i out m j"
    and "decode_loop m (j + 1) bias (insert_at j m out) r = Some cps" and "digit_string r"
  shows "take (j + 1) (filter (\<lambda>c. c \<le> m) cps) = take j out @ [m]"
    and "m < v \<Longrightarrow> filter (\<lambda>c. c < v) out = out \<and> n < v"
proof -
  show "take (j + 1) (filter (\<lambda>c. c \<le> m) cps) = take j out @ [m]"
    using decode_loop_result [OF assms(3,4) next_insert_keeps [OF assms(1,2)]] assms(2)
    by (simp add: next_insert_def)
  assume "m < v"
  then have "n < v" using assms(2) by (auto simp: next_insert_def)
  then show "filter (\<lambda>c. c < v) out = out \<and> n < v"
    using assms(1) by (intro conjI filter_True) (auto simp: inserted_up_to_def)
qed

lemma not_copied:
  assumes "inserted_up_to n i out" and "next_insert n i out m j"
  shows "take (j + 1) out \<noteq> take j out @ [m]"
proof
  assume t: "take (j + 1) out = take j out @ [m]"
  have j: "j < length out" using arg_cong [OF t, of length] by (cases "j < length out") simp_all
  then have "out ! j = m" using t by (simp add: take_Suc_conv_app_nth)
  then show False using next_insert_new [OF assms j] by simp
qed

lemma first_insert_unique:
  assumes "inserted_up_to n i out"
    and "next_insert n i out m j" and "decode_loop m (j + 1) bias (insert_at j m out) r = Some cps"
    and "digit_string r"
    and "next_insert n i out m' j'" and "decode_loop m' (j' + 1) bias' (insert_at j' m' out) r' = Some cps"
    and "digit_string r'"
  shows "\<not> m < m'" and "m = m' \<Longrightarrow> \<not> j < j'"
proof -
  note A = first_insert [OF assms(1-4)] and B = first_insert [OF assms(1,5-7)]
  show "\<not> m < m'"
  proof
    assume m: "m < m'"
    have "filter (\<lambda>c. c < m') cps = filter (\<lambda>c. c < m') (insert_at j' m' out)"
      using decode_loop_result [OF assms(6,7) next_insert_keeps [OF assms(1,5)]] by blast
    then have "filter (\<lambda>c. c < m') cps = out" using A(2) [OF m] by simp
    moreover have "filter (\<lambda>c. c \<le> m) cps = filter (\<lambda>c. c \<le> m) (filter (\<lambda>c. c < m') cps)"
      unfolding filter_filter by (intro filter_cong refl) (use m in auto)
    moreover have "filter (\<lambda>c. c \<le> m) out = out"
      using assms(1,2) by (intro filter_True) (fastforce simp: inserted_up_to_def next_insert_def)
    ultimately show False using A(1) not_copied [OF assms(1,2)] by simp
  qed
  show "\<not> j < j'" if m: "m = m'"
  proof
    assume j: "j < j'"
    have "take (j + 1) (take (j' + 1) (filter (\<lambda>c. c \<le> m) cps)) = take (j + 1) (filter (\<lambda>c. c \<le> m) cps)"
      using j by (simp add: min_def)
    then have "take (j + 1) (take j' out @ [m']) = take j out @ [m]" using A(1) B(1) by (simp only: m)
    moreover have "take (j + 1) (take j' out @ [m']) = take (j + 1) out"
      using j assms(5) by (simp add: next_insert_def min_def)
    ultimately show False using not_copied [OF assms(1,2)] by simp
  qed
qed

lemma not_already_there:
  assumes "inserted_up_to n i out" and "next_insert n i out m j"
  shows "decode_loop m (j + 1) bias (insert_at j m out) r = Some out \<Longrightarrow> digit_string r \<Longrightarrow> False"
proof -
  assume d: "decode_loop m (j + 1) bias (insert_at j m out) r = Some out" "digit_string r"
  have "filter (\<lambda>c. c \<le> m) out = out"
    using assms by (intro filter_True) (fastforce simp: inserted_up_to_def next_insert_def)
  then show False using first_insert(1) [OF assms d] not_copied [OF assms] by simp
qed

lemma decode_loop_injective:
  assumes "decode_loop n i bias out s = Some cps" and "decode_loop n i bias out s' = Some cps"
    and "digit_string s" and "digit_string s'" and "inserted_up_to n i out"
  shows "s = s'"
  using assms
proof (induction "length s" arbitrary: n i bias out s s' rule: less_induct)
  case less
  have io: "i \<le> length out" using less.prems(5) by (simp add: inserted_up_to_def)
  have nil: "t = []" if t: "decode_loop n i bias out t = Some out" "digit_string t" for t
  proof (rule ccontr)
    assume "t \<noteq> []"
    then obtain m j D r where "digit_string r" "next_insert n i out m j"
      "decode_loop m (j + 1) (rfc_adapt D (length out + 1) (i = 0)) (insert_at j m out) r = Some out"
      by (rule decode_loop_step [OF t _ io])
    then show False using not_already_there [OF less.prems(5)] by blast
  qed
  show ?case
  proof (cases "s = [] \<or> s' = []")
    case True
    then have "cps = out" using less.prems(1,2) by (auto simp: decode_loop.simps)
    then show ?thesis using nil less.prems(1-4) by metis
  next
    case False
    then have s: "s \<noteq> []" "s' \<noteq> []" by auto
    obtain m j D r where A: "s = map digit_char (varint D 36 bias) @ r" "digit_string r"
      "next_insert n i out m j" "n * (length out + 1) + i + D = m * (length out + 1) + j"
      "decode_loop m (j + 1) (rfc_adapt D (length out + 1) (i = 0)) (insert_at j m out) r = Some cps"
      by (rule decode_loop_step [OF less.prems(1,3) s(1) io])
    obtain m' j' D' r' where B: "s' = map digit_char (varint D' 36 bias) @ r'" "digit_string r'"
      "next_insert n i out m' j'" "n * (length out + 1) + i + D' = m' * (length out + 1) + j'"
      "decode_loop m' (j' + 1) (rfc_adapt D' (length out + 1) (i = 0)) (insert_at j' m' out) r' = Some cps"
      by (rule decode_loop_step [OF less.prems(2,4) s(2) io])
    note U = first_insert_unique [OF less.prems(5) A(3,5,2) B(3,5,2)]
      first_insert_unique [OF less.prems(5) B(3,5,2) A(3,5,2)]
    have m: "m = m'" using U(1,3) by simp
    have j: "j = j'" using U(2,4) m by simp
    have D: "D = D'" using A(4) B(4) m j by simp
    have "r = r'"
      by (rule less.hyps [OF _ A(5) _ A(2) B(2) next_insert_keeps [OF less.prems(5) A(3)]])
        (use A(1) B(5) m j D in simp_all)
    then show ?thesis using A(1) B(1) D by simp
  qed
qed

subsection \<open>The inverse\<close>

lemma last_delim_cases:
  assumes "last_delim s = Some (bs, rest)"
  shows "s = bs @ CHR ''-'' # rest"
proof -
  let ?r = "rev s" and ?P = "\<lambda>c. c \<noteq> CHR ''-''"
  have m: "CHR ''-'' \<in> set s" "bs = rev (tl (dropWhile ?P ?r))" "rest = rev (takeWhile ?P ?r)"
    using assms by (auto simp: last_delim_def split: if_splits)
  then have n: "dropWhile ?P ?r \<noteq> []" by auto
  then have "hd (dropWhile ?P ?r) = CHR ''-''" using hd_dropWhile by blast
  then have "dropWhile ?P ?r = CHR ''-'' # rev bs" using n m(2) by (metis list.collapse rev_rev_ident)
  then have "?r = rev rest @ CHR ''-'' # rev bs" using m(3) by (metis rev_rev_ident takeWhile_dropWhile_id)
  then show ?thesis by (metis append.assoc append_Cons append_Nil rev.simps(2) rev_append rev_rev_ident)
qed

lemma rfc_encode_canonical: "canonical (rfc_encode cps)"
proof -
  let ?bs = "basic_part cps"
  obtain tail where t: "rfc_encode cps = map char_of ?bs @ (if ?bs = [] then [] else ''-'') @ tail"
    "digit_string tail"
    by (rule rfc_encode_tail)
  note n = digit_string_no_delim [OF t(2)]
  show ?thesis
  proof (cases "?bs = []")
    case True
    then show ?thesis using t n by (simp add: canonical_def last_delim_def)
  next
    case False
    then show ?thesis using t n by (simp add: canonical_def last_delim_append)
  qed
qed

lemma inserted_start: "\<forall>c \<in> set out. c < n \<Longrightarrow> inserted_up_to n 0 out"
  by (auto simp: inserted_up_to_def)

lemma decoded_tail:
  assumes "decode_loop 128 0 72 bs s = Some cps" and "digit_string s" and "\<forall>c \<in> set bs. c < 128"
  shows "basic_part cps = bs"
    and "rfc_encode cps = map char_of bs @ (if bs = [] then [] else ''-'') @ s"
proof -
  have "filter (\<lambda>c. c < 128) bs = bs" using assms(3) by (intro filter_True) simp
  then show b: "basic_part cps = bs"
    using decode_loop_result [OF assms(1,2) inserted_start [OF assms(3)]] by (simp add: basic_part_def)
  obtain tail where t: "digit_string tail" "decode_loop 128 0 72 bs tail = Some cps"
    "rfc_encode cps = map char_of bs @ (if bs = [] then [] else ''-'') @ tail"
    by (rule rfc_encode_tail [of cps, unfolded b])
  then show "rfc_encode cps = map char_of bs @ (if bs = [] then [] else ''-'') @ s"
    using decode_loop_injective [OF t(2) assms(1) t(1) assms(2) inserted_start [OF assms(3)]] by simp
qed

theorem rfc_encode_inverse: "rfc_encode cps = s \<longleftrightarrow> canonical s \<and> rfc_decode s = Some cps"
proof
  assume "rfc_encode cps = s"
  then show "canonical s \<and> rfc_decode s = Some cps" using rfc_encode_canonical rfc_roundtrip by blast
next
  assume a: "canonical s \<and> rfc_decode s = Some cps"
  show "rfc_encode cps = s"
  proof (cases "last_delim s")
    case None
    then show ?thesis using a decoded_tail(2) [of "[]" s cps] by (simp add: canonical_def rfc_decode_def)
  next
    case (Some p)
    obtain bs rest where p: "p = (bs, rest)" by (cases p)
    note s = last_delim_cases [OF Some [unfolded p]]
    have d: "bs \<noteq> []" "digit_string rest" "\<forall>c \<in> set (map of_char bs). c < (128 :: nat)"
      "decode_loop 128 0 72 (map of_char bs) rest = Some cps"
      using a Some p by (auto simp: canonical_def rfc_decode_def split: if_splits)
    have "map char_of (map of_char bs :: nat list) = bs" by (induction bs) auto
    then show ?thesis using decoded_tail(2) [OF d(4,2,3)] d(1) s by simp
  qed
qed

end
