(* ===== verification/Punycode_Theorems.thy ===== *)
theory Punycode_Theorems
  imports Punycode_Correct Bootstring_Inverse
begin

section \<open>What the Punycode encoder guarantees\<close>

text \<open>
  The properties of \<open>crates/punyenc\<close>, for every tree that satisfies the interface of
  \<open>Fenwick\<close> and every input below \<open>2 ^ 42\<close> code points (the bound under which no
  \<open>u64\<close> of the source can overflow: the skip term is at most \<open>1114111 * 2 ^ 42\<close>).
  Each witness runs the theorem on the binary indexed tree of \<open>Fenwick\<close>.
\<close>

lemmas encode_eval = encode_def encode_loop.simps group_loop.simps push_delta_def
  push_delta_loop.simps adapt_def adapt_loop.simps threshold_def nonbasic_pairs_def bit_tree_def
  bit_build_def bit_add.simps bit_sum.simps clr.simps up.simps uint_add_def uint_sub_def
  uint_mul_def uint_div_def uint_rem_def checked_def puny_consts digit_to_char_def Let_def
  char_of_def bit_Suc_0_iff

lemma small_example: "small_input [98, 252, 99, 104, 101, 114]" "small_input [252]"
  by (simp_all add: small_input_def)

text \<open>The example of the crate's documentation.\<close>

lemma readme_bucher: "encode Debug bit_tree [98, 252, 99, 104, 101, 114] = Some ''bcher-kva''"
  by (simp add: encode_eval)

subsection \<open>The whole encoder\<close>

text \<open>C2. The optimised encoder (sorted pairs, prefix counts) computes exactly the output of the
  quadratic encoder of RFC 3492 section 6.3, in both build profiles: it never panics and no
  arithmetic wraps.\<close>

theorem encode_is_rfc3492:
  assumes "prefix_counter F invar cells" and "small_input cps"
  shows "encode p F cps = Some (rfc_encode cps)"
  using assms by (rule prefix_counter.encode_refines)

theorem encode_is_rfc3492_witness:
  "encode Debug bit_tree [98, 252, 99, 104, 101, 114] =
     Some (rfc_encode [98, 252, 99, 104, 101, 114])"
  by (rule encode_is_rfc3492 [OF bit_tree.prefix_counter_axioms small_example(1)])

text \<open>C5. Decoding the output with the decoder of RFC 3492 section 6.2 gives the input back.\<close>

theorem encode_roundtrip:
  assumes "prefix_counter F invar cells" and "small_input cps"
  shows "\<exists>s. encode p F cps = Some s \<and> rfc_decode s = Some cps"
  using prefix_counter.encode_refines [OF assms] rfc_roundtrip by blast

theorem encode_roundtrip_witness:
  "\<exists>s. encode Debug bit_tree [98, 252, 99, 104, 101, 114] = Some s \<and>
     rfc_decode s = Some [98, 252, 99, 104, 101, 114]"
  by (rule encode_roundtrip [OF bit_tree.prefix_counter_axioms small_example(1)])

text \<open>C26. The encoder is the inverse of the decoder: it gives the string \<open>s\<close> for an input exactly if \<open>s\<close>
  is canonical (ASCII characters and a delimiter if there are any, then digits \<open>a-z\<close>, \<open>0-9\<close>) and decodes
  to that input. So no other canonical string decodes to it.\<close>

theorem encode_iff_decodes:
  assumes "prefix_counter F invar cells" and "small_input cps"
  shows "encode p F cps = Some s \<longleftrightarrow> canonical s \<and> rfc_decode s = Some cps"
  using prefix_counter.encode_refines [OF assms, of p] rfc_encode_inverse [of cps s] by simp

theorem encode_iff_decodes_witness:
  "canonical ''bcher-kva'' \<and> rfc_decode ''bcher-kva'' = Some [98, 252, 99, 104, 101, 114]"
  using encode_iff_decodes [OF bit_tree.prefix_counter_axioms small_example(1), of Debug "''bcher-kva''"]
    readme_bucher by simp

text \<open>C31. Two inputs with the same encoding are equal.\<close>

theorem encode_injective:
  assumes "prefix_counter F invar cells" and "small_input xs" and "small_input ys"
    and "encode p F xs = encode q F ys"
  shows "xs = ys"
proof -
  have "rfc_encode xs = rfc_encode ys"
    using assms(4) prefix_counter.encode_refines [OF assms(1,2)]
      prefix_counter.encode_refines [OF assms(1,3)] by simp
  then show ?thesis by (metis rfc_roundtrip option.inject)
qed

theorem encode_injective_witness:
  "encode Debug bit_tree [252] = encode Release bit_tree [252] \<and> [252 :: nat] = [252]"
proof -
  have e: "encode Debug bit_tree [252] = encode Release bit_tree [252]"
    by (simp add: encode_eval)
  show ?thesis
    using e encode_injective [OF bit_tree.prefix_counter_axioms small_example(2) small_example(2) e]
    by simp
qed

text \<open>C32. The output is the ASCII characters of the input in input order, a delimiter exactly if
  there is one, and a tail of digits \<open>a-z\<close>, \<open>0-9\<close>, empty exactly if the input is ASCII.\<close>

theorem encode_shape:
  assumes "prefix_counter F invar cells" and "small_input cps"
  shows "\<exists>tail. encode p F cps =
      Some (map char_of (filter (\<lambda>c. c < 128) cps) @
        (if \<exists>c \<in> set cps. c < 128 then ''-'' else []) @ tail) \<and>
    (\<forall>c \<in> set tail. of_char c \<in> {48..57::nat} \<union> {97..122}) \<and>
    (tail = [] \<longleftrightarrow> (\<forall>c \<in> set cps. c < 128))"
proof -
  let ?bs = "basic_part cps"
  obtain tail where t: "rfc_encode cps = map char_of ?bs @ (if ?bs = [] then [] else ''-'') @ tail"
    "digit_string tail" "decode_loop 128 0 72 ?bs tail = Some cps"
    "rfc_loop (length ?bs) cps 128 (0, 72, length ?bs,
       map char_of ?bs @ (if ?bs = [] then [] else ''-'')) =
     map char_of ?bs @ (if ?bs = [] then [] else ''-'') @ tail"
    by (rule rfc_encode_tail)
  have "encode p F cps = Some (map char_of ?bs @ (if ?bs = [] then [] else ''-'') @ tail)"
    using prefix_counter.encode_refines [OF assms] t(1) by simp
  moreover have "?bs = [] \<longleftrightarrow> \<not> (\<exists>c \<in> set cps. c < 128)"
    by (auto simp: basic_part_def filter_empty_conv)
  moreover have "\<forall>c \<in> set tail. of_char c \<in> {48..57::nat} \<union> {97..122}"
    using t(2) unfolding digit_string_def by (metis digit_char_range)
  moreover have "tail = [] \<longleftrightarrow> (\<forall>c \<in> set cps. c < 128)"
  proof
    assume "tail = []"
    with t(3) have "?bs = cps" by (simp add: decode_loop.simps)
    then show "\<forall>c \<in> set cps. c < 128" unfolding basic_part_def by (metis filter_id_conv)
  next
    assume "\<forall>c \<in> set cps. c < 128"
    then have "filter (\<lambda>c. 128 \<le> c) cps = []" by (auto simp: filter_empty_conv)
    with t(4) show "tail = []" by (subst (asm) rfc_loop.simps) simp
  qed
  ultimately show ?thesis by (intro exI [of _ tail]) (simp add: basic_part_def)
qed

theorem encode_shape_witness:
  "\<exists>tail. encode Debug bit_tree [98, 252, 99, 104, 101, 114] = Some (''bcher-'' @ tail) \<and> tail \<noteq> []"
  using encode_shape [OF bit_tree.prefix_counter_axioms small_example(1), of Debug]
  by (auto simp: char_of_def bit_Suc_0_iff)

text \<open>An ASCII input is copied, followed by the delimiter unless it is empty, whatever the
  tree does: the tree is not even built.\<close>

theorem encode_ascii:
  assumes "length cps < 2 ^ 64" and "\<forall>c \<in> set cps. c < 128"
  shows "encode p F cps = Some (map char_of cps @ (if cps = [] then [] else ''-''))"
proof -
  have "basic_part cps = cps" using assms(2) unfolding basic_part_def by (metis filter_id_conv)
  then have "emit_basic p cps [] 0 = Some (map char_of cps, length cps)"
    using emit_basic_ok [of 0 cps p "[]"] assms(1) by simp
  moreover have "nonbasic_pairs cps = []"
    using assms(2) by (auto simp: nonbasic_pairs_eq pairs_ge_Nil_iff filter_empty_conv)
  ultimately show ?thesis by (simp add: encode_def)
qed

theorem encode_ascii_witness: "encode Release bit_tree [104, 105] = Some ''hi-''"
  using encode_ascii [of "[104, 105]" Release bit_tree] by (simp add: char_of_def bit_Suc_0_iff)

subsection \<open>The steps of the encoder\<close>

text \<open>C33. What \<open>push_delta\<close> appends is a variable-length integer from which the decoder of
  the RFC reads \<open>delta\<close> back, leaving whatever follows.\<close>

theorem push_delta_decodes:
  assumes "d < 2 ^ 63" and "b \<le> 2340"
  shows "\<exists>s. push_delta p out d b = Some (out @ s) \<and>
    decode_varint (s @ rest) 36 b 1 0 = Some (d, rest)"
  using push_delta_ok [OF assms] decode_varint_varint [of d 36 b rest 1 0] by simp

theorem push_delta_decodes_witness:
  "\<exists>s. push_delta Debug ''bcher-'' 745 72 = Some (''bcher-'' @ s) \<and>
     decode_varint (s @ []) 36 72 1 0 = Some (745, [])"
  by (rule push_delta_decodes) simp_all

end
