(* ===== verification/Lam_Raw.thy ===== *)
theory Lam_Raw
  imports Prelude
begin

section \<open>Raw lock, futex word and queue node (\<open>rawlock.rs\<close>, \<open>futex.rs\<close>, \<open>node.rs\<close>)\<close>

text \<open>
  The memory cells of \<open>lamlock\<close> and the atomic operations on them, one definition per
  method. A thread has at most one queue node at a time, on its own stack, because it is blocked
  in the call that owns the node; a node is therefore addressed by its thread, and the address is
  reused by the thread's next call. The definitions give the values the operations read and
  write; what their memory orderings order is in \<open>Lam_Order\<close>.
\<close>

type_synonym tid = nat

text \<open>The cargo feature \<open>std\<close>: with it, panics are caught and transported.\<close>

datatype feature = Std | NoStd

subsection \<open>The raw lock\<close>

abbreviation UNLOCKED :: nat where "UNLOCKED \<equiv> 0"
abbreviation LOCKED :: nat where "LOCKED \<equiv> 1"
abbreviation RAW_POISONED :: nat where "RAW_POISONED \<equiv> 2"

datatype lock_poisoned = LockPoisoned

record rawlock =
  status :: nat
  tail :: "tid option"

definition raw_new :: rawlock where
  "raw_new = \<lparr>status = 0, tail = None\<rparr>"

definition has_tail :: "rawlock \<Rightarrow> bool" where
  "has_tail r \<longleftrightarrow> tail r \<noteq> None"

definition swap_tail :: "rawlock \<Rightarrow> tid \<Rightarrow> tid option \<times> rawlock" where
  "swap_tail r new_tail = (tail r, r\<lparr>tail := Some new_tail\<rparr>)"

definition try_close :: "rawlock \<Rightarrow> tid \<Rightarrow> bool \<times> rawlock" where
  "try_close r expected =
     (if tail r = Some expected then (True, r\<lparr>tail := None\<rparr>) else (False, r))"

definition try_acquire :: "feature \<Rightarrow> rawlock \<Rightarrow> (lock_poisoned + bool) \<times> rawlock" where
  "try_acquire cfg r =
     (if status r = UNLOCKED then (Inr True, r\<lparr>status := LOCKED\<rparr>)
      else if cfg = NoStd \<and> status r = RAW_POISONED then (Inl LockPoisoned, r)
      else (Inr False, r))"

definition raw_poison :: "rawlock \<Rightarrow> rawlock" where
  "raw_poison r = r\<lparr>status := RAW_POISONED\<rparr>"

definition raw_release :: "rawlock \<Rightarrow> rawlock" where
  "raw_release r = r\<lparr>status := UNLOCKED\<rparr>"

lemmas raw_defs = has_tail_def swap_tail_def try_close_def try_acquire_def raw_poison_def
  raw_release_def

subsection \<open>Tasks and nodes\<close>

text \<open>
  A task is the closure a caller submits: run on the data, it leaves new data and either returns
  or unwinds with a payload (the data may have changed either way).
\<close>

datatype ('r, 'p) outcome = Return 'r | Panic 'p

type_synonym ('d, 'r, 'p) task = "'d \<Rightarrow> 'd \<times> ('r, 'p) outcome"

abbreviation WAITING :: nat where "WAITING \<equiv> 0"
abbreviation DONE :: nat where "DONE \<equiv> 1"
abbreviation HEAD :: nat where "HEAD \<equiv> 2"
abbreviation SLEEPING :: nat where "SLEEPING \<equiv> 3"
abbreviation NODE_POISONED :: nat where "NODE_POISONED \<equiv> 4"

definition SPIN_LIMIT :: nat where "SPIN_LIMIT = 100"

text \<open>
  \<open>CombinedNode\<close>: the queue node (futex word and successor) with the closure slot, the
  \<open>started\<close> flag of the \<open>no_std\<close> build and the result slot. \<open>None\<close> in a slot is
  \<open>MaybeUninit\<close> memory that holds no value.
\<close>

record ('d, 'r, 'p) node =
  futex :: nat
  nxt :: "tid option"
  closure :: "('d, 'r, 'p) task option"
  started :: bool
  result :: "('r, 'p) outcome option"

definition node_new :: "('d, 'r, 'p) task \<Rightarrow> ('d, 'r, 'p) node" where
  "node_new f =
     \<lparr>futex = WAITING, nxt = None, closure = Some f, started = False, result = None\<rparr>"

definition store_next :: "('d, 'r, 'p) node \<Rightarrow> tid \<Rightarrow> ('d, 'r, 'p) node" where
  "store_next nd n = nd\<lparr>nxt := Some n\<rparr>"

definition futex_cas ::
    "('d, 'r, 'p) node \<Rightarrow> nat \<Rightarrow> nat \<Rightarrow> nat \<times> ('d, 'r, 'p) node" where
  "futex_cas nd expected new =
     (futex nd, if futex nd = expected then nd\<lparr>futex := new\<rparr> else nd)"

definition futex_swap :: "('d, 'r, 'p) node \<Rightarrow> nat \<Rightarrow> nat \<times> ('d, 'r, 'p) node" where
  "futex_swap nd new = (futex nd, nd\<lparr>futex := new\<rparr>)"

lemmas node_defs = node_new_def store_next_def futex_cas_def futex_swap_def

end
