(* ===== verification/Lam_System.thy ===== *)
theory Lam_System
  imports Lam_Raw
begin

section \<open>The lock as a transition system (\<open>nonpoison.rs\<close>, \<open>node.rs\<close>, \<open>bomb.rs\<close>)\<close>

text \<open>
  Any number of threads call \<open>try_run\<close> on one lock. A thread's program counter names the
  next access to shared memory in the source, with the locals it needs; one step of a thread is
  that one access. \<open>Fault\<close> is an access to a node whose owner has returned, a read of an
  uninitialised slot, or a failing \<open>debug_assert!\<close>.
\<close>

text \<open>What a call gives back to its caller.\<close>

datatype ('r, 'p) ret = Ok 'r | Err | Unwind 'p

fun ret_of :: "('r, 'p) outcome \<Rightarrow> ('r, 'p) ret" where
  "ret_of (Return r) = Ok r"
| "ret_of (Panic p) = Unwind p"

datatype (dead 'd, dead 'r, dead 'p) pc =
    Idle
  \<comment> \<open>\<open>nonpoison::Lock::try_run\<close> and the unlock guard\<close>
  | TryRun "('d, 'r, 'p) task"
  | TryAcquire "('d, 'r, 'p) task"
  | FastRun "('d, 'r, 'p) task"
  | FastUnlock "('r, 'p) ret"
  | SlowNew "('d, 'r, 'p) task"
  \<comment> \<open>\<open>Node::attach\<close>, joining the queue and waiting\<close>
  | SwapTail
  | StoreNext tid
  | Spin nat
  | WaitCas
  | FutexCheck
  | FutexWait
  | FutexSleep
  | WaitReload
  | Dispatch nat
  | Acquire
  | AcquireSpin
  \<comment> \<open>\<open>Node::attach\<close>, combining; the argument is \<open>cursor\<close>\<close>
  | Execute tid
  | Running tid "('d, 'r, 'p) task"
  | LoadNext tid
  | WakeDone tid tid
  | TryClose tid
  | CloseDone tid
  | Release
  | HandLoad tid
  | HandAssert tid
  | HandHead tid tid
  | HandDone tid
  \<comment> \<open>\<open>Futex::wake\<close>: the system call on a saved address, then the rest\<close>
  | WakeSyscall tid "('d, 'r, 'p) pc"
  \<comment> \<open>\<open>Bomb::drop\<close>: the atom, and the payload when unwinding\<close>
  | BombPoison tid "'p option"
  | BombLoad tid "'p option"
  | BombWake tid tid "'p option"
  | BombClose tid "'p option"
  | BombSpin tid "'p option"
  | BombLast tid "'p option"
  \<comment> \<open>the end of \<open>run_slowly\<close> and of the call\<close>
  | AttachOk
  | AttachErr
  | Unwinding 'p
  | Returning "('r, 'p) ret"

record ('d, 'r, 'p) sys =
  raw :: rawlock
  data :: 'd
  heap :: "tid \<Rightarrow> ('d, 'r, 'p) node option"
  pcs :: "tid \<Rightarrow> ('d, 'r, 'p) pc"

text \<open>What a step does that the outside, or the specification, can see.\<close>

datatype (dead 'd, dead 'r, dead 'p) event =
    Call tid "('d, 'r, 'p) task"
  | Enq tid
  | Exec tid
  | Cancel tid
  | Ret tid "('r, 'p) ret"

datatype (dead 'd, dead 'r, dead 'p) step_result =
    Next "('d, 'r, 'p) sys" "('d, 'r, 'p) event list"
  | Blocked
  | Fault

definition goto :: "tid \<Rightarrow> ('d, 'r, 'p) pc \<Rightarrow> ('d, 'r, 'p) sys \<Rightarrow> ('d, 'r, 'p) sys" where
  "goto t k s = s\<lparr>pcs := (pcs s)(t := k)\<rparr>"

definition put_node ::
    "tid \<Rightarrow> ('d, 'r, 'p) node \<Rightarrow> ('d, 'r, 'p) sys \<Rightarrow> ('d, 'r, 'p) sys" where
  "put_node a nd s = s\<lparr>heap := (heap s)(a := Some nd)\<rparr>"

definition free_node :: "tid \<Rightarrow> ('d, 'r, 'p) sys \<Rightarrow> ('d, 'r, 'p) sys" where
  "free_node a s = s\<lparr>heap := (heap s)(a := None)\<rparr>"

definition access ::
    "('d, 'r, 'p) sys \<Rightarrow> tid \<Rightarrow> (('d, 'r, 'p) node \<Rightarrow> ('d, 'r, 'p) step_result) \<Rightarrow>
     ('d, 'r, 'p) step_result" where
  "access s a k = (case heap s a of None \<Rightarrow> Fault | Some nd \<Rightarrow> k nd)"

text \<open>\<open>Node::wake\<close>: swap the word, and call \<open>Futex::wake\<close> if the owner was sleeping.\<close>

definition wake ::
    "tid \<Rightarrow> ('d, 'r, 'p) sys \<Rightarrow> tid \<Rightarrow> nat \<Rightarrow> ('d, 'r, 'p) event list \<Rightarrow> ('d, 'r, 'p) pc \<Rightarrow>
     ('d, 'r, 'p) step_result" where
  "wake t s a message es k =
     access s a (\<lambda>nd. case futex_swap nd message of (old, nd') \<Rightarrow>
       Next (goto t (if old = SLEEPING then WakeSyscall a k else k) (put_node a nd' s)) es)"

fun bomb_end :: "'p option \<Rightarrow> ('d, 'r, 'p) pc" where
  "bomb_end None = AttachErr"
| "bomb_end (Some p) = Unwinding p"

text \<open>A cancelled task never runs; a started one has its \<open>Exec\<close> event already.\<close>

definition cancel :: "('d, 'r, 'p) sys \<Rightarrow> tid \<Rightarrow> ('d, 'r, 'p) event list" where
  "cancel s a = (case heap s a of None \<Rightarrow> [] | Some nd \<Rightarrow> if started nd then [] else [Cancel a])"

subsection \<open>Entering (\<open>nonpoison.rs\<close>)\<close>

definition try_run_check ::
    "tid \<Rightarrow> ('d, 'r, 'p) sys \<Rightarrow> ('d, 'r, 'p) task \<Rightarrow>
     ('d, 'r, 'p) step_result" where
  "try_run_check t s f =
     Next (goto t (if has_tail (raw s) then SlowNew f else TryAcquire f) s) []"

definition try_run_acquire ::
    "feature \<Rightarrow> tid \<Rightarrow> ('d, 'r, 'p) sys \<Rightarrow>
     ('d, 'r, 'p) task \<Rightarrow> ('d, 'r, 'p) step_result" where
  "try_run_acquire cfg t s f =
     (case try_acquire cfg (raw s) of
        (Inl LockPoisoned, r) \<Rightarrow> Next (goto t (Returning Err) (s\<lparr>raw := r\<rparr>)) []
      | (Inr True, r) \<Rightarrow> Next (goto t (FastRun f) (s\<lparr>raw := r\<rparr>)) []
      | (Inr False, r) \<Rightarrow> Next (goto t (SlowNew f) (s\<lparr>raw := r\<rparr>)) [])"

definition try_run_direct ::
    "tid \<Rightarrow> ('d, 'r, 'p) sys \<Rightarrow> ('d, 'r, 'p) task \<Rightarrow>
     ('d, 'r, 'p) step_result" where
  "try_run_direct t s f =
     (case f (data s) of
        (d, out) \<Rightarrow> Next (goto t (FastUnlock (ret_of out)) (s\<lparr>data := d\<rparr>)) [Exec t])"

definition unlock_guard_drop ::
    "tid \<Rightarrow> ('d, 'r, 'p) sys \<Rightarrow> ('r, 'p) ret \<Rightarrow>
     ('d, 'r, 'p) step_result" where
  "unlock_guard_drop t s ret =
     Next (goto t (Returning ret) (s\<lparr>raw := raw_release (raw s)\<rparr>)) []"

definition run_slowly_node ::
    "tid \<Rightarrow> ('d, 'r, 'p) sys \<Rightarrow> ('d, 'r, 'p) task \<Rightarrow>
     ('d, 'r, 'p) step_result" where
  "run_slowly_node t s f = Next (goto t SwapTail (put_node t (node_new f) s)) []"

subsection \<open>Joining the queue and waiting (\<open>node.rs\<close>, \<open>futex.rs\<close>)\<close>

definition attach_join ::
    "tid \<Rightarrow> ('d, 'r, 'p) sys \<Rightarrow> ('d, 'r, 'p) step_result" where
  "attach_join t s =
     (case swap_tail (raw s) t of (prev, r) \<Rightarrow>
        Next (goto t (case prev of Some p \<Rightarrow> StoreNext p | None \<Rightarrow> Acquire) (s\<lparr>raw := r\<rparr>)) [Enq t])"

definition attach_link ::
    "tid \<Rightarrow> ('d, 'r, 'p) sys \<Rightarrow> tid \<Rightarrow>
     ('d, 'r, 'p) step_result" where
  "attach_link t s prev =
     access s prev (\<lambda>nd. Next (goto t (Spin 0) (put_node prev (store_next nd t) s)) [])"

definition attach_spin ::
    "tid \<Rightarrow> ('d, 'r, 'p) sys \<Rightarrow> nat \<Rightarrow>
     ('d, 'r, 'p) step_result" where
  "attach_spin t s k =
     (if k < SPIN_LIMIT then
        access s t (\<lambda>nd.
          Next (goto t (if futex nd \<noteq> WAITING then Dispatch (futex nd) else Spin (k + 1)) s) [])
      else Next (goto t WaitCas s) [])"

definition node_wait ::
    "tid \<Rightarrow> ('d, 'r, 'p) sys \<Rightarrow> ('d, 'r, 'p) step_result" where
  "node_wait t s =
     access s t (\<lambda>nd. case futex_cas nd WAITING SLEEPING of (old, nd') \<Rightarrow>
       Next (goto t (if old = WAITING then FutexCheck else Dispatch old) (put_node t nd' s)) [])"

definition futex_wait_check ::
    "tid \<Rightarrow> ('d, 'r, 'p) sys \<Rightarrow> ('d, 'r, 'p) step_result" where
  "futex_wait_check t s =
     access s t (\<lambda>nd.
       Next (goto t (if futex nd = SLEEPING then FutexWait else WaitReload) s) [])"

definition futex_wait_call ::
    "tid \<Rightarrow> ('d, 'r, 'p) sys \<Rightarrow> ('d, 'r, 'p) step_result" where
  "futex_wait_call t s =
     access s t (\<lambda>nd.
       Next (goto t (if futex nd = SLEEPING then FutexSleep else FutexCheck) s) [])"

definition node_wait_reload ::
    "tid \<Rightarrow> ('d, 'r, 'p) sys \<Rightarrow> ('d, 'r, 'p) step_result" where
  "node_wait_reload t s = access s t (\<lambda>nd. Next (goto t (Dispatch (futex nd)) s) [])"

definition attach_dispatch ::
    "feature \<Rightarrow> tid \<Rightarrow> ('d, 'r, 'p) sys \<Rightarrow> nat \<Rightarrow>
     ('d, 'r, 'p) step_result" where
  "attach_dispatch cfg t s st =
     (if st = DONE then Next (goto t AttachOk s) []
      else if cfg = NoStd \<and> st = NODE_POISONED then Next (goto t AttachErr s) []
      else if st = HEAD then Next (goto t (Execute t) s) []
      else Fault)"

subsection \<open>Combining (\<open>rawlock.rs\<close>, \<open>node.rs\<close>, \<open>nonpoison.rs\<close>)\<close>

definition acquire_try ::
    "feature \<Rightarrow> tid \<Rightarrow> ('d, 'r, 'p) sys \<Rightarrow>
     ('d, 'r, 'p) step_result" where
  "acquire_try cfg t s =
     (case try_acquire cfg (raw s) of
        (Inl LockPoisoned, r) \<Rightarrow> Next (goto t (BombPoison t None) (s\<lparr>raw := r\<rparr>)) []
      | (Inr True, r) \<Rightarrow> Next (goto t (Execute t) (s\<lparr>raw := r\<rparr>)) []
      | (Inr False, r) \<Rightarrow> Next (goto t AcquireSpin (s\<lparr>raw := r\<rparr>)) [])"

definition acquire_spin ::
    "tid \<Rightarrow> ('d, 'r, 'p) sys \<Rightarrow> ('d, 'r, 'p) step_result" where
  "acquire_spin t s =
     Next (goto t (if status (raw s) = LOCKED then AcquireSpin else Acquire) s) []"

definition execute_take ::
    "feature \<Rightarrow> tid \<Rightarrow> ('d, 'r, 'p) sys \<Rightarrow> tid \<Rightarrow>
     ('d, 'r, 'p) step_result" where
  "execute_take cfg t s c =
     access s c (\<lambda>nd. case closure nd of
         None \<Rightarrow> Fault
       | Some f \<Rightarrow>
           Next (goto t (Running c f)
             (put_node c (nd\<lparr>closure := None, started := (cfg = NoStd \<or> started nd)\<rparr>) s)) [])"

definition execute_run ::
    "feature \<Rightarrow> tid \<Rightarrow> ('d, 'r, 'p) sys \<Rightarrow> tid \<Rightarrow>
     ('d, 'r, 'p) task \<Rightarrow> ('d, 'r, 'p) step_result" where
  "execute_run cfg t s c f =
     (case f (data s) of (d, out) \<Rightarrow>
        (case (cfg, out) of
           (NoStd, Panic p) \<Rightarrow> Next (goto t (BombPoison c (Some p)) (s\<lparr>data := d\<rparr>)) [Exec c]
         | _ \<Rightarrow> access s c (\<lambda>nd.
             Next (goto t (LoadNext c) (put_node c (nd\<lparr>result := Some out\<rparr>) (s\<lparr>data := d\<rparr>))) [Exec c])))"

definition combine_next ::
    "tid \<Rightarrow> ('d, 'r, 'p) sys \<Rightarrow> tid \<Rightarrow>
     ('d, 'r, 'p) step_result" where
  "combine_next t s c =
     access s c (\<lambda>nd.
       Next (goto t (case nxt nd of Some n \<Rightarrow> WakeDone c n | None \<Rightarrow> TryClose c) s) [])"

definition combine_wake ::
    "tid \<Rightarrow> ('d, 'r, 'p) sys \<Rightarrow> tid \<Rightarrow> tid \<Rightarrow>
     ('d, 'r, 'p) step_result" where
  "combine_wake t s c n = wake t s c DONE [] (Execute n)"

definition attach_close ::
    "tid \<Rightarrow> ('d, 'r, 'p) sys \<Rightarrow> tid \<Rightarrow>
     ('d, 'r, 'p) step_result" where
  "attach_close t s c =
     (case try_close (raw s) c of (ok, r) \<Rightarrow>
        Next (goto t (if ok then CloseDone c else HandLoad c) (s\<lparr>raw := r\<rparr>)) [])"

definition close_wake ::
    "tid \<Rightarrow> ('d, 'r, 'p) sys \<Rightarrow> tid \<Rightarrow>
     ('d, 'r, 'p) step_result" where
  "close_wake t s c = wake t s c DONE [] Release"

definition close_release ::
    "tid \<Rightarrow> ('d, 'r, 'p) sys \<Rightarrow> ('d, 'r, 'p) step_result" where
  "close_release t s = Next (goto t AttachOk (s\<lparr>raw := raw_release (raw s)\<rparr>)) []"

definition hand_load ::
    "tid \<Rightarrow> ('d, 'r, 'p) sys \<Rightarrow> tid \<Rightarrow>
     ('d, 'r, 'p) step_result" where
  "hand_load t s c =
     access s c (\<lambda>nd.
       Next (goto t (case nxt nd of Some n \<Rightarrow> HandHead c n | None \<Rightarrow> HandAssert c) s) [])"

definition hand_assert :: "tid \<Rightarrow> ('d, 'r, 'p) sys \<Rightarrow> tid \<Rightarrow> ('d, 'r, 'p) step_result" where
  "hand_assert t s c = (if has_tail (raw s) then Next (goto t (HandLoad c) s) [] else Fault)"

definition hand_head ::
    "tid \<Rightarrow> ('d, 'r, 'p) sys \<Rightarrow> tid \<Rightarrow> tid \<Rightarrow>
     ('d, 'r, 'p) step_result" where
  "hand_head t s c n = wake t s n HEAD [] (HandDone c)"

definition hand_done ::
    "tid \<Rightarrow> ('d, 'r, 'p) sys \<Rightarrow> tid \<Rightarrow>
     ('d, 'r, 'p) step_result" where
  "hand_done t s c = wake t s c DONE [] AttachOk"

subsection \<open>The wake system call (\<open>futex.rs\<close>)\<close>

definition futex_wake ::
    "tid \<Rightarrow> ('d, 'r, 'p) sys \<Rightarrow> tid \<Rightarrow>
     ('d, 'r, 'p) pc \<Rightarrow> ('d, 'r, 'p) step_result" where
  "futex_wake t s a k =
     Next (goto t k (if pcs s a = FutexSleep then goto a FutexCheck s else s)) []"

subsection \<open>Cancelling (\<open>bomb.rs\<close>)\<close>

definition bomb_poison ::
    "tid \<Rightarrow> ('d, 'r, 'p) sys \<Rightarrow> tid \<Rightarrow> 'p option \<Rightarrow>
     ('d, 'r, 'p) step_result" where
  "bomb_poison t s c fin =
     Next (goto t (BombLoad c fin) (s\<lparr>raw := raw_poison (raw s)\<rparr>)) []"

definition bomb_load ::
    "tid \<Rightarrow> ('d, 'r, 'p) sys \<Rightarrow> tid \<Rightarrow> 'p option \<Rightarrow>
     ('d, 'r, 'p) step_result" where
  "bomb_load t s c fin =
     access s c (\<lambda>nd.
       Next (goto t (case nxt nd of Some n \<Rightarrow> BombWake c n fin | None \<Rightarrow> BombClose c fin) s) [])"

definition bomb_wake ::
    "tid \<Rightarrow> ('d, 'r, 'p) sys \<Rightarrow> tid \<Rightarrow> tid \<Rightarrow>
     'p option \<Rightarrow> ('d, 'r, 'p) step_result" where
  "bomb_wake t s c n fin = wake t s c NODE_POISONED (cancel s c) (BombLoad n fin)"

definition bomb_close ::
    "tid \<Rightarrow> ('d, 'r, 'p) sys \<Rightarrow> tid \<Rightarrow> 'p option \<Rightarrow>
     ('d, 'r, 'p) step_result" where
  "bomb_close t s c fin =
     (case try_close (raw s) c of (ok, r) \<Rightarrow>
        Next (goto t (if ok then BombLast c fin else BombSpin c fin) (s\<lparr>raw := r\<rparr>))
          (if ok then cancel s c else []))"

definition bomb_spin ::
    "tid \<Rightarrow> ('d, 'r, 'p) sys \<Rightarrow> tid \<Rightarrow> 'p option \<Rightarrow>
     ('d, 'r, 'p) step_result" where
  "bomb_spin t s c fin =
     access s c (\<lambda>nd.
       Next (goto t (if nxt nd = None then BombSpin c fin else BombLoad c fin) s) [])"

definition bomb_last ::
    "tid \<Rightarrow> ('d, 'r, 'p) sys \<Rightarrow> tid \<Rightarrow> 'p option \<Rightarrow>
     ('d, 'r, 'p) step_result" where
  "bomb_last t s c fin = wake t s c NODE_POISONED [] (bomb_end fin)"

subsection \<open>Leaving (\<open>nonpoison.rs\<close>)\<close>

definition run_slowly_result ::
    "tid \<Rightarrow> ('d, 'r, 'p) sys \<Rightarrow> ('d, 'r, 'p) step_result" where
  "run_slowly_result t s =
     access s t (\<lambda>nd. case result nd of
         None \<Rightarrow> Fault
       | Some out \<Rightarrow> Next (goto t (Returning (ret_of out)) (free_node t s)) [])"

definition run_slowly_cancelled ::
    "tid \<Rightarrow> ('d, 'r, 'p) sys \<Rightarrow> ('d, 'r, 'p) step_result" where
  "run_slowly_cancelled t s =
     access s t (\<lambda>nd.
       if started nd \<or> closure nd \<noteq> None then Next (goto t (Returning Err) (free_node t s)) []
       else Fault)"

definition run_slowly_unwind ::
    "tid \<Rightarrow> ('d, 'r, 'p) sys \<Rightarrow> 'p \<Rightarrow>
     ('d, 'r, 'p) step_result" where
  "run_slowly_unwind t s p =
     access s t (\<lambda>nd. Next (goto t (Returning (Unwind p)) (free_node t s)) [])"

definition call_return ::
    "tid \<Rightarrow> ('d, 'r, 'p) sys \<Rightarrow> ('r, 'p) ret \<Rightarrow>
     ('d, 'r, 'p) step_result" where
  "call_return t s ret = Next (goto t Idle s) [Ret t ret]"

lemmas [simp] = try_run_check_def try_run_acquire_def try_run_direct_def unlock_guard_drop_def
  run_slowly_node_def attach_join_def attach_link_def attach_spin_def node_wait_def
  futex_wait_check_def futex_wait_call_def node_wait_reload_def attach_dispatch_def
  acquire_try_def acquire_spin_def execute_take_def execute_run_def combine_next_def
  combine_wake_def attach_close_def close_wake_def close_release_def hand_load_def
  hand_assert_def hand_head_def hand_done_def futex_wake_def bomb_poison_def bomb_load_def
  bomb_wake_def bomb_close_def bomb_spin_def bomb_last_def run_slowly_result_def
  run_slowly_cancelled_def run_slowly_unwind_def call_return_def

subsection \<open>One step of a thread\<close>

primrec step_pc ::
    "feature \<Rightarrow> tid \<Rightarrow> ('d, 'r, 'p) sys \<Rightarrow> ('d, 'r, 'p) pc \<Rightarrow> ('d, 'r, 'p) step_result" where
  "step_pc cfg t s Idle = Blocked"
| "step_pc cfg t s (TryRun f) = try_run_check t s f"
| "step_pc cfg t s (TryAcquire f) = try_run_acquire cfg t s f"
| "step_pc cfg t s (FastRun f) = try_run_direct t s f"
| "step_pc cfg t s (FastUnlock ret) = unlock_guard_drop t s ret"
| "step_pc cfg t s (SlowNew f) = run_slowly_node t s f"
| "step_pc cfg t s SwapTail = attach_join t s"
| "step_pc cfg t s (StoreNext prev) = attach_link t s prev"
| "step_pc cfg t s (Spin k) = attach_spin t s k"
| "step_pc cfg t s WaitCas = node_wait t s"
| "step_pc cfg t s FutexCheck = futex_wait_check t s"
| "step_pc cfg t s FutexWait = futex_wait_call t s"
| "step_pc cfg t s FutexSleep = Blocked"
| "step_pc cfg t s WaitReload = node_wait_reload t s"
| "step_pc cfg t s (Dispatch st) = attach_dispatch cfg t s st"
| "step_pc cfg t s Acquire = acquire_try cfg t s"
| "step_pc cfg t s AcquireSpin = acquire_spin t s"
| "step_pc cfg t s (Execute c) = execute_take cfg t s c"
| "step_pc cfg t s (Running c f) = execute_run cfg t s c f"
| "step_pc cfg t s (LoadNext c) = combine_next t s c"
| "step_pc cfg t s (WakeDone c n) = combine_wake t s c n"
| "step_pc cfg t s (TryClose c) = attach_close t s c"
| "step_pc cfg t s (CloseDone c) = close_wake t s c"
| "step_pc cfg t s Release = close_release t s"
| "step_pc cfg t s (HandLoad c) = hand_load t s c"
| "step_pc cfg t s (HandAssert c) = hand_assert t s c"
| "step_pc cfg t s (HandHead c n) = hand_head t s c n"
| "step_pc cfg t s (HandDone c) = hand_done t s c"
| "step_pc cfg t s (WakeSyscall a k) = futex_wake t s a k"
| "step_pc cfg t s (BombPoison c fin) = bomb_poison t s c fin"
| "step_pc cfg t s (BombLoad c fin) = bomb_load t s c fin"
| "step_pc cfg t s (BombWake c n fin) = bomb_wake t s c n fin"
| "step_pc cfg t s (BombClose c fin) = bomb_close t s c fin"
| "step_pc cfg t s (BombSpin c fin) = bomb_spin t s c fin"
| "step_pc cfg t s (BombLast c fin) = bomb_last t s c fin"
| "step_pc cfg t s AttachOk = run_slowly_result t s"
| "step_pc cfg t s AttachErr = run_slowly_cancelled t s"
| "step_pc cfg t s (Unwinding p) = run_slowly_unwind t s p"
| "step_pc cfg t s (Returning ret) = call_return t s ret"

definition thread_step ::
    "feature \<Rightarrow> tid \<Rightarrow> ('d, 'r, 'p) sys \<Rightarrow> ('d, 'r, 'p) step_result" where
  "thread_step cfg t s = step_pc cfg t s (pcs s t)"

definition sys_init :: "'d \<Rightarrow> ('d, 'r, 'p) sys" where
  "sys_init d = \<lparr>raw = raw_new, data = d, heap = (\<lambda>_. None), pcs = (\<lambda>_. Idle)\<rparr>"

end
