(* ===== verification/Lam_Spec.thy ===== *)
theory Lam_Spec
  imports Lam_System
begin

section \<open>The contract of the lock: an atomic, first-in-first-out task executor\<close>

text \<open>
  The specification keeps the data, where each thread's call stands, and the threads whose tasks
  are queued and have not run. A task runs atomically on the data, once; a queued task runs only
  when it is the oldest one; a call returns what its own task produced. The feature decides what
  else a call may return: with \<open>std\<close> nothing; without it, a task that was cancelled or
  unwound on another thread gives \<open>Err\<close>, and a combiner may unwind with another task's
  panic although its own task completed.
\<close>

datatype (dead 'd, dead 'r, dead 'p) phase =
    Quiet
  | Pending "('d, 'r, 'p) task"
  | Finished "('r, 'p) outcome"

record ('d, 'r, 'p) spec =
  sdata :: 'd
  phase :: "tid \<Rightarrow> ('d, 'r, 'p) phase"
  await :: "tid list"

definition spec_init :: "'d \<Rightarrow> ('d, 'r, 'p) spec" where
  "spec_init d = \<lparr>sdata = d, phase = (\<lambda>_. Quiet), await = []\<rparr>"

fun allowed :: "feature \<Rightarrow> ('d, 'r, 'p) phase \<Rightarrow> ('r, 'p) ret \<Rightarrow> bool" where
  "allowed cfg Quiet ret = False"
| "allowed cfg (Pending f) ret = (cfg = NoStd \<and> ret = Err)"
| "allowed cfg (Finished out) ret =
     (ret = ret_of out \<or>
      (cfg = NoStd \<and>
       (case (out, ret) of (Panic p, Err) \<Rightarrow> True | (Return r, Unwind p) \<Rightarrow> True | _ \<Rightarrow> False)))"

fun spec_step ::
    "feature \<Rightarrow> ('d, 'r, 'p) event \<Rightarrow> ('d, 'r, 'p) spec \<Rightarrow> ('d, 'r, 'p) spec option" where
  "spec_step cfg (Call t f) a =
     (case phase a t of
        Quiet \<Rightarrow> Some (a\<lparr>phase := (phase a)(t := Pending f)\<rparr>)
      | _ \<Rightarrow> None)"
| "spec_step cfg (Enq t) a =
     (case phase a t of
        Pending f \<Rightarrow> if t \<in> set (await a) then None else Some (a\<lparr>await := await a @ [t]\<rparr>)
      | _ \<Rightarrow> None)"
| "spec_step cfg (Exec t) a =
     (case phase a t of
        Pending f \<Rightarrow>
          if t \<in> set (await a) \<and> hd (await a) \<noteq> t then None
          else (case f (sdata a) of (d, out) \<Rightarrow>
            Some (a\<lparr>sdata := d, phase := (phase a)(t := Finished out),
                    await := remove1 t (await a)\<rparr>))
      | _ \<Rightarrow> None)"
| "spec_step cfg (Cancel t) a =
     (if cfg = NoStd \<and> await a \<noteq> [] \<and> hd (await a) = t then Some (a\<lparr>await := tl (await a)\<rparr>)
      else None)"
| "spec_step cfg (Ret t ret) a =
     (if allowed cfg (phase a t) ret \<and> t \<notin> set (await a)
      then Some (a\<lparr>phase := (phase a)(t := Quiet)\<rparr>) else None)"

fun spec_run ::
    "feature \<Rightarrow> ('d, 'r, 'p) event list \<Rightarrow> ('d, 'r, 'p) spec \<Rightarrow> ('d, 'r, 'p) spec option" where
  "spec_run cfg [] a = Some a"
| "spec_run cfg (e # es) a = Option.bind (spec_step cfg e a) (spec_run cfg es)"

lemma spec_run_append:
  "spec_run cfg (es @ fs) a = Option.bind (spec_run cfg es a) (spec_run cfg fs)"
  by (induction es arbitrary: a) (simp_all split: bind_splits)

end
