(* ===== verification/Lam_Inv.thy ===== *)
theory Lam_Inv
  imports Lam_Spec
begin

section \<open>The invariant of the lock\<close>

text \<open>
  The invariant speaks of the queue as a list \<open>gq\<close> (from the node the leader is at to the
  tail), of the one thread that leads it (\<open>gL\<close>: waiting for the raw lock, combining, chosen
  as the next head, or cancelling), of the one thread that holds the raw lock (\<open>gH\<close>), and of
  the debts: a node already taken off the queue whose wake-up is still owed (\<open>gO\<close> gives the
  debtor of a node, \<open>gD\<close> the node a thread owes; the flag says whether it is owed
  \<open>DONE\<close> or \<open>POISONED\<close>). \<open>gZ\<close> says how far the task at the head has come. None
  of this exists in the code: the step lemmas find it.
\<close>

datatype (dead 'd, dead 'r, dead 'p) hstage = Todo | Run "('d, 'r, 'p) task" | Did | Bad

record ('d, 'r, 'p) ghost =
  gspec :: "('d, 'r, 'p) spec"
  gq :: "tid list"
  gL :: "tid option"
  gH :: "tid option"
  gO :: "tid \<Rightarrow> (tid \<times> bool) option"
  gD :: "tid \<Rightarrow> (tid \<times> bool) option"
  gZ :: "('d, 'r, 'p) hstage"

subsection \<open>How far a node's task has come\<close>

definition unexec :: "('d, 'r, 'p) node option \<Rightarrow> ('d, 'r, 'p) phase \<Rightarrow> bool" where
  "unexec N ph \<longleftrightarrow>
     (\<exists>nd f. N = Some nd \<and> closure nd = Some f \<and> \<not> started nd \<and> result nd = None \<and> ph = Pending f)"

definition running ::
    "feature \<Rightarrow> ('d, 'r, 'p) task \<Rightarrow> ('d, 'r, 'p) node option \<Rightarrow> ('d, 'r, 'p) phase \<Rightarrow> bool" where
  "running cfg f N ph \<longleftrightarrow>
     (\<exists>nd. N = Some nd \<and> closure nd = None \<and> (cfg = NoStd \<longrightarrow> started nd) \<and> result nd = None \<and>
       ph = Pending f)"

definition did :: "feature \<Rightarrow> ('d, 'r, 'p) node option \<Rightarrow> ('d, 'r, 'p) phase \<Rightarrow> bool" where
  "did cfg N ph \<longleftrightarrow>
     (\<exists>nd out. N = Some nd \<and> closure nd = None \<and> result nd = Some out \<and> ph = Finished out \<and>
       (cfg = NoStd \<longrightarrow> (\<exists>r. out = Return r)))"

definition pan :: "'p \<Rightarrow> ('d, 'r, 'p) node option \<Rightarrow> ('d, 'r, 'p) phase \<Rightarrow> bool" where
  "pan p N ph \<longleftrightarrow>
     (\<exists>nd. N = Some nd \<and> closure nd = None \<and> started nd \<and> result nd = None \<and>
       ph = Finished (Panic p))"

primrec at_stage ::
    "feature \<Rightarrow> ('d, 'r, 'p) hstage \<Rightarrow> ('d, 'r, 'p) node option \<Rightarrow> ('d, 'r, 'p) phase \<Rightarrow> bool" where
  "at_stage cfg Todo N ph = unexec N ph"
| "at_stage cfg (Run f) N ph = running cfg f N ph"
| "at_stage cfg Did N ph = did cfg N ph"
| "at_stage cfg Bad N ph = (unexec N ph \<or> (\<exists>p. pan p N ph))"

lemmas stage_defs = unexec_def running_def did_def pan_def

subsection \<open>What one thread knows\<close>

record ('d, 'r, 'p) view =
  vN :: "('d, 'r, 'p) node option"
  vph :: "('d, 'r, 'p) phase"
  vinq :: bool
  vld :: bool
  vhl :: bool
  vcr :: "(tid \<times> bool) option"
  vdb :: "(tid \<times> bool) option"
  vtop :: tid
  vZ :: "('d, 'r, 'p) hstage"
  vsec :: "tid option"
  vpz :: bool

definition next_of :: "('d, 'r, 'p) sys \<Rightarrow> tid \<Rightarrow> tid option" where
  "next_of s c = (case heap s c of None \<Rightarrow> None | Some nd \<Rightarrow> nxt nd)"

definition view_of :: "('d, 'r, 'p) sys \<Rightarrow> ('d, 'r, 'p) ghost \<Rightarrow> tid \<Rightarrow> ('d, 'r, 'p) view" where
  "view_of s g t =
     \<lparr>vN = heap s t, vph = phase (gspec g) t, vinq = (t \<in> set (gq g)), vld = (gL g = Some t),
      vhl = (gH g = Some t), vcr = gO g t, vdb = gD g t, vtop = hd (gq g), vZ = gZ g,
      vsec = next_of s (hd (gq g)),
      vpz = (status (raw s) = RAW_POISONED)\<rparr>"

definition calm :: "('d, 'r, 'p) view \<Rightarrow> bool" where
  "calm v \<longleftrightarrow> \<not> vinq v \<and> \<not> vld v \<and> vcr v = None \<and> vdb v = None"

definition idle :: "('d, 'r, 'p) view \<Rightarrow> bool" where
  "idle v \<longleftrightarrow> calm v \<and> \<not> vhl v"

definition leads :: "('d, 'r, 'p) view \<Rightarrow> ('d, 'r, 'p) hstage \<Rightarrow> tid \<Rightarrow> bool" where
  "leads v z c \<longleftrightarrow> vld v \<and> vdb v = None \<and> vcr v = None \<and> vtop v = c \<and> vZ v = z"

definition own :: "feature \<Rightarrow> tid \<Rightarrow> ('d, 'r, 'p) view \<Rightarrow> tid \<Rightarrow> bool" where
  "own cfg t v c \<longleftrightarrow> (if c = t then vinq v else \<not> vinq v \<and> did cfg (vN v) (vph v))"

definition owing :: "tid \<Rightarrow> ('d, 'r, 'p) view \<Rightarrow> tid \<Rightarrow> bool \<Rightarrow> bool" where
  "owing t v c k \<longleftrightarrow> \<not> vld v \<and> \<not> vinq v \<and> vdb v = Some (c, k) \<and>
     vcr v = (if c = t then Some (t, k) else None)"

primrec fin_ok ::
    "feature \<Rightarrow> 'p option \<Rightarrow> ('d, 'r, 'p) node option \<Rightarrow> ('d, 'r, 'p) phase \<Rightarrow> bool" where
  "fin_ok cfg None N ph = (unexec N ph \<or> (\<exists>p. pan p N ph))"
| "fin_ok cfg (Some p) N ph = (did cfg N ph \<or> pan p N ph)"

definition settled :: "feature \<Rightarrow> tid \<Rightarrow> ('d, 'r, 'p) view \<Rightarrow> nat \<Rightarrow> bool" where
  "settled cfg t v w \<longleftrightarrow>
     w = HEAD \<and> leads v Todo t \<and> vinq v \<and> vhl v
   \<or> w = DONE \<and> idle v \<and> did cfg (vN v) (vph v)
   \<or> w = NODE_POISONED \<and> cfg = NoStd \<and> idle v \<and> fin_ok cfg None (vN v) (vph v)"

definition unsettled :: "('d, 'r, 'p) view \<Rightarrow> bool" where
  "unsettled v \<longleftrightarrow> \<not> vld v \<and> \<not> vhl v \<and> vdb v = None \<and> (vinq v \<longleftrightarrow> vcr v = None)"

definition waits :: "feature \<Rightarrow> tid \<Rightarrow> ('d, 'r, 'p) view \<Rightarrow> nat \<Rightarrow> bool" where
  "waits cfg t v w \<longleftrightarrow>
     (\<exists>nd. vN v = Some nd \<and>
       (futex nd = w \<and> unsettled v \<or> settled cfg t v (futex nd)))"

definition bombing ::
    "feature \<Rightarrow> tid \<Rightarrow> ('d, 'r, 'p) view \<Rightarrow> tid \<Rightarrow> 'p option \<Rightarrow> bool" where
  "bombing cfg t v c fin \<longleftrightarrow>
     cfg = NoStd \<and> leads v Bad c \<and> (vinq v \<longleftrightarrow> c = t) \<and> fin_ok cfg fin (vN v) (vph v)"

fun continues :: "('d, 'r, 'p) pc \<Rightarrow> bool" where
  "continues (Execute c) = True"
| "continues Release = True"
| "continues (HandDone c) = True"
| "continues AttachOk = True"
| "continues AttachErr = True"
| "continues (Unwinding p) = True"
| "continues (BombLoad c fin) = True"
| "continues k = False"

primrec local :: "feature \<Rightarrow> tid \<Rightarrow> ('d, 'r, 'p) view \<Rightarrow> ('d, 'r, 'p) pc \<Rightarrow> bool" where
  "local cfg t v Idle = (idle v \<and> vN v = None \<and> vph v = Quiet)"
| "local cfg t v (TryRun f) = (idle v \<and> vN v = None \<and> vph v = Pending f)"
| "local cfg t v (TryAcquire f) = (idle v \<and> vN v = None \<and> vph v = Pending f)"
| "local cfg t v (FastRun f) = (calm v \<and> vhl v \<and> vN v = None \<and> vph v = Pending f)"
| "local cfg t v (FastUnlock ret) =
     (calm v \<and> vhl v \<and> vN v = None \<and> (\<exists>out. vph v = Finished out \<and> ret = ret_of out))"
| "local cfg t v (SlowNew f) = (idle v \<and> vN v = None \<and> vph v = Pending f)"
| "local cfg t v SwapTail =
     (idle v \<and> unexec (vN v) (vph v) \<and>
      (\<exists>nd. vN v = Some nd \<and> futex nd = WAITING \<and> nxt nd = None))"
| "local cfg t v (StoreNext p) =
     (vinq v \<and> unsettled v \<and> (\<exists>nd. vN v = Some nd \<and> futex nd = WAITING))"
| "local cfg t v (Spin k) = waits cfg t v WAITING"
| "local cfg t v WaitCas = waits cfg t v WAITING"
| "local cfg t v FutexCheck = waits cfg t v SLEEPING"
| "local cfg t v FutexWait = waits cfg t v SLEEPING"
| "local cfg t v FutexSleep = waits cfg t v SLEEPING"
| "local cfg t v WaitReload = (\<exists>nd. vN v = Some nd \<and> settled cfg t v (futex nd))"
| "local cfg t v (Dispatch w) =
     (\<exists>nd. vN v = Some nd \<and> futex nd = w \<and> settled cfg t v w)"
| "local cfg t v Acquire = (leads v Todo t \<and> vinq v \<and> \<not> vhl v)"
| "local cfg t v AcquireSpin = (leads v Todo t \<and> vinq v \<and> \<not> vhl v)"
| "local cfg t v (Execute c) = (leads v Todo c \<and> vhl v \<and> own cfg t v c)"
| "local cfg t v (Running c f) = (leads v (Run f) c \<and> vhl v \<and> own cfg t v c)"
| "local cfg t v (LoadNext c) = (leads v Did c \<and> vhl v \<and> own cfg t v c)"
| "local cfg t v (WakeDone c n) =
     (leads v Did c \<and> vhl v \<and> own cfg t v c \<and> vsec v = Some n)"
| "local cfg t v (TryClose c) = (leads v Did c \<and> vhl v \<and> own cfg t v c)"
| "local cfg t v (CloseDone c) = (owing t v c True \<and> vhl v \<and> did cfg (vN v) (vph v))"
| "local cfg t v Release = (calm v \<and> vhl v \<and> did cfg (vN v) (vph v))"
| "local cfg t v (HandLoad c) = (leads v Did c \<and> vhl v \<and> own cfg t v c)"
| "local cfg t v (HandAssert c) = (leads v Did c \<and> vhl v \<and> own cfg t v c)"
| "local cfg t v (HandHead c n) =
     (leads v Did c \<and> vhl v \<and> own cfg t v c \<and> vsec v = Some n)"
| "local cfg t v (HandDone c) = (owing t v c True \<and> \<not> vhl v \<and> did cfg (vN v) (vph v))"
| "local cfg t v (WakeSyscall a k) = (continues k \<and> local cfg t v k)"
| "local cfg t v (BombPoison c fin) =
     (bombing cfg t v c fin \<and> (vhl v \<longleftrightarrow> fin \<noteq> None) \<and> (vpz v \<longleftrightarrow> fin = None))"
| "local cfg t v (BombLoad c fin) = (bombing cfg t v c fin \<and> \<not> vhl v \<and> vpz v)"
| "local cfg t v (BombWake c n fin) =
     (bombing cfg t v c fin \<and> \<not> vhl v \<and> vpz v \<and> vsec v = Some n)"
| "local cfg t v (BombClose c fin) = (bombing cfg t v c fin \<and> \<not> vhl v \<and> vpz v)"
| "local cfg t v (BombSpin c fin) = (bombing cfg t v c fin \<and> \<not> vhl v \<and> vpz v)"
| "local cfg t v (BombLast c fin) =
     (cfg = NoStd \<and> owing t v c False \<and> \<not> vhl v \<and> vpz v \<and> fin_ok cfg fin (vN v) (vph v))"
| "local cfg t v AttachOk = (idle v \<and> did cfg (vN v) (vph v))"
| "local cfg t v AttachErr = (cfg = NoStd \<and> idle v \<and> fin_ok cfg None (vN v) (vph v))"
| "local cfg t v (Unwinding p) = (cfg = NoStd \<and> idle v \<and> fin_ok cfg (Some p) (vN v) (vph v))"
| "local cfg t v (Returning ret) = (idle v \<and> vN v = None \<and> allowed cfg (vph v) ret)"

lemmas role_defs = calm_def idle_def leads_def own_def owing_def settled_def unsettled_def
  waits_def bombing_def

subsection \<open>The shared state\<close>

text \<open>
  The queue's links: a thread that has swapped the tail and not yet stored its predecessor's
  \<open>next\<close> pointer (program counter \<open>StoreNext\<close>) is exactly a missing link.
\<close>

definition linking :: "('d, 'r, 'p) sys \<Rightarrow> tid \<Rightarrow> tid option" where
  "linking s t = (case pcs s t of StoreNext p \<Rightarrow> Some p | _ \<Rightarrow> None)"

fun linked :: "(tid \<Rightarrow> tid option) \<Rightarrow> (tid \<Rightarrow> tid option) \<Rightarrow> tid list \<Rightarrow> bool" where
  "linked nx ln [] = True"
| "linked nx ln [x] = (nx x = None)"
| "linked nx ln (x # y # q) =
     ((nx x = Some y \<and> ln y = None \<or> nx x = None \<and> ln y = Some x) \<and> linked nx ln (y # q))"

definition queue_inv :: "feature \<Rightarrow> ('d, 'r, 'p) sys \<Rightarrow> ('d, 'r, 'p) ghost \<Rightarrow> bool" where
  "queue_inv cfg s g \<longleftrightarrow>
     distinct (gq g) \<and>
     tail (raw s) = (if gq g = [] then None else Some (last (gq g))) \<and>
     linked (next_of s) (linking s) (gq g) \<and>
     (gq g \<noteq> [] \<longrightarrow> linking s (hd (gq g)) = None) \<and>
     (gL g = None \<longleftrightarrow> gq g = []) \<and>
     (\<forall>c \<in> set (List.tl (gq g)). unexec (heap s c) (phase (gspec g) c)) \<and>
     (gq g \<noteq> [] \<longrightarrow> at_stage cfg (gZ g) (heap s (hd (gq g))) (phase (gspec g) (hd (gq g))))"

definition lock_inv :: "feature \<Rightarrow> ('d, 'r, 'p) sys \<Rightarrow> ('d, 'r, 'p) ghost \<Rightarrow> bool" where
  "lock_inv cfg s g \<longleftrightarrow>
     (status (raw s) = LOCKED \<longleftrightarrow> gH g \<noteq> None) \<and> status (raw s) \<le> RAW_POISONED \<and>
     (cfg = Std \<longrightarrow> status (raw s) \<noteq> RAW_POISONED)"

definition debt_inv :: "feature \<Rightarrow> ('d, 'r, 'p) sys \<Rightarrow> ('d, 'r, 'p) ghost \<Rightarrow> bool" where
  "debt_inv cfg s g \<longleftrightarrow>
     (\<forall>c w k. gO g c = Some (w, k) \<longleftrightarrow> gD g w = Some (c, k)) \<and>
     (\<forall>c w k. gO g c = Some (w, k) \<longrightarrow>
       at_stage cfg (if k then Did else Bad) (heap s c) (phase (gspec g) c))"

definition spec_inv :: "('d, 'r, 'p) sys \<Rightarrow> ('d, 'r, 'p) ghost \<Rightarrow> bool" where
  "spec_inv s g \<longleftrightarrow>
     data s = sdata (gspec g) \<and>
     await (gspec g) =
       (if gq g \<noteq> [] \<and> (\<exists>out. phase (gspec g) (hd (gq g)) = Finished out)
        then List.tl (gq g) else gq g)"

definition inv :: "feature \<Rightarrow> ('d, 'r, 'p) sys \<Rightarrow> ('d, 'r, 'p) ghost \<Rightarrow> bool" where
  "inv cfg s g \<longleftrightarrow>
     queue_inv cfg s g \<and> lock_inv cfg s g \<and> debt_inv cfg s g \<and> spec_inv s g \<and>
     (\<forall>t. local cfg t (view_of s g t) (pcs s t))"

end
