(* ===== verification/Lam_Frame.thy ===== *)
theory Lam_Frame
  imports Lam_Inv
begin

section \<open>Frame lemmas for the lock invariant\<close>

text \<open>
  What a step of one thread leaves alone: the local assertions of the other threads, the links of
  the queue, and the four shared parts of the invariant.
\<close>

subsection \<open>Views\<close>

lemma view_of_simps [simp]:
  "vN (view_of s g t) = heap s t" "vph (view_of s g t) = phase (gspec g) t"
  "vinq (view_of s g t) \<longleftrightarrow> t \<in> set (gq g)" "vld (view_of s g t) \<longleftrightarrow> gL g = Some t"
  "vhl (view_of s g t) \<longleftrightarrow> gH g = Some t" "vcr (view_of s g t) = gO g t"
  "vdb (view_of s g t) = gD g t" "vtop (view_of s g t) = hd (gq g)" "vZ (view_of s g t) = gZ g"
  "vsec (view_of s g t) = next_of s (hd (gq g))"
  "vpz (view_of s g t) \<longleftrightarrow> status (raw s) = RAW_POISONED"
  by (simp_all add: view_of_def)

text \<open>Two nodes that differ at most in the successor, or agree at least on the futex word.\<close>

definition similar ::
    "('d, 'r, 'p) node option \<Rightarrow> ('d, 'r, 'p) node option \<Rightarrow> bool" where
  "similar N N' \<longleftrightarrow>
     (case (N, N') of
        (Some nd, Some nd') \<Rightarrow> futex nd' = futex nd \<and> closure nd' = closure nd \<and>
          started nd' = started nd \<and> result nd' = result nd
      | (None, None) \<Rightarrow> True
      | _ \<Rightarrow> False)"

definition same_word ::
    "('d, 'r, 'p) node option \<Rightarrow> ('d, 'r, 'p) node option \<Rightarrow> bool" where
  "same_word N N' \<longleftrightarrow> map_option futex N' = map_option futex N"

definition frame :: "('d, 'r, 'p) view \<Rightarrow> ('d, 'r, 'p) view \<Rightarrow> bool" where
  "frame v v' \<longleftrightarrow>
     vinq v' = vinq v \<and> vld v' = vld v \<and> vhl v' = vhl v \<and> vcr v' = vcr v \<and> vdb v' = vdb v \<and>
     (if vinq v \<and> \<not> vld v \<and> vdb v = None then same_word (vN v) (vN v')
      else vph v' = vph v \<and> (if vinq v then similar (vN v) (vN v') else vN v' = vN v)) \<and>
     (vld v \<longrightarrow> vtop v' = vtop v \<and> vZ v' = vZ v \<and> (vsec v \<noteq> None \<longrightarrow> vsec v' = vsec v)) \<and>
     (vpz v \<longrightarrow> vpz v') \<and> (vhl v \<longrightarrow> vpz v' = vpz v)"

lemma similar_refl [simp]: "similar N N"
  by (simp add: similar_def split: option.split)

lemma same_word_refl [simp]: "same_word N N"
  by (simp add: same_word_def)

lemma same_word_Some: "same_word (Some nd) N' \<longleftrightarrow> (\<exists>nd'. N' = Some nd' \<and> futex nd' = futex nd)"
  by (auto simp: same_word_def)

lemma similar_Some:
  "similar (Some nd) N' \<longleftrightarrow> (\<exists>nd'. N' = Some nd' \<and> futex nd' = futex nd \<and>
    closure nd' = closure nd \<and> started nd' = started nd \<and> result nd' = result nd)"
  by (auto simp: similar_def split: option.splits)

definition same_task ::
    "('d, 'r, 'p) node option \<Rightarrow> ('d, 'r, 'p) node option \<Rightarrow> bool" where
  "same_task N N' \<longleftrightarrow>
     (case (N, N') of
        (Some nd, Some nd') \<Rightarrow>
          closure nd' = closure nd \<and> started nd' = started nd \<and> result nd' = result nd
      | (None, None) \<Rightarrow> True
      | _ \<Rightarrow> False)"

lemma same_task_refl [simp]: "same_task N N"
  by (simp add: same_task_def split: option.split)

lemma same_task_stages:
  assumes "same_task N N'"
  shows "unexec N' ph = unexec N ph" and "running cfg f N' ph = running cfg f N ph"
    and "did cfg N' ph = did cfg N ph" and "pan p N' ph = pan p N ph"
  using assms by (auto simp: same_task_def stage_defs split: option.splits)

lemma same_task_fin_ok: "same_task N N' \<Longrightarrow> fin_ok cfg fin N' ph = fin_ok cfg fin N ph"
  by (cases fin) (simp_all add: same_task_stages)

lemma same_task_at_stage: "same_task N N' \<Longrightarrow> at_stage cfg z N' ph = at_stage cfg z N ph"
  by (cases z) (simp_all add: same_task_stages)

lemma similar_same_task: "similar N N' \<Longrightarrow> same_task N N'"
  by (auto simp: similar_def same_task_def split: option.splits)

lemma similar_stages:
  assumes "similar N N'"
  shows "unexec N' ph = unexec N ph" and "running cfg f N' ph = running cfg f N ph"
    and "did cfg N' ph = did cfg N ph" and "pan p N' ph = pan p N ph"
  using same_task_stages [OF similar_same_task [OF assms]] by simp_all

lemma similar_fin_ok: "similar N N' \<Longrightarrow> fin_ok cfg fin N' ph = fin_ok cfg fin N ph"
  by (simp add: same_task_fin_ok similar_same_task)

text \<open>The parts of a local assertion survive a frame.\<close>

lemma frame_roles:
  assumes "frame v v'"
  shows "calm v \<Longrightarrow> calm v'" and "idle v \<Longrightarrow> idle v'" and "leads v z c \<Longrightarrow> leads v' z c"
    and "leads v z c \<Longrightarrow> own cfg t v c \<Longrightarrow> own cfg t v' c"
    and "owing t v c b \<Longrightarrow> owing t v' c b"
    and "leads v z c \<Longrightarrow> vsec v = Some n \<Longrightarrow> vsec v' = Some n"
  using assms
  by (auto simp: frame_def calm_def idle_def leads_def own_def owing_def similar_stages
      split: if_splits)

lemma frame_fields:
  assumes "frame v v'"
  shows "vinq v' = vinq v" and "vld v' = vld v" and "vhl v' = vhl v" and "vcr v' = vcr v"
    and "vdb v' = vdb v" and "vpz v \<Longrightarrow> vpz v'" and "vhl v \<Longrightarrow> vpz v' = vpz v"
  using assms by (auto simp: frame_def)

lemma frame_private:
  assumes "frame v v'"
  shows "calm v \<Longrightarrow> vN v' = vN v" and "calm v \<Longrightarrow> vph v' = vph v"
    and "idle v \<Longrightarrow> vN v' = vN v" and "idle v \<Longrightarrow> vph v' = vph v"
    and "owing t v c b \<Longrightarrow> vN v' = vN v" and "owing t v c b \<Longrightarrow> vph v' = vph v"
    and "leads v z c \<Longrightarrow> vph v' = vph v" and "leads v z c \<Longrightarrow> similar (vN v) (vN v')"
  using assms by (auto simp: frame_def calm_def idle_def owing_def leads_def split: if_splits)

lemma frame_fin_ok:
  assumes "frame v v'" and "leads v z c \<or> idle v"
  shows "fin_ok cfg fin (vN v') (vph v') = fin_ok cfg fin (vN v) (vph v)"
    and "did cfg (vN v') (vph v') = did cfg (vN v) (vph v)"
proof -
  have "similar (vN v) (vN v')" "vph v' = vph v"
    using assms by (auto dest: frame_private)
  then show "fin_ok cfg fin (vN v') (vph v') = fin_ok cfg fin (vN v) (vph v)"
    "did cfg (vN v') (vph v') = did cfg (vN v) (vph v)"
    by (simp_all add: similar_fin_ok similar_stages)
qed

lemma frame_settled:
  assumes "frame v v'" and "settled cfg t v w" and "vN v = Some nd"
  shows "settled cfg t v' w \<and> (\<exists>nd'. vN v' = Some nd' \<and> futex nd' = futex nd)"
proof
  have sv: "(\<exists>z c. leads v z c) \<or> idle v" using assms(2) by (auto simp: settled_def)
  then have "similar (vN v) (vN v')" using assms(1) by (auto dest: frame_private)
  then show "\<exists>nd'. vN v' = Some nd' \<and> futex nd' = futex nd"
    using assms(3) by (auto simp: similar_Some)
  have "\<And>fin. idle v \<Longrightarrow> fin_ok cfg fin (vN v') (vph v') = fin_ok cfg fin (vN v) (vph v)"
    "idle v \<Longrightarrow> did cfg (vN v') (vph v') = did cfg (vN v) (vph v)"
    using frame_fin_ok [OF assms(1)] by blast+
  then show "settled cfg t v' w"
    using assms(2) frame_roles(2,3) [OF assms(1)] frame_fields(1-3) [OF assms(1)]
    unfolding settled_def by (elim disjE conjE) (simp_all del: fin_ok.simps)
qed

lemma frame_unsettled:
  assumes "frame v v'" and "unsettled v" and "vN v = Some nd"
  shows "unsettled v' \<and> (\<exists>nd'. vN v' = Some nd' \<and> futex nd' = futex nd)"
  using assms by (auto simp: frame_def unsettled_def same_word_Some split: if_splits)

lemma frame_waits:
  assumes "frame v v'" and "waits cfg t v w"
  shows "waits cfg t v' w"
proof -
  obtain nd where "vN v = Some nd" "futex nd = w \<and> unsettled v \<or> settled cfg t v (futex nd)"
    using assms(2) by (auto simp: waits_def)
  then show ?thesis
    using frame_settled [OF assms(1), of cfg t "futex nd" nd]
      frame_unsettled [OF assms(1), of nd] by (auto simp: waits_def)
qed

lemma frame_bombing:
  assumes "frame v v'" and "bombing cfg t v c fin"
  shows "bombing cfg t v' c fin"
  using assms(2) frame_roles(3) [OF assms(1)] frame_fields(1) [OF assms(1)]
    frame_fin_ok(1) [OF assms(1)] unfolding bombing_def by blast

lemmas frame_rules = frame_roles frame_fields frame_private frame_settled frame_unsettled
  frame_waits frame_bombing

lemma local_frame: "local cfg t v k \<Longrightarrow> frame v v' \<Longrightarrow> local cfg t v' k"
proof (induction k)
  case (StoreNext p)
  then show ?case by (auto simp: frame_def unsettled_def same_word_Some split: if_splits)
next
  case WaitReload
  then show ?case by (auto dest: frame_settled)
next
  case (Dispatch w)
  then show ?case by (auto dest: frame_settled)
next
  case (BombWake c n fin)
  then show ?case by (auto simp: frame_bombing frame_fields) (auto simp: bombing_def frame_roles)
qed (auto simp: frame_roles frame_fields frame_private frame_waits frame_bombing)

subsection \<open>Waiting threads\<close>

text \<open>
  A thread that is queued behind a leader, or whose wake-up is owed by another thread, is in the
  waiting loop: its assertion is \<open>waits\<close> for the word it has seen.
\<close>

definition dormant :: "tid \<Rightarrow> ('d, 'r, 'p) view \<Rightarrow> bool" where
  "dormant t v \<longleftrightarrow> \<not> vld v \<and> (vinq v \<or> (\<exists>w b. vcr v = Some (w, b) \<and> w \<noteq> t))"

lemma local_queued: "local cfg t v k \<Longrightarrow> vinq v \<Longrightarrow> vcr v = None \<and> vdb v = None"
  by (induction k) (auto simp: role_defs split: if_splits)

lemma local_dormant:
  assumes "local cfg t v k" and "dormant t v" and "\<forall>p. k \<noteq> StoreNext p"
  shows "\<exists>w nd. vN v = Some nd \<and> futex nd = w \<and> unsettled v \<and>
    (\<forall>v'. waits cfg t v' w \<longrightarrow> local cfg t v' k)"
  using assms
proof (induction k)
  case (WakeSyscall a k)
  then show ?case by (cases k) auto
qed (auto simp: dormant_def role_defs split: if_splits)

lemma dormant_settle:
  assumes "local cfg t v k" and "dormant t v" and "\<forall>p. k \<noteq> StoreNext p"
    and "vN v' = Some nd'" and "settled cfg t v' (futex nd')"
  shows "local cfg t v' k"
  using local_dormant [OF assms(1-3)] assms(4,5) by (auto simp: waits_def)

lemma dormant_keep:
  assumes "local cfg t v k" and "dormant t v" and "\<forall>p. k \<noteq> StoreNext p"
    and "same_word (vN v) (vN v')" and "unsettled v'"
  shows "local cfg t v' k"
  using local_dormant [OF assms(1-3)] assms(4,5) by (auto simp: waits_def same_word_Some)

subsection \<open>The links of the queue\<close>

lemma linked_cong:
  "\<forall>x \<in> set q. nx' x = nx x \<Longrightarrow> \<forall>x \<in> set (List.tl q). ln' x = ln x \<Longrightarrow>
    linked nx' ln' q = linked nx ln q"
  by (induction nx ln q rule: linked.induct) auto

lemma linked_tl: "linked nx ln q \<Longrightarrow> linked nx ln (List.tl q)"
  by (induction nx ln q rule: linked.induct) auto

lemma linked_last: "linked nx ln q \<Longrightarrow> q \<noteq> [] \<Longrightarrow> nx (last q) = None"
  by (induction nx ln q rule: linked.induct) auto

lemma linked_snoc:
  "linked nx ln q \<Longrightarrow> q \<noteq> [] \<Longrightarrow> x \<notin> set q \<Longrightarrow> nx x = None \<Longrightarrow>
    linked nx (ln(x := Some (last q))) (q @ [x])"
  by (induction nx ln q rule: linked.induct) auto

lemma linked_second:
  assumes "linked nx ln q" and "q \<noteq> []" and "nx (hd q) = Some n"
  shows "2 \<le> length q \<and> q ! 1 = n \<and> ln n = None \<and> hd (List.tl q) = n \<and> List.tl q \<noteq> []"
  using assms by (cases "(nx, ln, q)" rule: linked.cases) auto

lemma linked_pending:
  assumes "linked nx ln q" and "x \<in> set (List.tl q)" and "ln x = Some p"
  shows "p \<in> set q \<and> nx p = None"
  using assms by (induction nx ln q rule: linked.induct) auto

lemma linked_store:
  assumes "linked nx ln q" and "distinct q" and "x \<in> set (List.tl q)" and "ln x = Some p"
  shows "linked (nx(p := Some x)) (ln(x := None)) q"
  using assms
proof (induction nx ln q rule: linked.induct)
  case (3 nx ln a b q)
  show ?case
  proof (cases "x = b")
    case True
    then have "linked (nx(p := Some x)) (ln(x := None)) (b # q) = linked nx ln (b # q)"
      using 3 by (intro linked_cong) auto
    with True 3 show ?thesis by (auto simp: fun_upd_def)
  next
    case False
    with 3 have "x \<in> set q" "x \<noteq> a" "x \<noteq> b" by auto
    moreover have "p \<noteq> a"
      using linked_pending [of nx ln "b # q" x p] 3 calculation by auto
    ultimately show ?thesis using 3 by (auto simp: fun_upd_def)
  qed
qed simp_all

lemma linking_simps [simp]:
  "pcs s t = StoreNext p \<Longrightarrow> linking s t = Some p"
  "\<forall>p. pcs s t \<noteq> StoreNext p \<Longrightarrow> linking s t = None"
  by (cases "pcs s t"; simp add: linking_def)+

lemma linking_None: "linking s t = None \<longleftrightarrow> (\<forall>p. pcs s t \<noteq> StoreNext p)"
  by (cases "pcs s t") (simp_all add: linking_def)

lemma next_of_simps [simp]:
  "next_of (goto t k s) = next_of s" "next_of (s\<lparr>raw := r\<rparr>) = next_of s"
  "next_of (s\<lparr>data := d\<rparr>) = next_of s"
  "next_of (put_node a nd s) = (next_of s)(a := nxt nd)"
  by (auto simp: next_of_def goto_def put_node_def)

lemma state_simps [simp]:
  "raw (goto t k s) = raw s" "data (goto t k s) = data s" "heap (goto t k s) = heap s"
  "pcs (goto t k s) = (pcs s)(t := k)"
  "raw (put_node a nd s) = raw s" "data (put_node a nd s) = data s"
  "heap (put_node a nd s) = (heap s)(a := Some nd)" "pcs (put_node a nd s) = pcs s"
  "raw (free_node a s) = raw s" "data (free_node a s) = data s"
  "heap (free_node a s) = (heap s)(a := None)" "pcs (free_node a s) = pcs s"
  by (simp_all add: goto_def put_node_def free_node_def)

end
