(* ===== verification/Lam_Steps.thy ===== *)
theory Lam_Steps
  imports Lam_Frame
begin

section \<open>Every step of the lock keeps the invariant\<close>

text \<open>
  One lemma per program counter: from the invariant, the step does not fault, and there is a ghost
  state after it in which the invariant holds, which the specification reaches by the step's
  events, and in which the queue, its leader and the debts have moved as the step says.
\<close>

subsection \<open>How the queue moves\<close>

definition same_queue :: "('d, 'r, 'p) ghost \<Rightarrow> ('d, 'r, 'p) ghost \<Rightarrow> bool" where
  "same_queue g g' \<longleftrightarrow> gq g' = gq g \<and> gL g' = gL g \<and> gO g' = gO g"

definition kept :: "('d, 'r, 'p) ghost \<Rightarrow> ('d, 'r, 'p) ghost \<Rightarrow> bool" where
  "kept g g' \<longleftrightarrow> same_queue g g' \<and> gH g' = gH g"

definition popped :: "tid \<Rightarrow> tid \<Rightarrow> ('d, 'r, 'p) ghost \<Rightarrow> ('d, 'r, 'p) ghost \<Rightarrow> bool" where
  "popped c n g g' \<longleftrightarrow>
     (\<exists>q. gq g = c # n # q \<and> gq g' = n # q) \<and> gL g' = gL g \<and> gO g' = gO g \<and> gH g' = gH g"

definition closed :: "tid \<Rightarrow> tid \<Rightarrow> bool \<Rightarrow> ('d, 'r, 'p) ghost \<Rightarrow> ('d, 'r, 'p) ghost \<Rightarrow> bool" where
  "closed t c b g g' \<longleftrightarrow>
     gq g = [c] \<and> gq g' = [] \<and> gL g' = None \<and> gO g' = (gO g)(c := Some (t, b)) \<and> gH g' = gH g"

definition handed :: "tid \<Rightarrow> tid \<Rightarrow> tid \<Rightarrow> ('d, 'r, 'p) ghost \<Rightarrow> ('d, 'r, 'p) ghost \<Rightarrow> bool" where
  "handed t c n g g' \<longleftrightarrow>
     (\<exists>q. gq g = c # n # q \<and> gq g' = n # q) \<and> gL g' = Some n \<and>
     gO g' = (gO g)(c := Some (t, True)) \<and> gH g' = Some n"

definition paid :: "tid \<Rightarrow> ('d, 'r, 'p) ghost \<Rightarrow> ('d, 'r, 'p) ghost \<Rightarrow> bool" where
  "paid c g g' \<longleftrightarrow>
     gq g' = gq g \<and> gL g' = gL g \<and> gO g' = (gO g)(c := None) \<and> gH g' = gH g"

fun moved ::
    "tid \<Rightarrow> ('d, 'r, 'p) pc \<Rightarrow> ('d, 'r, 'p) ghost \<Rightarrow> ('d, 'r, 'p) ghost \<Rightarrow> bool" where
  "moved t (TryAcquire f) g g' \<longleftrightarrow> same_queue g g' \<and> (gH g' = gH g \<or> gH g' = Some t)"
| "moved t Acquire g g' \<longleftrightarrow> same_queue g g' \<and> (gH g' = gH g \<or> gH g' = Some t)"
| "moved t (FastUnlock ret) g g' \<longleftrightarrow> same_queue g g' \<and> gH g' = None"
| "moved t Release g g' \<longleftrightarrow> same_queue g g' \<and> gH g' = None"
| "moved t (BombPoison c fin) g g' \<longleftrightarrow> same_queue g g' \<and> gH g' = None"
| "moved t SwapTail g g' \<longleftrightarrow>
     gq g' = gq g @ [t] \<and> gL g' = (if gq g = [] then Some t else gL g) \<and> gO g' = gO g \<and>
     gH g' = gH g"
| "moved t (WakeDone c n) g g' \<longleftrightarrow> popped c n g g'"
| "moved t (BombWake c n fin) g g' \<longleftrightarrow> popped c n g g'"
| "moved t (TryClose c) g g' \<longleftrightarrow> kept g g' \<or> closed t c True g g'"
| "moved t (BombClose c fin) g g' \<longleftrightarrow> kept g g' \<or> closed t c False g g'"
| "moved t (HandHead c n) g g' \<longleftrightarrow> handed t c n g g'"
| "moved t (CloseDone c) g g' \<longleftrightarrow> paid c g g'"
| "moved t (HandDone c) g g' \<longleftrightarrow> paid c g g'"
| "moved t (BombLast c fin) g g' \<longleftrightarrow> paid c g g'"
| "moved t k g g' \<longleftrightarrow> kept g g'"

lemmas [simp] = kept_def same_queue_def

definition step_ok ::
    "feature \<Rightarrow> tid \<Rightarrow> ('d, 'r, 'p) pc \<Rightarrow> ('d, 'r, 'p) ghost \<Rightarrow> ('d, 'r, 'p) step_result \<Rightarrow> bool" where
  "step_ok cfg t k g res \<longleftrightarrow>
     (case res of
        Next s' es \<Rightarrow>
          \<exists>g'. inv cfg s' g' \<and> spec_run cfg es (gspec g) = Some (gspec g') \<and> moved t k g g'
      | Blocked \<Rightarrow> True
      | Fault \<Rightarrow> False)"

lemma step_ok_Next:
  "inv cfg s' g' \<Longrightarrow> spec_run cfg es (gspec g) = Some (gspec g') \<Longrightarrow> moved t k g g' \<Longrightarrow>
    step_ok cfg t k g (Next s' es)"
  by (auto simp: step_ok_def)

lemma step_ok_silent:
  "inv cfg s' g' \<Longrightarrow> gspec g' = gspec g \<Longrightarrow> moved t k g g' \<Longrightarrow> step_ok cfg t k g (Next s' [])"
  by (auto simp: step_ok_def)

lemma step_ok_Blocked [simp]: "step_ok cfg t k g Blocked"
  by (simp add: step_ok_def)

subsection \<open>General rules\<close>

lemma inv_parts:
  assumes "inv cfg s g"
  shows "queue_inv cfg s g" and "lock_inv cfg s g" and "debt_inv cfg s g" and "spec_inv s g"
    and "local cfg t (view_of s g t) (pcs s t)"
  using assms by (auto simp: inv_def)

lemma inv_stepI:
  assumes "inv cfg s g"
    and "queue_inv cfg s' g'" and "lock_inv cfg s' g'" and "debt_inv cfg s' g'" and "spec_inv s' g'"
    and "local cfg t (view_of s' g' t) (pcs s' t)"
    and "\<And>u. u \<noteq> t \<Longrightarrow> local cfg u (view_of s g u) (pcs s u) \<Longrightarrow>
      local cfg u (view_of s' g' u) (pcs s' u)"
  shows "inv cfg s' g'"
  unfolding inv_def using assms inv_parts(5) [OF assms(1)] by metis

lemma mem_tl: "x \<in> set (List.tl q) \<Longrightarrow> x \<in> set q"
  by (cases q) auto

lemma linking_cong: "pcs s' u = pcs s u \<Longrightarrow> linking s' u = linking s u"
  by (simp add: linking_def)

lemma linking_goto:
  assumes "linking s t = None" and "\<forall>p. k \<noteq> StoreNext p" and "pcs s' = (pcs s)(t := k)"
  shows "linking s' = linking s"
proof
  fix u
  show "linking s' u = linking s u"
    using assms by (cases "u = t") (auto simp: linking_None intro: linking_cong)
qed

lemma at_stage_node: "at_stage cfg z N ph \<Longrightarrow> \<exists>nd. N = Some nd"
  by (cases z) (auto simp: stage_defs)

lemma queue_frame:
  assumes "queue_inv cfg s g"
    and "gq g' = gq g" and "gL g' = gL g" and "gZ g' = gZ g" and "tail (raw s') = tail (raw s)"
    and "\<forall>c \<in> set (gq g). same_task (heap s c) (heap s' c) \<and> next_of s' c = next_of s c \<and>
      phase (gspec g') c = phase (gspec g) c \<and> linking s' c = linking s c"
  shows "queue_inv cfg s' g'"
proof -
  have "linked (next_of s') (linking s') (gq g) = linked (next_of s) (linking s) (gq g)"
    using assms(6) by (intro linked_cong) (auto dest: mem_tl)
  moreover have "gq g \<noteq> [] \<longrightarrow> at_stage cfg (gZ g) (heap s' (hd (gq g))) (phase (gspec g) (hd (gq g))) =
      at_stage cfg (gZ g) (heap s (hd (gq g))) (phase (gspec g) (hd (gq g)))"
    using assms(6) by (auto intro!: same_task_at_stage)
  moreover have "\<forall>c \<in> set (List.tl (gq g)). unexec (heap s' c) (phase (gspec g) c) =
      unexec (heap s c) (phase (gspec g) c)"
    using assms(6) by (auto intro!: same_task_stages(1) dest: mem_tl)
  moreover have "\<forall>c \<in> set (List.tl (gq g)). c \<in> set (gq g)"
    by (auto dest: mem_tl)
  ultimately show ?thesis
    using assms by (simp add: queue_inv_def)
qed

lemma debt_frame:
  assumes "debt_inv cfg s g" and "gO g' = gO g" and "gD g' = gD g"
    and "\<forall>c. gO g c \<noteq> None \<longrightarrow>
      same_task (heap s c) (heap s' c) \<and> phase (gspec g') c = phase (gspec g) c"
  shows "debt_inv cfg s' g'"
proof -
  have "at_stage cfg z (heap s' c) (phase (gspec g') c) = at_stage cfg z (heap s c) (phase (gspec g) c)"
    if "gO g c = Some x" for c x z
    using assms(4) that by (simp add: same_task_at_stage)
  note same = this
  note d = assms(1) [unfolded debt_inv_def]
  have "at_stage cfg (if k then Did else Bad) (heap s' c) (phase (gspec g') c)"
    if "gO g c = Some (w, k)" for c w k
    unfolding same [OF that] using d that by blast
  then show ?thesis
    unfolding debt_inv_def assms(2,3) using d by blast
qed

lemma inv_goto:
  assumes "inv cfg s g" and "\<forall>p. pcs s t \<noteq> StoreNext p" and "\<forall>p. k \<noteq> StoreNext p"
    and "local cfg t (view_of s g t) k"
  shows "inv cfg (goto t k s) g"
proof (rule inv_stepI [OF assms(1)])
  show "queue_inv cfg (goto t k s) g"
    using assms(2,3) by (intro queue_frame [OF inv_parts(1) [OF assms(1)]])
      (auto simp: next_of_def linking_None linking_goto [of s t k])
  show "lock_inv cfg (goto t k s) g" "spec_inv (goto t k s) g"
    using inv_parts [OF assms(1)] by (simp_all add: lock_inv_def spec_inv_def)
  show "debt_inv cfg (goto t k s) g"
    by (rule debt_frame [OF inv_parts(3) [OF assms(1)]]) simp_all
  show "local cfg t (view_of (goto t k s) g t) (pcs (goto t k s) t)"
    using assms(4) by (simp add: view_of_def)
next
  fix u
  assume "u \<noteq> t" "local cfg u (view_of s g u) (pcs s u)"
  then show "local cfg u (view_of (goto t k s) g u) (pcs (goto t k s) u)"
    by (simp add: view_of_def)
qed

lemma step_ok_goto:
  assumes "inv cfg s g" and "pcs s t = k0" and "\<forall>p. k0 \<noteq> StoreNext p" and "\<forall>p. k \<noteq> StoreNext p"
    and "local cfg t (view_of s g t) k" and "moved t k0 g g"
  shows "step_ok cfg t k0 g (Next (goto t k s) [])"
  by (rule step_ok_silent [OF inv_goto]) (use assms in auto)

text \<open>The head of the queue, seen from its leader.\<close>

lemma leader_facts:
  assumes "inv cfg s g" and "gL g = Some t" and "hd (gq g) = c"
  shows "gq g = c # List.tl (gq g)" and "linking s c = None" and "c \<notin> set (List.tl (gq g))"
    and "at_stage cfg (gZ g) (heap s c) (phase (gspec g) c)"
    and "\<exists>nd. heap s c = Some nd"
    and "heap s c = Some nd \<Longrightarrow> next_of s (hd (gq g)) = nxt nd"
    and "next_of s (hd (gq g)) = Some n \<Longrightarrow> \<exists>q. gq g = c # n # q \<and> linking s n = None"
proof -
  note q = inv_parts(1) [OF assms(1), unfolded queue_inv_def]
  have ne: "gq g \<noteq> []" using q assms(2) by auto
  then show c: "gq g = c # List.tl (gq g)" using assms(3) by auto
  show "linking s c = None" using q ne assms(3) by auto
  show "c \<notin> set (List.tl (gq g))" using q c by (metis distinct.simps(2))
  show a: "at_stage cfg (gZ g) (heap s c) (phase (gspec g) c)" using q ne assms(3) by auto
  show "\<exists>nd. heap s c = Some nd" by (rule at_stage_node [OF a])
  show "next_of s (hd (gq g)) = nxt nd" if "heap s c = Some nd"
    using that assms(3) by (simp add: next_of_def)
  show "\<exists>q. gq g = c # n # q \<and> linking s n = None" if "next_of s (hd (gq g)) = Some n"
    using linked_second [of "next_of s" "linking s" "gq g" n] q ne that c
    by (metis list.collapse)
qed

end
