(* ===== verification/Lam_Wait.thy ===== *)
theory Lam_Wait
  imports Lam_Steps
begin

section \<open>Steps: entering, waiting and looking\<close>

text \<open>
  The steps that change nothing but the program counter, and the wake-up of a sleeping thread.
\<close>

subsection \<open>Steps that only move the program counter\<close>

lemma step_TryRun:
  assumes "inv cfg s g" and "pcs s t = TryRun f"
  shows "step_ok cfg t (TryRun f) g (step_pc cfg t s (TryRun f))"
  using inv_parts(5) [OF assms(1), of t] assms(2) by (auto intro: step_ok_goto [OF assms])

lemma step_Spin:
  assumes "inv cfg s g" and "pcs s t = Spin k"
  shows "step_ok cfg t (Spin k) g (step_pc cfg t s (Spin k))"
  using inv_parts(5) [OF assms(1), of t] assms(2)
  by (auto simp: access_def waits_def intro!: step_ok_goto [OF assms])

lemma step_FutexCheck:
  assumes "inv cfg s g" and "pcs s t = FutexCheck"
  shows "step_ok cfg t FutexCheck g (step_pc cfg t s FutexCheck)"
  using inv_parts(5) [OF assms(1), of t] assms(2)
  by (auto simp: access_def waits_def intro!: step_ok_goto [OF assms])

lemma step_FutexWait:
  assumes "inv cfg s g" and "pcs s t = FutexWait"
  shows "step_ok cfg t FutexWait g (step_pc cfg t s FutexWait)"
  using inv_parts(5) [OF assms(1), of t] assms(2)
  by (auto simp: access_def waits_def intro!: step_ok_goto [OF assms])

lemma step_WaitReload:
  assumes "inv cfg s g" and "pcs s t = WaitReload"
  shows "step_ok cfg t WaitReload g (step_pc cfg t s WaitReload)"
  using inv_parts(5) [OF assms(1), of t] assms(2)
  by (auto simp: access_def intro!: step_ok_goto [OF assms])

lemma step_Dispatch:
  assumes "inv cfg s g" and "pcs s t = Dispatch w"
  shows "step_ok cfg t (Dispatch w) g (step_pc cfg t s (Dispatch w))"
  using inv_parts(5) [OF assms(1), of t] assms
  by (auto simp: settled_def own_def intro!: step_ok_goto)

lemma step_AcquireSpin:
  assumes "inv cfg s g" and "pcs s t = AcquireSpin"
  shows "step_ok cfg t AcquireSpin g (step_pc cfg t s AcquireSpin)"
  using inv_parts(5) [OF assms(1), of t] assms(2) by (auto intro!: step_ok_goto [OF assms])

lemma step_LoadNext:
  assumes "inv cfg s g" and "pcs s t = LoadNext c"
  shows "step_ok cfg t (LoadNext c) g (step_pc cfg t s (LoadNext c))"
proof -
  have L: "leads (view_of s g t) Did c" "gH g = Some t" "own cfg t (view_of s g t) c"
    using inv_parts(5) [OF assms(1), of t] assms(2) by auto
  then have ld: "gL g = Some t" "hd (gq g) = c" by (auto simp: leads_def)
  show ?thesis
    using leader_facts(5,6) [OF assms(1) ld] L
    by (auto simp: access_def split: option.split intro!: step_ok_goto [OF assms])
qed

lemma step_HandLoad:
  assumes "inv cfg s g" and "pcs s t = HandLoad c"
  shows "step_ok cfg t (HandLoad c) g (step_pc cfg t s (HandLoad c))"
proof -
  have L: "leads (view_of s g t) Did c" "gH g = Some t" "own cfg t (view_of s g t) c"
    using inv_parts(5) [OF assms(1), of t] assms(2) by auto
  then have ld: "gL g = Some t" "hd (gq g) = c" by (auto simp: leads_def)
  show ?thesis
    using leader_facts(5,6) [OF assms(1) ld] L
    by (auto simp: access_def split: option.split intro!: step_ok_goto [OF assms])
qed

lemma step_HandAssert:
  assumes "inv cfg s g" and "pcs s t = HandAssert c"
  shows "step_ok cfg t (HandAssert c) g (step_pc cfg t s (HandAssert c))"
proof -
  have L: "leads (view_of s g t) Did c" "gH g = Some t" "own cfg t (view_of s g t) c"
    using inv_parts(5) [OF assms(1), of t] assms(2) by auto
  then have "gL g = Some t" by (auto simp: leads_def)
  then have "has_tail (raw s)"
    using inv_parts(1) [OF assms(1)] by (auto simp: queue_inv_def has_tail_def)
  with L show ?thesis by (auto intro!: step_ok_goto [OF assms])
qed

lemma step_BombLoad:
  assumes "inv cfg s g" and "pcs s t = BombLoad c fin"
  shows "step_ok cfg t (BombLoad c fin) g (step_pc cfg t s (BombLoad c fin))"
proof -
  have L: "bombing cfg t (view_of s g t) c fin" "gH g \<noteq> Some t" "status (raw s) = RAW_POISONED"
    using inv_parts(5) [OF assms(1), of t] assms(2) by auto
  then have ld: "gL g = Some t" "hd (gq g) = c" by (auto simp: leads_def bombing_def)
  show ?thesis
    using leader_facts(5,6) [OF assms(1) ld] L
    by (auto simp: access_def split: option.split intro!: step_ok_goto [OF assms])
qed

lemma step_BombSpin:
  assumes "inv cfg s g" and "pcs s t = BombSpin c fin"
  shows "step_ok cfg t (BombSpin c fin) g (step_pc cfg t s (BombSpin c fin))"
proof -
  have L: "bombing cfg t (view_of s g t) c fin" "gH g \<noteq> Some t" "status (raw s) = RAW_POISONED"
    using inv_parts(5) [OF assms(1), of t] assms(2) by auto
  then have ld: "gL g = Some t" "hd (gq g) = c" by (auto simp: leads_def bombing_def)
  show ?thesis
    using leader_facts(5) [OF assms(1) ld] L
    by (auto simp: access_def intro!: step_ok_goto [OF assms])
qed

lemma inv_wakeup:
  assumes "inv cfg s g" and "pcs s t = FutexSleep"
  shows "inv cfg (goto t FutexCheck s) g"
  using inv_parts(5) [OF assms(1), of t] assms(2) by (intro inv_goto [OF assms(1)]) auto

lemma step_WakeSyscall:
  assumes "inv cfg s g" and "pcs s t = WakeSyscall a k"
  shows "step_ok cfg t (WakeSyscall a k) g (step_pc cfg t s (WakeSyscall a k))"
proof -
  have L: "continues k" "local cfg t (view_of s g t) k"
    using inv_parts(5) [OF assms(1), of t] assms(2) by auto
  then have k: "\<forall>p. k \<noteq> StoreNext p" by auto
  show ?thesis
  proof (cases "pcs s a = FutexSleep")
    case True
    then have "inv cfg (goto t k (goto a FutexCheck s)) g"
      using assms(2) k L by (intro inv_goto inv_wakeup [OF assms(1)]) (auto simp: view_of_def)
    with True show ?thesis by (auto intro: step_ok_silent)
  next
    case False
    with L k show ?thesis by (auto intro!: step_ok_goto [OF assms])
  qed
qed

end
