(* ===== verification/Lam_Solo.thy ===== *)
theory Lam_Solo
  imports Lam_Wait
begin

section \<open>Steps outside the queue\<close>

text \<open>
  The steps of a thread that has no node in the queue: the direct path, the allocation and
  release of its node, and the return of the call.
\<close>

subsection \<open>A thread that is not in the queue\<close>

lemma inv_private:
  assumes "inv cfg s g" and "calm (view_of s g t)"
    and "pcs s' = (pcs s)(t := k)" and "\<forall>p. pcs s t \<noteq> StoreNext p" and "\<forall>p. k \<noteq> StoreNext p"
    and "\<forall>u. u \<noteq> t \<longrightarrow> heap s' u = heap s u" and "tail (raw s') = tail (raw s)"
    and "\<forall>u. u \<noteq> t \<longrightarrow> phase a u = phase (gspec g) u" and "await a = await (gspec g)"
    and "data s' = sdata a"
    and "lock_inv cfg s' (g\<lparr>gspec := a, gH := h\<rparr>)"
    and "\<forall>u. u \<noteq> t \<longrightarrow> (h = Some u \<longleftrightarrow> gH g = Some u)"
    and "status (raw s) = RAW_POISONED \<longrightarrow> status (raw s') = RAW_POISONED"
    and "\<forall>u. u \<noteq> t \<and> gH g = Some u \<longrightarrow> status (raw s') = status (raw s)"
    and "local cfg t (view_of s' (g\<lparr>gspec := a, gH := h\<rparr>) t) k"
  shows "inv cfg s' (g\<lparr>gspec := a, gH := h\<rparr>)"
proof (rule inv_stepI [OF assms(1)])
  let ?g = "g\<lparr>gspec := a, gH := h\<rparr>"
  have t: "t \<notin> set (gq g)" "gO g t = None" using assms(2) by (auto simp: calm_def)
  have ln: "linking s' = linking s"
    using linking_goto [of s t k s'] assms(3-5) by (simp add: linking_None)
  show "queue_inv cfg s' ?g"
    by (rule queue_frame [OF inv_parts(1) [OF assms(1)]])
      (use t assms(6-8) in \<open>auto simp: next_of_def ln\<close>)
  show "lock_inv cfg s' ?g" by (rule assms(11))
  have "\<forall>c. gO g c \<noteq> None \<longrightarrow> c \<noteq> t" using t(2) by auto
  then show "debt_inv cfg s' ?g"
    by (intro debt_frame [OF inv_parts(3) [OF assms(1)]]) (use assms(6,8) in auto)
  have "gq g \<noteq> [] \<longrightarrow> hd (gq g) \<noteq> t" using t(1) by auto
  then have "gq g \<noteq> [] \<longrightarrow> phase a (hd (gq g)) = phase (gspec g) (hd (gq g))"
    using assms(8) by simp
  then show "spec_inv s' ?g"
    using inv_parts(4) [OF assms(1)] assms(9,10) by (cases "gq g = []") (simp_all add: spec_inv_def)
  show "local cfg t (view_of s' ?g t) (pcs s' t)" using assms(3,15) by simp
  fix u
  assume u: "u \<noteq> t" "local cfg u (view_of s g u) (pcs s u)"
  have "gL g = Some u \<longrightarrow> hd (gq g) \<noteq> t"
    using inv_parts(1) [OF assms(1)] t(1) by (auto simp: queue_inv_def)
  then have "gL g = Some u \<longrightarrow> next_of s' (hd (gq g)) = next_of s (hd (gq g))"
    using assms(6) by (simp add: next_of_def)
  then have "frame (view_of s g u) (view_of s' ?g u)"
    using assms(6-8,12-14) u(1) by (simp add: frame_def)
  then show "local cfg u (view_of s' ?g u) (pcs s' u)"
    using u assms(3) by (auto intro: local_frame)
qed

lemma inv_call:
  assumes "inv cfg s g" and "pcs s t = Idle"
  shows "\<exists>g'. inv cfg (goto t (TryRun f) s) g' \<and>
    spec_run cfg [Call t f] (gspec g) = Some (gspec g') \<and> kept g g'"
proof -
  let ?a = "(gspec g)\<lparr>phase := (phase (gspec g))(t := Pending f)\<rparr>"
  have L: "idle (view_of s g t)" "heap s t = None" "phase (gspec g) t = Quiet"
    using inv_parts(5) [OF assms(1), of t] assms(2) by auto
  have "inv cfg (goto t (TryRun f) s) (g\<lparr>gspec := ?a, gH := gH g\<rparr>)"
    by (rule inv_private [OF assms(1), where t = t])
      (use L assms inv_parts(2,4) [OF assms(1)] in
        \<open>auto simp: idle_def calm_def lock_inv_def spec_inv_def\<close>)
  with L show ?thesis by (intro exI conjI) (assumption, simp_all)
qed

lemma step_TryAcquire:
  assumes "inv cfg s g" and "pcs s t = TryAcquire f"
  shows "step_ok cfg t (TryAcquire f) g (step_pc cfg t s (TryAcquire f))"
proof -
  have L: "idle (view_of s g t)" "heap s t = None" "phase (gspec g) t = Pending f"
    using inv_parts(5) [OF assms(1), of t] assms(2) by auto
  note K = inv_parts(2) [OF assms(1), unfolded lock_inv_def]
  have D: "data s = sdata (gspec g)"
    using inv_parts(4) [OF assms(1)] by (simp add: spec_inv_def)
  show ?thesis
  proof (cases "status (raw s) = UNLOCKED")
    case True
    then have "inv cfg (goto t (FastRun f) (s\<lparr>raw := (raw s)\<lparr>status := LOCKED\<rparr>\<rparr>))
        (g\<lparr>gspec := gspec g, gH := Some t\<rparr>)"
      by (intro inv_private [OF assms(1), where t = t])
        (use L K D assms in \<open>auto simp: idle_def calm_def lock_inv_def\<close>)
    with True show ?thesis by (simp add: try_acquire_def step_ok_silent)
  next
    case False
    have "s\<lparr>raw := raw s\<rparr> = s" by simp
    with False L assms show ?thesis
      by (auto simp: try_acquire_def intro!: step_ok_goto)
  qed
qed

lemma step_FastRun:
  assumes "inv cfg s g" and "pcs s t = FastRun f"
  shows "step_ok cfg t (FastRun f) g (step_pc cfg t s (FastRun f))"
proof -
  have L: "calm (view_of s g t)" "gH g = Some t" "heap s t = None" "phase (gspec g) t = Pending f"
    using inv_parts(5) [OF assms(1), of t] assms(2) by auto
  obtain d out where f: "f (data s) = (d, out)" by fastforce
  let ?a = "(gspec g)\<lparr>sdata := d, phase := (phase (gspec g))(t := Finished out)\<rparr>"
  have A: "t \<notin> set (await (gspec g))" "data s = sdata (gspec g)"
    using inv_parts(4) [OF assms(1)] L(1)
    by (auto simp: spec_inv_def calm_def dest: mem_tl split: if_splits)
  have "inv cfg (goto t (FastUnlock (ret_of out)) (s\<lparr>data := d\<rparr>))
      (g\<lparr>gspec := ?a, gH := gH g\<rparr>)"
    by (rule inv_private [OF assms(1), where t = t])
      (use L assms inv_parts(2) [OF assms(1)] in \<open>auto simp: calm_def lock_inv_def\<close>)
  moreover have "spec_run cfg [Exec t] (gspec g) = Some ?a"
    using L A f by (simp add: remove1_idem)
  ultimately show ?thesis using f by (auto intro!: step_ok_Next)
qed

lemma step_FastUnlock:
  assumes "inv cfg s g" and "pcs s t = FastUnlock ret"
  shows "step_ok cfg t (FastUnlock ret) g (step_pc cfg t s (FastUnlock ret))"
proof -
  have L: "calm (view_of s g t)" "gH g = Some t" "heap s t = None"
    "\<exists>out. phase (gspec g) t = Finished out \<and> ret = ret_of out"
    using inv_parts(5) [OF assms(1), of t] assms(2) by auto
  have K: "status (raw s) = LOCKED" "data s = sdata (gspec g)"
    using inv_parts(2,4) [OF assms(1)] L(2) by (auto simp: lock_inv_def spec_inv_def)
  have "inv cfg (goto t (Returning ret) (s\<lparr>raw := raw_release (raw s)\<rparr>))
      (g\<lparr>gspec := gspec g, gH := None\<rparr>)"
    by (rule inv_private [OF assms(1), where t = t])
      (use L K assms in \<open>auto simp: idle_def calm_def lock_inv_def raw_release_def\<close>)
  then show ?thesis by (simp add: step_ok_silent)
qed

lemma step_SlowNew:
  assumes "inv cfg s g" and "pcs s t = SlowNew f"
  shows "step_ok cfg t (SlowNew f) g (step_pc cfg t s (SlowNew f))"
proof -
  have L: "idle (view_of s g t)" "heap s t = None" "phase (gspec g) t = Pending f"
    using inv_parts(5) [OF assms(1), of t] assms(2) by auto
  have "inv cfg (goto t SwapTail (put_node t (node_new f) s)) (g\<lparr>gspec := gspec g, gH := gH g\<rparr>)"
    by (rule inv_private [OF assms(1), where t = t])
      (use L assms inv_parts(2,4) [OF assms(1)] in
        \<open>auto simp: idle_def calm_def lock_inv_def spec_inv_def unexec_def node_new_def\<close>)
  then show ?thesis by (simp add: step_ok_silent)
qed

lemma step_Release:
  assumes "inv cfg s g" and "pcs s t = Release"
  shows "step_ok cfg t Release g (step_pc cfg t s Release)"
proof -
  have L: "calm (view_of s g t)" "gH g = Some t" "did cfg (heap s t) (phase (gspec g) t)"
    using inv_parts(5) [OF assms(1), of t] assms(2) by auto
  have K: "status (raw s) = LOCKED" "data s = sdata (gspec g)"
    using inv_parts(2,4) [OF assms(1)] L(2) by (auto simp: lock_inv_def spec_inv_def)
  have "inv cfg (goto t AttachOk (s\<lparr>raw := raw_release (raw s)\<rparr>))
      (g\<lparr>gspec := gspec g, gH := None\<rparr>)"
    by (rule inv_private [OF assms(1), where t = t])
      (use L K assms in \<open>auto simp: idle_def calm_def lock_inv_def raw_release_def\<close>)
  then show ?thesis by (simp add: step_ok_silent)
qed

text \<open>The end of a call frees the node.\<close>

lemma inv_free:
  assumes "inv cfg s g" and "idle (view_of s g t)" and "\<forall>p. pcs s t \<noteq> StoreNext p"
    and "allowed cfg (phase (gspec g) t) ret"
  shows "inv cfg (goto t (Returning ret) (free_node t s)) g"
proof -
  have "inv cfg (goto t (Returning ret) (free_node t s)) (g\<lparr>gspec := gspec g, gH := gH g\<rparr>)"
    by (rule inv_private [OF assms(1), where t = t and k = "Returning ret"])
      (use assms inv_parts(2,4) [OF assms(1)] in
        \<open>auto simp: idle_def calm_def lock_inv_def spec_inv_def\<close>)
  then show ?thesis by simp
qed

lemma step_AttachOk:
  assumes "inv cfg s g" and "pcs s t = AttachOk"
  shows "step_ok cfg t AttachOk g (step_pc cfg t s AttachOk)"
  using inv_parts(5) [OF assms(1), of t] assms
  by (auto simp: access_def did_def intro!: step_ok_silent inv_free)

lemma step_AttachErr:
  assumes "inv cfg s g" and "pcs s t = AttachErr"
  shows "step_ok cfg t AttachErr g (step_pc cfg t s AttachErr)"
  using inv_parts(5) [OF assms(1), of t] assms
  by (auto simp: access_def unexec_def pan_def intro!: step_ok_silent inv_free)

lemma step_Unwinding:
  assumes "inv cfg s g" and "pcs s t = Unwinding p"
  shows "step_ok cfg t (Unwinding p) g (step_pc cfg t s (Unwinding p))"
  using inv_parts(5) [OF assms(1), of t] assms
  by (auto simp: access_def did_def pan_def intro!: step_ok_silent inv_free)

lemma step_Returning:
  assumes "inv cfg s g" and "pcs s t = Returning ret"
  shows "step_ok cfg t (Returning ret) g (step_pc cfg t s (Returning ret))"
proof -
  let ?a = "(gspec g)\<lparr>phase := (phase (gspec g))(t := Quiet)\<rparr>"
  have L: "idle (view_of s g t)" "heap s t = None" "allowed cfg (phase (gspec g) t) ret"
    using inv_parts(5) [OF assms(1), of t] assms(2) by auto
  have "t \<notin> set (await (gspec g))"
    using inv_parts(4) [OF assms(1)] L(1)
    by (auto simp: spec_inv_def idle_def calm_def dest: mem_tl split: if_splits)
  moreover have "inv cfg (goto t Idle s) (g\<lparr>gspec := ?a, gH := gH g\<rparr>)"
    by (rule inv_private [OF assms(1), where t = t])
      (use L assms inv_parts(2,4) [OF assms(1)] in
        \<open>auto simp: idle_def calm_def lock_inv_def spec_inv_def\<close>)
  ultimately show ?thesis using L(3) by (auto intro!: step_ok_Next)
qed

end
