(* ===== verification/Lam_Queue.thy ===== *)
theory Lam_Queue
  imports Lam_Solo
begin

section \<open>Steps inside the queue\<close>

text \<open>
  A thread joins the queue in two steps, the swap of the tail and the store of its
  predecessor's link, and goes to sleep on its own futex word.
\<close>

subsection \<open>Joining\<close>

lemma queued_facts:
  assumes "inv cfg s g" and "c \<in> set (gq g)"
  shows "gO g c = None" and "gD g c = None" and "\<exists>nd. heap s c = Some nd"
proof -
  show "gO g c = None" "gD g c = None"
    using local_queued [OF inv_parts(5) [OF assms(1), of c]] assms(2) by auto
  note q = inv_parts(1) [OF assms(1), unfolded queue_inv_def]
  show "\<exists>nd. heap s c = Some nd"
  proof (cases "c = hd (gq g)")
    case True
    with q assms(2) show ?thesis by (auto intro!: at_stage_node)
  next
    case False
    then have "c \<in> set (List.tl (gq g))" using assms(2) by (cases "gq g") auto
    with q show ?thesis by (auto simp: unexec_def)
  qed
qed

lemma queued_dormant:
  assumes "inv cfg s g" and "c \<in> set (gq g)" and "gL g \<noteq> Some c"
  shows "dormant c (view_of s g c)"
  using assms(2,3) by (simp add: dormant_def)

lemma same_word_other:
  assumes "same_word (heap s u) (heap s' u)" and "u \<in> set (gq g)" and "gL g \<noteq> Some u"
    and "inv cfg s g"
    and "u \<in> set (gq g')" "gL g' \<noteq> Some u" "gH g' = Some u \<longleftrightarrow> gH g = Some u"
      "gO g' u = gO g u" "gD g' u = gD g u"
    and "status (raw s) = RAW_POISONED \<longrightarrow> status (raw s') = RAW_POISONED"
    and "gH g = Some u \<longrightarrow> status (raw s') = status (raw s)"
  shows "frame (view_of s g u) (view_of s' g' u)"
  using assms(1-3,5-11) queued_facts(2) [OF assms(4,2)] by (auto simp: frame_def)

lemma step_SwapTail:
  assumes "inv cfg s g" and "pcs s t = SwapTail"
  shows "step_ok cfg t SwapTail g (step_pc cfg t s SwapTail)"
proof -
  let ?q = "gq g" and ?a = "(gspec g)\<lparr>await := await (gspec g) @ [t]\<rparr>"
  have L: "idle (view_of s g t)" "unexec (heap s t) (phase (gspec g) t)"
    "\<exists>nd. heap s t = Some nd \<and> futex nd = WAITING \<and> nxt nd = None"
    using inv_parts(5) [OF assms(1), of t] assms(2) by auto
  then have t: "t \<notin> set ?q" "gO g t = None" "gD g t = None" "gL g \<noteq> Some t" "gH g \<noteq> Some t"
    by (auto simp: idle_def calm_def)
  have nx: "next_of s t = None" using L(3) by (auto simp: next_of_def)
  obtain f where f: "phase (gspec g) t = Pending f" using L(2) by (auto simp: unexec_def)
  note Q = inv_parts(1) [OF assms(1), unfolded queue_inv_def]
  note S = inv_parts(4) [OF assms(1), unfolded spec_inv_def]
  have aw: "t \<notin> set (await (gspec g))" using S t(1) by (auto dest: mem_tl)
  let ?k = "case tail (raw s) of Some p \<Rightarrow> StoreNext p | None \<Rightarrow> Acquire"
  define s' where "s' = goto t ?k (s\<lparr>raw := (raw s)\<lparr>tail := Some t\<rparr>\<rparr>)"
  have s': "heap s' = heap s" "raw s' = (raw s)\<lparr>tail := Some t\<rparr>" "data s' = data s"
    "pcs s' = (pcs s)(t := ?k)" by (simp_all add: s'_def)
  let ?g = "g\<lparr>gspec := ?a, gq := ?q @ [t], gL := (if ?q = [] then Some t else gL g),
    gZ := (if ?q = [] then Todo else gZ g)\<rparr>"
  have nx': "next_of s' = next_of s" by (auto simp: next_of_def s')
  have "linking s t = None" using assms(2) by simp
  have ln: "linking s' = (linking s)(t := (if ?q = [] then None else Some (last ?q)))"
  proof
    fix u
    show "linking s' u = ((linking s)(t := (if ?q = [] then None else Some (last ?q)))) u"
      using Q by (auto simp: linking_def s')
  qed
  have "inv cfg s' ?g"
  proof (rule inv_stepI [OF assms(1)])
    have u: "unexec (heap s c) (phase (gspec g) c)" if "c \<in> set (List.tl (?q @ [t]))" for c
      using that Q L(2) by (cases ?q) auto
    have lk: "linked (next_of s) (linking s') (?q @ [t])"
      unfolding ln using Q t(1) nx linked_snoc [of "next_of s" "linking s" ?q t]
      by (cases "?q = []") auto
    have hd: "linking s' (hd (?q @ [t])) = None"
      unfolding ln using Q t(1) by (cases ?q) auto
    have st: "at_stage cfg (gZ ?g) (heap s (hd (?q @ [t]))) (phase (gspec g) (hd (?q @ [t])))"
      using Q L(2) by (cases ?q) auto
    show "queue_inv cfg s' ?g"
      using Q t(1) lk hd st u
      by (cases "gL g") (simp_all add: queue_inv_def nx' s' del: at_stage.simps)
    show "lock_inv cfg s' ?g" using inv_parts(2) [OF assms(1)] by (simp add: lock_inv_def s')
    show "debt_inv cfg s' ?g"
      by (rule debt_frame [OF inv_parts(3) [OF assms(1)]]) (simp_all add: s')
    show "spec_inv s' ?g"
      using S f by (cases ?q) (auto simp: spec_inv_def s')
    show "local cfg t (view_of s' ?g t) (pcs s' t)"
      using Q t L(3) by (cases ?q) (auto simp: leads_def unsettled_def s')
  next
    fix u
    assume u: "u \<noteq> t" "local cfg u (view_of s g u) (pcs s u)"
    have "frame (view_of s g u) (view_of s' ?g u)"
      using u(1) Q t by (cases ?q) (auto simp: frame_def nx' s')
    with u show "local cfg u (view_of s' ?g u) (pcs s' u)"
      by (auto intro: local_frame simp: s')
  qed
  moreover have "spec_run cfg [Enq t] (gspec g) = Some ?a" using f aw by simp
  ultimately show ?thesis by (simp add: swap_tail_def step_ok_Next s'_def)
qed

lemma step_StoreNext:
  assumes "inv cfg s g" and "pcs s t = StoreNext p"
  shows "step_ok cfg t (StoreNext p) g (step_pc cfg t s (StoreNext p))"
proof -
  let ?q = "gq g"
  note Q = inv_parts(1) [OF assms(1), unfolded queue_inv_def]
  have L: "t \<in> set ?q" "unsettled (view_of s g t)" "\<exists>nd. heap s t = Some nd \<and> futex nd = WAITING"
    using inv_parts(5) [OF assms(1), of t] assms(2) by auto
  have ln: "linking s t = Some p" using assms(2) by simp
  then have "t \<noteq> hd ?q" using Q L(1) by auto
  then have tt: "t \<in> set (List.tl ?q)" using L(1) by (cases ?q) auto
  then have p: "p \<in> set ?q" "next_of s p = None"
    using linked_pending Q ln by blast+
  obtain nd where nd: "heap s p = Some nd" using queued_facts(3) [OF assms(1) p(1)] by auto
  let ?s = "goto t (Spin 0) (put_node p (store_next nd t) s)"
  have nx': "next_of ?s = (next_of s)(p := Some t)" by (auto simp: next_of_def store_next_def)
  have ln': "linking ?s = (linking s)(t := None)" by (auto simp: linking_def)
  have sim: "similar (heap s c) (heap ?s c)" for c
    using nd by (auto simp: similar_Some store_next_def)
  have "inv cfg ?s g"
  proof (rule inv_stepI [OF assms(1)])
    have "linked (next_of ?s) (linking ?s) ?q"
      unfolding nx' ln' using Q tt ln by (intro linked_store) auto
    moreover have "at_stage cfg z (heap ?s c) ph = at_stage cfg z (heap s c) ph"
      "unexec (heap ?s c) ph = unexec (heap s c) ph" for z c ph
      using sim [of c] by (simp_all only: same_task_at_stage same_task_stages similar_same_task)
    ultimately show "queue_inv cfg ?s g"
      using Q ln' unfolding queue_inv_def by simp
    show "lock_inv cfg ?s g" "spec_inv ?s g"
      using inv_parts [OF assms(1)] by (simp_all add: lock_inv_def spec_inv_def)
    show "debt_inv cfg ?s g"
      by (rule debt_frame [OF inv_parts(3) [OF assms(1)]]) (use sim in \<open>simp_all add: similar_same_task del: state_simps\<close>)
    show "local cfg t (view_of ?s g t) (pcs ?s t)"
      using L sim [of t] by (auto simp: waits_def similar_Some unsettled_def)
  next
    fix u
    assume u: "u \<noteq> t" "local cfg u (view_of s g u) (pcs s u)"
    have "frame (view_of s g u) (view_of ?s g u)"
      using sim [of u] p nd by (auto simp: frame_def same_word_Some store_next_def)
    with u show "local cfg u (view_of ?s g u) (pcs ?s u)"
      by (auto intro: local_frame)
  qed
  then show ?thesis using nd by (simp add: access_def step_ok_silent)
qed

lemma step_WaitCas:
  assumes "inv cfg s g" and "pcs s t = WaitCas"
  shows "step_ok cfg t WaitCas g (step_pc cfg t s WaitCas)"
proof -
  obtain nd where nd: "heap s t = Some nd"
    "futex nd = WAITING \<and> unsettled (view_of s g t) \<or> settled cfg t (view_of s g t) (futex nd)"
    using inv_parts(5) [OF assms(1), of t] assms(2) by (auto simp: waits_def)
  show ?thesis
  proof (cases "futex nd = WAITING")
    case False
    have "put_node t nd s = s" using nd(1) by (simp add: put_node_def fun_upd_idem)
    with False nd show ?thesis
      by (auto simp: access_def futex_cas_def intro!: step_ok_goto [OF assms])
  next
    case True
    then have us: "unsettled (view_of s g t)" using nd(2) by (auto simp: settled_def)
    let ?s = "goto t FutexCheck (put_node t (nd\<lparr>futex := SLEEPING\<rparr>) s)"
    have sim: "same_task (heap s c) (heap ?s c)" for c
      using nd(1) by (cases "c = t") (auto simp: same_task_def)
    have "inv cfg ?s g"
    proof (rule inv_stepI [OF assms(1)])
      show "queue_inv cfg ?s g"
        by (rule queue_frame [OF inv_parts(1) [OF assms(1)]])
          (use sim nd assms linking_goto [of s t FutexCheck ?s] in \<open>auto simp: next_of_def\<close>)
      show "lock_inv cfg ?s g" "spec_inv ?s g"
        using inv_parts [OF assms(1)] by (simp_all add: lock_inv_def spec_inv_def)
      show "debt_inv cfg ?s g"
        by (rule debt_frame [OF inv_parts(3) [OF assms(1)]]) (use sim in auto)
      show "local cfg t (view_of ?s g t) (pcs ?s t)"
        using us by (auto simp: waits_def unsettled_def)
    next
      fix u
      assume u: "u \<noteq> t" "local cfg u (view_of s g u) (pcs s u)"
      then have "frame (view_of s g u) (view_of ?s g u)"
        using nd(1) by (auto simp: frame_def next_of_def)
      with u show "local cfg u (view_of ?s g u) (pcs ?s u)"
        by (auto intro: local_frame)
    qed
    with True nd show ?thesis by (simp add: access_def futex_cas_def step_ok_silent)
  qed
qed

end
