(* ===== verification/Lam_Combine.thy ===== *)
theory Lam_Combine
  imports Lam_Queue
begin

section \<open>Steps of the leader: running and cancelling tasks\<close>

text \<open>
  The leader runs the task of the node at the head (or, without \<open>std\<close>, starts to
  cancel the queue): the steps that leave the queue as it is.
\<close>

subsection \<open>Steps that keep the queue\<close>

lemma inv_head:
  assumes "inv cfg s g" and "gL g = Some t" and "hd (gq g) = c"
    and "\<forall>p. pcs s t \<noteq> StoreNext p" and "\<forall>p. k \<noteq> StoreNext p"
    and "pcs s' = (pcs s)(t := k)" and "\<forall>u. u \<noteq> c \<longrightarrow> heap s' u = heap s u"
    and "same_word (heap s c) (heap s' c)" and "next_of s' c = next_of s c"
    and "tail (raw s') = tail (raw s)"
    and "\<forall>u. u \<noteq> c \<longrightarrow> phase a u = phase (gspec g) u"
    and "at_stage cfg z (heap s' c) (phase a c)"
    and "lock_inv cfg s' (g\<lparr>gspec := a, gH := h, gZ := z\<rparr>)"
    and "spec_inv s' (g\<lparr>gspec := a, gH := h, gZ := z\<rparr>)"
    and "\<forall>u. u \<noteq> t \<longrightarrow> (h = Some u \<longleftrightarrow> gH g = Some u)"
    and "status (raw s) = RAW_POISONED \<longrightarrow> status (raw s') = RAW_POISONED"
    and "\<forall>u. u \<noteq> t \<and> gH g = Some u \<longrightarrow> status (raw s') = status (raw s)"
    and "local cfg t (view_of s' (g\<lparr>gspec := a, gH := h, gZ := z\<rparr>) t) k"
  shows "inv cfg s' (g\<lparr>gspec := a, gH := h, gZ := z\<rparr>)"
proof (rule inv_stepI [OF assms(1)])
  let ?g = "g\<lparr>gspec := a, gH := h, gZ := z\<rparr>"
  note L = leader_facts [OF assms(1-3)]
  have c: "c \<in> set (gq g)" by (subst L(1)) simp
  note cf = queued_facts [OF assms(1) c]
  have ln: "linking s' = linking s"
    using linking_goto [of s t k s'] assms(4-6) by (simp add: linking_None)
  have nx: "next_of s' = next_of s"
  proof
    fix u
    show "next_of s' u = next_of s u"
      using assms(7,9) by (cases "u = c") (auto simp: next_of_def)
  qed
  have tl: "unexec (heap s' u) (phase a u) = unexec (heap s u) (phase (gspec g) u)"
    if "u \<in> set (List.tl (gq g))" for u
    using that L(3) assms(7,11) by (metis)
  show "queue_inv cfg s' ?g"
    using inv_parts(1) [OF assms(1)] assms(3,10,12) tl unfolding queue_inv_def ln nx by simp
  show "lock_inv cfg s' ?g" "spec_inv s' ?g" by (rule assms(13,14))+
  have "\<forall>u. gO g u \<noteq> None \<longrightarrow> u \<noteq> c" using cf(1) by auto
  then show "debt_inv cfg s' ?g"
    by (intro debt_frame [OF inv_parts(3) [OF assms(1)]]) (use assms(7,11) in auto)
  show "local cfg t (view_of s' ?g t) (pcs s' t)" using assms(6,18) by simp
  fix u
  assume u: "u \<noteq> t" "local cfg u (view_of s g u) (pcs s u)"
  have "frame (view_of s g u) (view_of s' ?g u)"
    using assms(2,7,8,11,15-17) u(1) c cf by (cases "u = c") (simp_all add: frame_def)
  then show "local cfg u (view_of s' ?g u) (pcs s' u)"
    using u assms(6) by (auto intro: local_frame)
qed

text \<open>The specification's queue is the code's queue until the task at the head has run.\<close>

lemma await_head:
  assumes "inv cfg s g" and "gL g = Some t" and "hd (gq g) = c"
  shows "phase (gspec g) c = Pending f \<Longrightarrow> await (gspec g) = gq g"
    and "phase (gspec g) c = Finished out \<Longrightarrow> await (gspec g) = List.tl (gq g)"
    and "data s = sdata (gspec g)"
  using inv_parts(4) [OF assms(1)] leader_facts(1) [OF assms] assms(3)
  by (auto simp: spec_inv_def)

lemma step_Acquire:
  assumes "inv cfg s g" and "pcs s t = Acquire"
  shows "step_ok cfg t Acquire g (step_pc cfg t s Acquire)"
proof -
  have L: "leads (view_of s g t) Todo t" "t \<in> set (gq g)" "gH g \<noteq> Some t"
    using inv_parts(5) [OF assms(1), of t] assms(2) by auto
  then have ld: "gL g = Some t" "hd (gq g) = t" "gZ g = Todo" by (auto simp: leads_def)
  have st: "unexec (heap s t) (phase (gspec g) t)"
    using leader_facts(4) [OF assms(1) ld(1,2)] ld(3) by simp
  note K = inv_parts(2) [OF assms(1), unfolded lock_inv_def]
  note S = inv_parts(4) [OF assms(1), unfolded spec_inv_def]
  have raw_same: "s\<lparr>raw := raw s\<rparr> = s" by simp
  consider "status (raw s) = UNLOCKED" | "status (raw s) \<noteq> UNLOCKED" "cfg = NoStd \<and> status (raw s) = RAW_POISONED"
    | "status (raw s) \<noteq> UNLOCKED" "\<not> (cfg = NoStd \<and> status (raw s) = RAW_POISONED)" by auto
  then show ?thesis
  proof cases
    case 1
    have "inv cfg (goto t (Execute t) (s\<lparr>raw := (raw s)\<lparr>status := LOCKED\<rparr>\<rparr>))
        (g\<lparr>gspec := gspec g, gH := Some t, gZ := Todo\<rparr>)"
      by (rule inv_head [OF assms(1) ld(1,2)])
        (use 1 L K S st assms in \<open>auto simp: next_of_def lock_inv_def spec_inv_def leads_def own_def\<close>)
    with 1 show ?thesis by (simp add: try_acquire_def step_ok_silent)
  next
    case 2
    have "inv cfg (goto t (BombPoison t None) s) (g\<lparr>gspec := gspec g, gH := gH g, gZ := Bad\<rparr>)"
      by (rule inv_head [OF assms(1) ld(1,2), where k = "BombPoison t None"])
        (use 2 L K S st assms in
          \<open>auto simp: next_of_def lock_inv_def spec_inv_def bombing_def leads_def\<close>)
    with 2 show ?thesis by (simp add: try_acquire_def step_ok_silent raw_same)
  next
    case 3
    with L show ?thesis
      by (auto simp: try_acquire_def raw_same intro!: step_ok_goto [OF assms])
  qed
qed

lemma step_Execute:
  assumes "inv cfg s g" and "pcs s t = Execute c"
  shows "step_ok cfg t (Execute c) g (step_pc cfg t s (Execute c))"
proof -
  have L: "leads (view_of s g t) Todo c" "gH g = Some t" "own cfg t (view_of s g t) c"
    using inv_parts(5) [OF assms(1), of t] assms(2) by auto
  then have ld: "gL g = Some t" "hd (gq g) = c" "gZ g = Todo" by (auto simp: leads_def)
  obtain nd f where nd: "heap s c = Some nd" "closure nd = Some f" "\<not> started nd" "result nd = None"
    "phase (gspec g) c = Pending f"
    using leader_facts(4) [OF assms(1) ld(1,2)] ld(3) by (auto simp: unexec_def)
  note K = inv_parts(2) [OF assms(1), unfolded lock_inv_def]
  note S = inv_parts(4) [OF assms(1), unfolded spec_inv_def]
  let ?nd = "nd\<lparr>closure := None, started := (cfg = NoStd \<or> started nd)\<rparr>"
  have "inv cfg (goto t (Running c f) (put_node c ?nd s))
      (g\<lparr>gspec := gspec g, gH := gH g, gZ := Run f\<rparr>)"
    by (rule inv_head [OF assms(1) ld(1,2), where k = "Running c f"])
      (use L K S nd assms in
        \<open>auto simp: next_of_def lock_inv_def spec_inv_def leads_def own_def running_def same_word_Some\<close>)
  then show ?thesis using nd by (simp add: access_def step_ok_silent)
qed

lemma step_Running:
  assumes "inv cfg s g" and "pcs s t = Running c f"
  shows "step_ok cfg t (Running c f) g (step_pc cfg t s (Running c f))"
proof -
  have L: "leads (view_of s g t) (Run f) c" "gH g = Some t" "own cfg t (view_of s g t) c"
    using inv_parts(5) [OF assms(1), of t] assms(2) by auto
  then have ld: "gL g = Some t" "hd (gq g) = c" "gZ g = Run f" by (auto simp: leads_def)
  obtain nd where nd: "heap s c = Some nd" "closure nd = None" "cfg = NoStd \<longrightarrow> started nd"
    "result nd = None" "phase (gspec g) c = Pending f"
    using leader_facts(4) [OF assms(1) ld(1,2)] ld(3) by (auto simp: running_def)
  note K = inv_parts(2) [OF assms(1), unfolded lock_inv_def]
  note S = await_head [OF assms(1) ld(1,2)]
  note q = leader_facts(1,3) [OF assms(1) ld(1,2)]
  obtain d out where f: "f (data s) = (d, out)" by fastforce
  let ?a = "(gspec g)\<lparr>sdata := d, phase := (phase (gspec g))(c := Finished out),
    await := List.tl (gq g)\<rparr>"
  have ex: "spec_run cfg [Exec c] (gspec g) = Some ?a"
    using nd(5) S(1) [OF nd(5)] S(3) f ld(2) q(1) by (cases "gq g") auto
  show ?thesis
  proof (cases "cfg = NoStd \<and> (\<exists>p. out = Panic p)")
    case False
    let ?s = "goto t (LoadNext c) (put_node c (nd\<lparr>result := Some out\<rparr>) (s\<lparr>data := d\<rparr>))"
    have "inv cfg ?s (g\<lparr>gspec := ?a, gH := gH g, gZ := Did\<rparr>)"
    proof (rule inv_head [OF assms(1) ld(1,2), where k = "LoadNext c"])
      show "at_stage cfg Did (heap ?s c) (phase ?a c)"
        using nd False by (cases out) (auto simp: did_def)
    qed (use L K q ld nd False assms in
        \<open>auto simp: next_of_def lock_inv_def spec_inv_def leads_def own_def same_word_Some\<close>)
    with False show ?thesis
      using nd f ex by (cases out; cases cfg) (auto simp: access_def intro!: step_ok_Next)
  next
    case True
    then obtain p where p: "cfg = NoStd" "out = Panic p" by auto
    let ?s = "goto t (BombPoison c (Some p)) (s\<lparr>data := d\<rparr>)"
    have "inv cfg ?s (g\<lparr>gspec := ?a, gH := gH g, gZ := Bad\<rparr>)"
      by (rule inv_head [OF assms(1) ld(1,2), where k = "BombPoison c (Some p)"])
        (use L K q ld nd p assms in \<open>auto simp: next_of_def lock_inv_def spec_inv_def leads_def
          own_def bombing_def pan_def did_def\<close>)
    then show ?thesis
      using p f ex by (auto intro!: step_ok_Next)
  qed
qed

lemma step_BombPoison:
  assumes "inv cfg s g" and "pcs s t = BombPoison c fin"
  shows "step_ok cfg t (BombPoison c fin) g (step_pc cfg t s (BombPoison c fin))"
proof -
  have L: "bombing cfg t (view_of s g t) c fin" "gH g = Some t \<longleftrightarrow> fin \<noteq> None"
    "status (raw s) = RAW_POISONED \<longleftrightarrow> fin = None"
    using inv_parts(5) [OF assms(1), of t] assms(2) by auto
  then have ld: "gL g = Some t" "hd (gq g) = c" "gZ g = Bad" "cfg = NoStd"
    by (auto simp: leads_def bombing_def)
  note st = leader_facts(4) [OF assms(1) ld(1,2), unfolded ld(3)]
  note K = inv_parts(2) [OF assms(1), unfolded lock_inv_def]
  note S = inv_parts(4) [OF assms(1), unfolded spec_inv_def]
  have H: "gH g = None \<or> gH g = Some t" "fin = None \<longrightarrow> gH g = None"
    using K L by (cases fin; auto)+
  have "inv cfg (goto t (BombLoad c fin) (s\<lparr>raw := raw_poison (raw s)\<rparr>))
      (g\<lparr>gspec := gspec g, gH := None, gZ := Bad\<rparr>)"
    by (rule inv_head [OF assms(1) ld(1,2), where k = "BombLoad c fin"])
      (use L K S H ld st assms in
        \<open>auto simp: next_of_def lock_inv_def spec_inv_def bombing_def leads_def raw_poison_def\<close>)
  then show ?thesis by (simp add: step_ok_silent)
qed

end
