(* ===== verification/Lam_Dequeue.thy ===== *)
theory Lam_Dequeue
  imports Lam_Combine
begin

section \<open>Steps of the leader: taking nodes off the queue\<close>

text \<open>
  The leader takes a node off the queue, waking its owner at once or owing it the wake-up; the
  last node is removed by closing the queue.
\<close>

lemma local_wake:
  "continues k \<Longrightarrow> local cfg t v (if b then WakeSyscall a k else k) = local cfg t v k"
  by simp

lemma continues_not_store: "continues k \<Longrightarrow> k \<noteq> StoreNext p"
  by auto

lemma not_linking_pc: "linking s u = None \<Longrightarrow> \<forall>p. pcs s u \<noteq> StoreNext p"
  by (simp add: linking_None)

lemma queued_unsettled:
  assumes "inv cfg s g" and "c \<in> set (gq g)" and "gL g \<noteq> Some c" and "linking s c = None"
  shows "gH g \<noteq> Some c"
  using local_dormant [OF inv_parts(5) [OF assms(1)] queued_dormant [OF assms(1-3)]
      not_linking_pc [OF assms(4)]]
  by (auto simp: unsettled_def)

subsection \<open>The head is done and the leader goes on\<close>

definition settles :: "feature \<Rightarrow> ('d, 'r, 'p) node option \<Rightarrow> ('d, 'r, 'p) phase \<Rightarrow> nat \<Rightarrow> bool" where
  "settles cfg N ph w \<longleftrightarrow>
     w = DONE \<and> did cfg N ph \<or> w = NODE_POISONED \<and> cfg = NoStd \<and> fin_ok cfg None N ph"

lemma settles_settled: "settles cfg (vN v) (vph v) w \<Longrightarrow> idle v \<Longrightarrow> settled cfg t v w"
  by (auto simp: settles_def settled_def)

lemma same_task_wake: "heap s c = Some nd \<Longrightarrow> same_task (heap s c) (Some (nd\<lparr>futex := w\<rparr>))"
  by (simp add: same_task_def)

lemma inv_pop:
  assumes "inv cfg s g" and "gL g = Some t" and q: "gq g = c # n # q"
    and "\<forall>p. pcs s t \<noteq> StoreNext p" and "\<forall>p. k \<noteq> StoreNext p"
    and nd: "heap s c = Some nd" and "linking s n = None"
    and s': "heap s' = (heap s)(c := Some (nd\<lparr>futex := w\<rparr>))" "raw s' = raw s" "data s' = data s"
      "pcs s' = (pcs s)(t := k)"
    and a: "phase a = phase (gspec g)" "sdata a = sdata (gspec g)" "await a = n # q"
    and z: "z = Todo \<or> z = Bad"
    and w: "settles cfg (heap s c) (phase (gspec g) c) w"
    and own: "local cfg t (view_of s' (g\<lparr>gspec := a, gq := n # q, gZ := z\<rparr>) t) k"
  shows "inv cfg s' (g\<lparr>gspec := a, gq := n # q, gZ := z\<rparr>)"
proof (rule inv_stepI [OF assms(1)])
  let ?g = "g\<lparr>gspec := a, gq := n # q, gZ := z\<rparr>"
  note Q = inv_parts(1) [OF assms(1), unfolded queue_inv_def]
  have L: "linking s c = None" "c \<noteq> n" "c \<notin> set q" using Q q by auto
  have c: "c \<in> set (gq g)" using q by simp
  note cf = queued_facts [OF assms(1) c]
  have ln: "linking s' = linking s"
    using linking_goto [of s t k s'] assms(4,5) s'(4) by (simp add: linking_None)
  have nx: "next_of s' = next_of s" using nd by (auto simp: next_of_def s')
  have st: "same_task (heap s u) (heap s' u)" for u
    using same_task_wake [OF nd] by (cases "u = c") (auto simp: s')
  have un: "unexec (heap s' u) (phase (gspec g) u)" if "u \<in> set (n # q)" for u
    using Q q that same_task_stages(1) [OF st] by auto
  then have "at_stage cfg z (heap s' n) (phase (gspec g) n)" using z by auto
  then show "queue_inv cfg s' ?g"
    using Q q un a(1) assms(2,7) unfolding queue_inv_def ln nx s'(2)
    by (simp del: at_stage.simps)
  show "lock_inv cfg s' ?g" using inv_parts(2) [OF assms(1)] s' by (simp add: lock_inv_def)
  show "debt_inv cfg s' ?g"
    by (rule debt_frame [OF inv_parts(3) [OF assms(1)]]) (simp_all add: a st)
  show "spec_inv s' ?g"
    using un [of n] inv_parts(4) [OF assms(1)] a s'(3) by (auto simp: spec_inv_def unexec_def)
  show "local cfg t (view_of s' ?g t) (pcs s' t)" using own s'(4) by simp
  fix u
  assume u: "u \<noteq> t" "local cfg u (view_of s g u) (pcs s u)"
  show "local cfg u (view_of s' ?g u) (pcs s' u)"
  proof (cases "u = c")
    case False
    then have "frame (view_of s g u) (view_of s' ?g u)"
      using u(1) assms(2) q a by (auto simp: frame_def s')
    then show ?thesis using u s'(4) by (auto intro: local_frame)
  next
    case True
    have "idle (view_of s' ?g u)"
      using True u(1) L assms(2) cf queued_unsettled [OF assms(1) c _ L(1)]
      by (auto simp: idle_def calm_def)
    moreover have "settles cfg (heap s' u) (phase (gspec g) u) w"
      using w True same_task_stages [OF st] same_task_fin_ok [OF st]
      by (simp add: settles_def del: fin_ok.simps)
    ultimately have "settled cfg u (view_of s' ?g u) w"
      by (intro settles_settled) (simp_all add: a)
    with True u(1) have "local cfg u (view_of s' ?g u) (pcs s u)"
      using dormant_settle [OF u(2) queued_dormant [OF assms(1)]] c assms(2) not_linking_pc [OF L(1)]
      by (auto simp: s')
    then show ?thesis using u(1) s'(4) by simp
  qed
qed

lemma step_WakeDone:
  assumes "inv cfg s g" and "pcs s t = WakeDone c n"
  shows "step_ok cfg t (WakeDone c n) g (step_pc cfg t s (WakeDone c n))"
proof -
  have L: "leads (view_of s g t) Did c" "gH g = Some t" "own cfg t (view_of s g t) c"
    "next_of s (hd (gq g)) = Some n"
    using inv_parts(5) [OF assms(1), of t] assms(2) by auto
  then have ld: "gL g = Some t" "hd (gq g) = c" "gZ g = Did" by (auto simp: leads_def)
  obtain q where q: "gq g = c # n # q" "linking s n = None"
    using leader_facts(7) [OF assms(1) ld(1,2) L(4)] by blast
  note Q = inv_parts(1) [OF assms(1), unfolded queue_inv_def]
  obtain nd where nd: "heap s c = Some nd" using leader_facts(5) [OF assms(1) ld(1,2)] by auto
  have d: "did cfg (heap s c) (phase (gspec g) c)"
    using leader_facts(4) [OF assms(1) ld(1,2)] ld(3) by simp
  then obtain out where out: "phase (gspec g) c = Finished out" by (auto simp: did_def)
  note S = await_head(2) [OF assms(1) ld(1,2) out] await_head(3) [OF assms(1) ld(1,2)]
  let ?k = "if futex nd = SLEEPING then WakeSyscall c (Execute n) else Execute n"
  have "inv cfg (goto t ?k (put_node c (nd\<lparr>futex := DONE\<rparr>) s))
      (g\<lparr>gspec := gspec g, gq := n # q, gZ := Todo\<rparr>)"
    by (rule inv_pop [OF assms(1) ld(1) q(1), where w = DONE and k = ?k])
      (use L ld Q q nd d S assms in \<open>auto simp: settles_def leads_def own_def did_def\<close>)
  then show ?thesis
    using nd q(1) by (simp add: wake_def access_def futex_swap_def step_ok_silent popped_def)
qed

lemma step_BombWake:
  assumes "inv cfg s g" and "pcs s t = BombWake c n fin"
  shows "step_ok cfg t (BombWake c n fin) g (step_pc cfg t s (BombWake c n fin))"
proof -
  have L: "bombing cfg t (view_of s g t) c fin" "gH g \<noteq> Some t" "status (raw s) = RAW_POISONED"
    "next_of s (hd (gq g)) = Some n"
    using inv_parts(5) [OF assms(1), of t] assms(2) by auto
  then have ld: "gL g = Some t" "hd (gq g) = c" "gZ g = Bad" "cfg = NoStd"
    by (auto simp: leads_def bombing_def)
  obtain q where q: "gq g = c # n # q" "linking s n = None"
    using leader_facts(7) [OF assms(1) ld(1,2) L(4)] by blast
  note Q = inv_parts(1) [OF assms(1), unfolded queue_inv_def]
  obtain nd where nd: "heap s c = Some nd" using leader_facts(5) [OF assms(1) ld(1,2)] by auto
  have d: "at_stage cfg Bad (heap s c) (phase (gspec g) c)"
    using leader_facts(4) [OF assms(1) ld(1,2)] ld(3) by simp
  let ?k = "if futex nd = SLEEPING then WakeSyscall c (BombLoad n fin) else BombLoad n fin"
  let ?a = "(gspec g)\<lparr>await := n # q\<rparr>"
  have "inv cfg (goto t ?k (put_node c (nd\<lparr>futex := NODE_POISONED\<rparr>) s))
      (g\<lparr>gspec := ?a, gq := n # q, gZ := Bad\<rparr>)"
  proof (rule inv_pop [OF assms(1) ld(1) q(1), where w = NODE_POISONED and k = ?k])
    have "same_task (heap s t) (heap (put_node c (nd\<lparr>futex := NODE_POISONED\<rparr>) s) t)"
      using nd by (simp add: same_task_def split: option.split)
    from same_task_fin_ok [OF this] show "local cfg t (view_of (goto t ?k
        (put_node c (nd\<lparr>futex := NODE_POISONED\<rparr>) s)) (g\<lparr>gspec := ?a, gq := n # q, gZ := Bad\<rparr>) t) ?k"
      using L ld Q q by (auto simp: bombing_def leads_def simp del: fin_ok.simps)
  qed (use L ld Q q nd d assms inv_parts(4) [OF assms(1)] in \<open>auto simp: settles_def spec_inv_def\<close>)
  moreover have "spec_run cfg (cancel s c) (gspec g) = Some ?a"
  proof -
    from d nd consider "\<not> started nd" "\<exists>f. phase (gspec g) c = Pending f"
      | "started nd" "\<exists>out. phase (gspec g) c = Finished out"
      by (auto simp: unexec_def pan_def)
    then show ?thesis
    proof cases
      case 1
      then have "await (gspec g) = c # n # q" using await_head(1) [OF assms(1) ld(1,2)] q(1) by auto
      with 1 nd ld(4) show ?thesis by (simp add: cancel_def)
    next
      case 2
      then have "await (gspec g) = n # q" using await_head(2) [OF assms(1) ld(1,2)] q(1) by auto
      with 2 nd show ?thesis by (simp add: cancel_def)
    qed
  qed
  ultimately show ?thesis
    using nd q(1) by (auto simp: wake_def access_def futex_swap_def popped_def intro!: step_ok_Next)
qed

subsection \<open>The queue is closed, and the last wake-up owed\<close>

lemma inv_close:
  assumes "inv cfg s g" and "gL g = Some t" and q: "gq g = [c]"
    and "\<forall>p. pcs s t \<noteq> StoreNext p" and "\<forall>p. k \<noteq> StoreNext p"
    and s': "heap s' = heap s" "raw s' = (raw s)\<lparr>tail := None\<rparr>" "data s' = data s"
      "pcs s' = (pcs s)(t := k)"
    and a: "phase a = phase (gspec g)" "sdata a = sdata (gspec g)" "await a = []"
    and st: "at_stage cfg (if b then Did else Bad) (heap s c) (phase (gspec g) c)"
    and tn: "gO g t = None" "gD g t = None"
    and g': "g' = g\<lparr>gspec := a, gq := [], gL := None, gO := (gO g)(c := Some (t, b)),
      gD := (gD g)(t := Some (c, b))\<rparr>"
    and own: "local cfg t (view_of s' g' t) k"
  shows "inv cfg s' g'"
proof (rule inv_stepI [OF assms(1)])
  have c: "c \<in> set (gq g)" using q by simp
  note cf = queued_facts [OF assms(1) c]
  note D = inv_parts(3) [OF assms(1), unfolded debt_inv_def]
  have L: "linking s c = None" using inv_parts(1) [OF assms(1)] q by (auto simp: queue_inv_def)
  show "queue_inv cfg s' g'" by (simp add: queue_inv_def g' s')
  show "lock_inv cfg s' g'" using inv_parts(2) [OF assms(1)] by (simp add: lock_inv_def g' s')
  show "spec_inv s' g'" using inv_parts(4) [OF assms(1)] a by (simp add: spec_inv_def g' s')
  have "gD g w \<noteq> Some (c, e)" "gO g x \<noteq> Some (t, e)" for w x e
    using D cf(1) tn(2) by (metis option.distinct(1))+
  then have "gO g' x = Some (w, e) \<longleftrightarrow> gD g' w = Some (x, e)" for x w e
    using D cf(1) tn by (auto simp: g')
  moreover have "at_stage cfg (if e then Did else Bad) (heap s' x) (phase (gspec g') x)"
    if "gO g' x = Some (w, e)" for x w e
    using D st that by (cases "x = c") (auto simp: g' a s' simp del: at_stage.simps)
  ultimately show "debt_inv cfg s' g'" unfolding debt_inv_def by blast
  show "local cfg t (view_of s' g' t) (pcs s' t)" using own s'(4) by simp
  fix u
  assume u: "u \<noteq> t" "local cfg u (view_of s g u) (pcs s u)"
  show "local cfg u (view_of s' g' u) (pcs s' u)"
  proof (cases "u = c")
    case False
    then have "frame (view_of s g u) (view_of s' g' u)"
      using u(1) assms(2) q a by (auto simp: frame_def s' g')
    then show ?thesis using u s'(4) by (auto intro: local_frame)
  next
    case True
    then have "local cfg u (view_of s' g' u) (pcs s u)"
      using u(1) c assms(2) cf queued_unsettled [OF assms(1) c _ L] not_linking_pc [OF L]
      by (intro dormant_keep [OF u(2) queued_dormant [OF assms(1)]])
        (auto simp: s' g' unsettled_def)
    then show ?thesis using u(1) s'(4) by simp
  qed
qed

lemma tail_single:
  assumes "inv cfg s g" and "gL g = Some t" and "hd (gq g) = c" and "tail (raw s) = Some c"
  shows "gq g = [c]"
  using assms inv_parts(1) [OF assms(1)]
  by (cases "gq g") (auto simp: queue_inv_def dest: last_in_set split: if_splits)

lemma step_TryClose:
  assumes "inv cfg s g" and "pcs s t = TryClose c"
  shows "step_ok cfg t (TryClose c) g (step_pc cfg t s (TryClose c))"
proof -
  have L: "leads (view_of s g t) Did c" "gH g = Some t" "own cfg t (view_of s g t) c"
    using inv_parts(5) [OF assms(1), of t] assms(2) by auto
  then have ld: "gL g = Some t" "hd (gq g) = c" "gZ g = Did" "gO g t = None" "gD g t = None"
    by (auto simp: leads_def)
  have d: "did cfg (heap s c) (phase (gspec g) c)"
    using leader_facts(4) [OF assms(1) ld(1,2)] ld(3) by simp
  have dt: "did cfg (heap s t) (phase (gspec g) t)"
    using L(3) d by (cases "c = t") (auto simp: own_def)
  show ?thesis
  proof (cases "tail (raw s) = Some c")
    case False
    have "s\<lparr>raw := raw s\<rparr> = s" by simp
    with False L show ?thesis
      by (auto simp: try_close_def intro!: step_ok_goto [OF assms])
  next
    case True
    note q = tail_single [OF assms(1) ld(1,2) True]
    obtain out where out: "phase (gspec g) c = Finished out" using d by (auto simp: did_def)
    let ?s = "goto t (CloseDone c) (s\<lparr>raw := (raw s)\<lparr>tail := None\<rparr>\<rparr>)"
    let ?g = "g\<lparr>gspec := gspec g, gq := [], gL := None, gO := (gO g)(c := Some (t, True)),
      gD := (gD g)(t := Some (c, True))\<rparr>"
    have "inv cfg ?s ?g"
      by (rule inv_close [OF assms(1) ld(1) q, where k = "CloseDone c" and b = True])
        (use L ld q d dt assms await_head(2) [OF assms(1) ld(1,2) out] in
          \<open>auto simp: owing_def own_def\<close>)
    with True q show ?thesis by (simp add: try_close_def step_ok_silent closed_def)
  qed
qed

lemma step_BombClose:
  assumes "inv cfg s g" and "pcs s t = BombClose c fin"
  shows "step_ok cfg t (BombClose c fin) g (step_pc cfg t s (BombClose c fin))"
proof -
  have L: "bombing cfg t (view_of s g t) c fin" "gH g \<noteq> Some t" "status (raw s) = RAW_POISONED"
    using inv_parts(5) [OF assms(1), of t] assms(2) by auto
  then have ld: "gL g = Some t" "hd (gq g) = c" "gZ g = Bad" "gO g t = None" "gD g t = None"
    "cfg = NoStd"
    by (auto simp: leads_def bombing_def)
  have d: "at_stage cfg Bad (heap s c) (phase (gspec g) c)"
    using leader_facts(4) [OF assms(1) ld(1,2)] ld(3) by simp
  show ?thesis
  proof (cases "tail (raw s) = Some c")
    case False
    have "s\<lparr>raw := raw s\<rparr> = s" by simp
    with False L show ?thesis
      by (auto simp: try_close_def intro!: step_ok_goto [OF assms])
  next
    case True
    note q = tail_single [OF assms(1) ld(1,2) True]
    obtain nd where nd: "heap s c = Some nd" using leader_facts(5) [OF assms(1) ld(1,2)] by auto
    let ?a = "(gspec g)\<lparr>await := []\<rparr>"
    let ?s = "goto t (BombLast c fin) (s\<lparr>raw := (raw s)\<lparr>tail := None\<rparr>\<rparr>)"
    let ?g = "g\<lparr>gspec := ?a, gq := [], gL := None, gO := (gO g)(c := Some (t, False)),
      gD := (gD g)(t := Some (c, False))\<rparr>"
    have "inv cfg ?s ?g"
      by (rule inv_close [OF assms(1) ld(1) q, where k = "BombLast c fin" and b = False])
        (use L ld q d assms in \<open>auto simp: owing_def bombing_def simp del: fin_ok.simps\<close>)
    moreover have "spec_run cfg (cancel s c) (gspec g) = Some ?a"
    proof -
      from d nd consider "\<not> started nd" "\<exists>f. phase (gspec g) c = Pending f"
        | "started nd" "\<exists>out. phase (gspec g) c = Finished out"
        by (auto simp: unexec_def pan_def)
      then show ?thesis
      proof cases
        case 1
        then have "await (gspec g) = [c]" using await_head(1) [OF assms(1) ld(1,2)] q by auto
        with 1 nd ld(6) show ?thesis by (simp add: cancel_def)
      next
        case 2
        then have "await (gspec g) = []" using await_head(2) [OF assms(1) ld(1,2)] q by auto
        with 2 nd show ?thesis by (simp add: cancel_def)
      qed
    qed
    ultimately show ?thesis using True q by (auto simp: try_close_def closed_def intro!: step_ok_Next)
  qed
qed

end
