(* ===== verification/Lam_Debts.thy ===== *)
theory Lam_Debts
  imports Lam_Dequeue
begin

section \<open>Steps of the leader: handing over and paying the last wake-up\<close>

text \<open>
  The leader hands the lead to the next node or gives up the lock, and pays the wake-up it owes
  to a node that is no longer in the queue.
\<close>

lemma local_credit:
  assumes "local cfg t v k" and "vcr v = Some (w, b)" and "w \<noteq> t"
  shows "\<not> vinq v \<and> \<not> vld v \<and> \<not> vhl v \<and> vdb v = None \<and> (\<forall>p. k \<noteq> StoreNext p)"
  using assms
proof (induction k)
  case (WakeSyscall a k)
  then show ?case by (cases k) auto
qed (auto simp: role_defs split: if_splits)

lemma inv_pay:
  assumes "inv cfg s g" and db: "gD g t = Some (c, b)"
    and "\<forall>p. pcs s t \<noteq> StoreNext p" and "\<forall>p. k \<noteq> StoreNext p"
    and nq: "t \<notin> set (gq g)" "gL g \<noteq> Some t"
    and nd: "heap s c = Some nd"
    and s': "heap s' = (heap s)(c := Some (nd\<lparr>futex := w\<rparr>))" "raw s' = raw s" "data s' = data s"
      "pcs s' = (pcs s)(t := k)"
    and w: "settles cfg (heap s c) (phase (gspec g) c) w"
    and g': "g' = g\<lparr>gO := (gO g)(c := None), gD := (gD g)(t := None)\<rparr>"
    and own: "local cfg t (view_of s' g' t) k"
  shows "inv cfg s' g'"
proof (rule inv_stepI [OF assms(1)])
  note D = inv_parts(3) [OF assms(1), unfolded debt_inv_def]
  have cr: "gO g c = Some (t, b)" using D db by blast
  have lc: "c \<notin> set (gq g) \<and> gL g \<noteq> Some c \<and> (c \<noteq> t \<longrightarrow> gH g \<noteq> Some c \<and> gD g c = None \<and>
      (\<forall>p. pcs s c \<noteq> StoreNext p))"
    using local_credit [OF inv_parts(5) [OF assms(1), of c], of t b] cr nq by (cases "c = t") auto
  have ln: "linking s' = linking s"
    using linking_goto [of s t k s'] assms(3,4) s'(4) by (simp add: linking_None)
  have nx: "next_of s' = next_of s" using nd by (auto simp: next_of_def s')
  have st: "same_task (heap s u) (heap s' u)" for u
    using same_task_wake [OF nd] by (cases "u = c") (auto simp: s')
  show "queue_inv cfg s' g'"
    by (rule queue_frame [OF inv_parts(1) [OF assms(1)]]) (use st in \<open>simp_all add: g' s' ln nx\<close>)
  show "lock_inv cfg s' g'" using inv_parts(2) [OF assms(1)] by (simp add: lock_inv_def g' s')
  show "spec_inv s' g'" using inv_parts(4) [OF assms(1)] by (simp add: spec_inv_def g' s')
  have "gD g v \<noteq> Some (c, e)" if "v \<noteq> t" for v e
    using D cr that by (metis option.inject prod.inject)
  moreover have "gO g x \<noteq> Some (t, e)" if "x \<noteq> c" for x e
    using D db that by (metis option.inject prod.inject)
  ultimately have "gO g' x = Some (v, e) \<longleftrightarrow> gD g' v = Some (x, e)" for x v e
    using D by (auto simp: g')
  moreover have "at_stage cfg (if e then Did else Bad) (heap s' x) (phase (gspec g') x)"
    if "gO g' x = Some (v, e)" for x v e
  proof -
    have "gO g x = Some (v, e)" using that by (auto simp: g' split: if_splits)
    with D have "at_stage cfg (if e then Did else Bad) (heap s x) (phase (gspec g) x)" by blast
    then show ?thesis unfolding same_task_at_stage [OF st] by (simp add: g' del: at_stage.simps)
  qed
  ultimately show "debt_inv cfg s' g'" unfolding debt_inv_def by blast
  show "local cfg t (view_of s' g' t) (pcs s' t)" using own s'(4) by simp
  fix u
  assume u: "u \<noteq> t" "local cfg u (view_of s g u) (pcs s u)"
  show "local cfg u (view_of s' g' u) (pcs s' u)"
  proof (cases "u = c")
    case False
    then have "frame (view_of s g u) (view_of s' g' u)"
      using u(1) nx by (auto simp: frame_def s' g')
    then show ?thesis using u s'(4) by (auto intro: local_frame)
  next
    case True
    have "idle (view_of s' g' u)"
      using True u(1) lc by (auto simp: idle_def calm_def g')
    moreover have "settles cfg (heap s' u) (phase (gspec g) u) w"
      using w True same_task_stages [OF st] same_task_fin_ok [OF st]
      by (simp add: settles_def del: fin_ok.simps)
    ultimately have "settled cfg u (view_of s' g' u) w"
      by (intro settles_settled) (simp_all add: g')
    moreover have "dormant u (view_of s g u)"
      using True u(1) lc cr by (auto simp: dormant_def)
    ultimately have "local cfg u (view_of s' g' u) (pcs s u)"
      using True u(1) lc by (intro dormant_settle [OF u(2)]) (auto simp: s')
    then show ?thesis using u(1) s'(4) by simp
  qed
qed

text \<open>The three places where a debt is paid differ in the word and in what comes next.\<close>

lemma step_pay:
  assumes "inv cfg s g" and "pcs s t = k0" and "\<forall>p. k0 \<noteq> StoreNext p" and "continues k"
    and ow: "owing t (view_of s g t) c b"
    and w: "\<And>nd. heap s c = Some nd \<Longrightarrow> at_stage cfg (if b then Did else Bad) (heap s c) (phase (gspec g) c) \<Longrightarrow>
      settles cfg (heap s c) (phase (gspec g) c) w"
    and own: "\<And>v. idle v \<or> calm v \<and> vhl v \<Longrightarrow> vhl v = (gH g = Some t) \<Longrightarrow> vph v = phase (gspec g) t \<Longrightarrow>
      same_task (heap s t) (vN v) \<Longrightarrow> local cfg t v k"
    and pays: "\<And>g'. paid c g g' \<Longrightarrow> moved t k0 g g'"
  shows "step_ok cfg t k0 g (wake t s c w [] k)"
proof -
  have O: "gL g \<noteq> Some t" "t \<notin> set (gq g)" "gD g t = Some (c, b)"
    "gO g t = (if c = t then Some (t, b) else None)"
    using ow by (auto simp: owing_def)
  note D = inv_parts(3) [OF assms(1), unfolded debt_inv_def]
  have cr: "gO g c = Some (t, b)" using D O(3) by blast
  then have st: "at_stage cfg (if b then Did else Bad) (heap s c) (phase (gspec g) c)"
    using D by blast
  then obtain nd where nd: "heap s c = Some nd" using at_stage_node by blast
  let ?k = "if futex nd = SLEEPING then WakeSyscall c k else k"
  let ?s = "goto t ?k (put_node c (nd\<lparr>futex := w\<rparr>) s)"
  let ?g = "g\<lparr>gO := (gO g)(c := None), gD := (gD g)(t := None)\<rparr>"
  have "same_task (heap s t) (heap ?s t)"
    using same_task_wake [OF nd] by simp
  then have "local cfg t (view_of ?s ?g t) k"
    using O by (intro own) (auto simp: idle_def calm_def)
  then have "local cfg t (view_of ?s ?g t) ?k"
    using \<open>continues k\<close> by (simp only: local_wake)
  then have "inv cfg ?s ?g"
    using assms(2-4) by (intro inv_pay [OF assms(1) O(3) _ _ O(2,1) nd, where k = ?k and w = w])
      (auto simp: w [OF nd st])
  moreover have "moved t k0 g ?g" by (rule pays) (simp add: paid_def)
  ultimately show ?thesis
    using nd by (simp add: wake_def access_def futex_swap_def step_ok_silent)
qed

lemma step_CloseDone:
  assumes "inv cfg s g" and "pcs s t = CloseDone c"
  shows "step_ok cfg t (CloseDone c) g (step_pc cfg t s (CloseDone c))"
proof -
  have L: "owing t (view_of s g t) c True" "gH g = Some t" "did cfg (heap s t) (phase (gspec g) t)"
    using inv_parts(5) [OF assms(1), of t] assms(2) by auto
  show ?thesis
    unfolding step_pc.simps close_wake_def
    by (rule step_pay [OF assms _ _ L(1)])
      (use L(2,3) in \<open>auto simp: settles_def same_task_stages idle_def\<close>)
qed

lemma step_HandDone:
  assumes "inv cfg s g" and "pcs s t = HandDone c"
  shows "step_ok cfg t (HandDone c) g (step_pc cfg t s (HandDone c))"
proof -
  have L: "owing t (view_of s g t) c True" "gH g \<noteq> Some t" "did cfg (heap s t) (phase (gspec g) t)"
    using inv_parts(5) [OF assms(1), of t] assms(2) by auto
  show ?thesis
    unfolding step_pc.simps hand_done_def
    by (rule step_pay [OF assms _ _ L(1)])
      (use L(2,3) in \<open>auto simp: settles_def same_task_stages idle_def\<close>)
qed

lemma step_BombLast:
  assumes "inv cfg s g" and "pcs s t = BombLast c fin"
  shows "step_ok cfg t (BombLast c fin) g (step_pc cfg t s (BombLast c fin))"
proof -
  have L: "cfg = NoStd" "owing t (view_of s g t) c False" "gH g \<noteq> Some t"
    "fin_ok cfg fin (heap s t) (phase (gspec g) t)"
    using inv_parts(5) [OF assms(1), of t] assms(2) by auto
  show ?thesis
    unfolding step_pc.simps bomb_last_def
  proof (rule step_pay [OF assms _ _ L(2)])
    show "continues (bomb_end fin)" by (cases fin) auto
    show "local cfg t v (bomb_end fin)"
      if "idle v \<or> calm v \<and> vhl v" "vhl v = (gH g = Some t)" "vph v = phase (gspec g) t"
        "same_task (heap s t) (vN v)" for v
      using that L same_task_fin_ok [OF that(4)]
      by (cases fin) (simp_all add: idle_def del: fin_ok.simps)
  qed (use L(1) in \<open>auto simp: settles_def\<close>)
qed

subsection \<open>Handing the lock to the next combiner\<close>

lemma step_HandHead:
  assumes "inv cfg s g" and "pcs s t = HandHead c n"
  shows "step_ok cfg t (HandHead c n) g (step_pc cfg t s (HandHead c n))"
proof -
  have L: "leads (view_of s g t) Did c" "gH g = Some t" "own cfg t (view_of s g t) c"
    "next_of s (hd (gq g)) = Some n"
    using inv_parts(5) [OF assms(1), of t] assms(2) by auto
  then have ld: "gL g = Some t" "hd (gq g) = c" "gZ g = Did" "gO g t = None" "gD g t = None"
    by (auto simp: leads_def)
  obtain q where q: "gq g = c # n # q" "linking s n = None"
    using leader_facts(7) [OF assms(1) ld(1,2) L(4)] by blast
  note Q = inv_parts(1) [OF assms(1), unfolded queue_inv_def]
  note D = inv_parts(3) [OF assms(1), unfolded debt_inv_def]
  have c: "c \<in> set (gq g)" "n \<in> set (gq g)" using q by auto
  note cf = queued_facts [OF assms(1) c(1)] and nf = queued_facts [OF assms(1) c(2)]
  have d: "did cfg (heap s c) (phase (gspec g) c)"
    using leader_facts(4) [OF assms(1) ld(1,2)] ld(3) by simp
  then obtain out where out: "phase (gspec g) c = Finished out" by (auto simp: did_def)
  have dt: "did cfg (heap s t) (phase (gspec g) t)"
    using L(3) d by (cases "c = t") (auto simp: own_def)
  have tn: "t \<noteq> n" "t \<notin> set q" using L(3) Q q by (cases "c = t"; auto simp: own_def)+
  have cn: "c \<noteq> n" "c \<notin> set q" "n \<notin> set q" "linking s c = None" using Q q by auto
  obtain nd where nd: "heap s n = Some nd" using nf(3) by auto
  let ?k = "if futex nd = SLEEPING then WakeSyscall n (HandDone c) else HandDone c"
  define s' where "s' = goto t ?k (put_node n (nd\<lparr>futex := HEAD\<rparr>) s)"
  have s': "heap s' = (heap s)(n := Some (nd\<lparr>futex := HEAD\<rparr>))" "raw s' = raw s" "data s' = data s"
      "pcs s' = (pcs s)(t := ?k)" by (simp_all add: s'_def)
  define g' where "g' = g\<lparr>gq := n # q, gL := Some n, gH := Some n, gZ := Todo,
    gO := (gO g)(c := Some (t, True)), gD := (gD g)(t := Some (c, True))\<rparr>"
  have ln: "linking s' = linking s"
    using linking_goto [of s t ?k s'] assms(2) s'(4) by (simp add: linking_None)
  have nx: "next_of s' = next_of s" using nd by (auto simp: next_of_def s')
  have st: "same_task (heap s u) (heap s' u)" for u
    using same_task_wake [OF nd] by (cases "u = n") (auto simp: s')
  have un: "unexec (heap s' u) (phase (gspec g) u)" if "u \<in> set (n # q)" for u
    using Q q that same_task_stages(1) [OF st] by auto
  have "inv cfg s' g'"
  proof (rule inv_stepI [OF assms(1)])
    show "queue_inv cfg s' g'"
      using Q q un unfolding queue_inv_def ln nx s'(2) by (simp add: g'_def)
    show "lock_inv cfg s' g'"
      using inv_parts(2) [OF assms(1)] L(2) by (simp add: lock_inv_def g'_def s')
    show "spec_inv s' g'"
      using un [of n] await_head(2,3) [OF assms(1) ld(1,2)] out q(1)
      by (auto simp: spec_inv_def g'_def s' unexec_def)
    have "gD g w \<noteq> Some (c, e)" "gO g x \<noteq> Some (t, e)" for w x e
      using D cf(1) ld(5) by (metis option.distinct(1))+
    then have "gO g' x = Some (w, e) \<longleftrightarrow> gD g' w = Some (x, e)" for x w e
      using D cf(1) ld by (auto simp: g'_def)
    moreover have "at_stage cfg (if e then Did else Bad) (heap s' x) (phase (gspec g') x)"
      if "gO g' x = Some (w, e)" for x w e
      unfolding same_task_at_stage [OF st]
      using D d that by (cases "x = c") (auto simp: g'_def)
    ultimately show "debt_inv cfg s' g'" unfolding debt_inv_def by blast
    show "local cfg t (view_of s' g' t) (pcs s' t)"
      using tn dt L ld q Q by (auto simp: s' g'_def owing_def own_def)
  next
    fix u
    assume u: "u \<noteq> t" "local cfg u (view_of s g u) (pcs s u)"
    consider "u = c" | "u = n" | "u \<noteq> c" "u \<noteq> n" by auto
    then show "local cfg u (view_of s' g' u) (pcs s' u)"
    proof cases
      case 1
      then have "local cfg u (view_of s' g' u) (pcs s u)"
        using u(1) c cn ld cf queued_unsettled [OF assms(1) c(1) _ cn(4)] not_linking_pc [OF cn(4)]
        by (intro dormant_keep [OF u(2) queued_dormant [OF assms(1)]])
          (auto simp: s' g'_def unsettled_def)
      then show ?thesis using u(1) s'(4) by simp
    next
      case 2
      then have "local cfg u (view_of s' g' u) (pcs s u)"
        using u(1) c cn ld nf not_linking_pc [OF q(2)]
        by (intro dormant_settle [OF u(2) queued_dormant [OF assms(1)]])
          (auto simp: s' g'_def settled_def leads_def)
      then show ?thesis using u(1) s'(4) by simp
    next
      case 3
      then have "frame (view_of s g u) (view_of s' g' u)"
        using u(1) ld L(2) q by (auto simp: frame_def s' g'_def)
      then show ?thesis using u s'(4) by (auto intro: local_frame)
    qed
  qed
  then show ?thesis
    using nd q(1)
    by (simp add: wake_def access_def futex_swap_def step_ok_silent s'_def g'_def handed_def)
qed

end
