(* ===== verification/Lam_Refine.thy ===== *)
theory Lam_Refine
  imports Lam_Debts
begin

section \<open>Every step keeps the invariant\<close>

text \<open>
  The step lemmas together: every step of every thread that finds the latest values keeps the
  invariant and is a step of the specification. The facts about a thread's view that the later
  theories share are here as well.
\<close>

lemmas step_lemmas = step_TryRun step_TryAcquire step_FastRun step_FastUnlock step_SlowNew
  step_SwapTail step_StoreNext step_Spin step_WaitCas step_FutexCheck step_FutexWait
  step_WaitReload step_Dispatch step_Acquire step_AcquireSpin step_Execute step_Running
  step_LoadNext step_WakeDone step_TryClose step_CloseDone step_Release step_HandLoad step_HandAssert
  step_HandHead  step_HandDone step_WakeSyscall step_BombPoison step_BombLoad step_BombWake step_BombClose
  step_BombSpin step_BombLast step_AttachOk step_AttachErr step_Unwinding step_Returning

lemma thread_step_ok:
  assumes "inv cfg s g"
  shows "step_ok cfg t (pcs s t) g (thread_step cfg t s)"
proof (cases "pcs s t = Idle \<or> pcs s t = FutexSleep")
  case True
  then show ?thesis by (auto simp: thread_step_def)
next
  case False
  then show ?thesis
    unfolding thread_step_def by (cases "pcs s t") (simp_all only: step_lemmas [OF assms] simp_thms)
qed

lemma inv_init: "\<exists>g. inv cfg (sys_init d) g \<and> gspec g = spec_init d"
proof -
  let ?g = "\<lparr>gspec = spec_init d, gq = [], gL = None, gH = None, gO = (\<lambda>_. None), gD = (\<lambda>_. None),
    gZ = Todo\<rparr>"
  have "inv cfg (sys_init d) ?g"
    by (simp add: inv_def queue_inv_def lock_inv_def debt_inv_def spec_inv_def sys_init_def
        raw_new_def spec_init_def view_of_def idle_def calm_def)
  then show ?thesis by force
qed

subsection \<open>Whom the leader wakes\<close>

text \<open>The node a leader leaves behind, the one it comes to, and the one it owes a wake-up.\<close>

lemma dormant_head:
  assumes "inv cfg s g" and "gL g = Some t" and "hd (gq g) = c" and "c \<noteq> t"
  shows "dormant c (view_of s g c) \<and> (\<forall>p. pcs s c \<noteq> StoreNext p)"
proof -
  have "c \<in> set (gq g)" using leader_facts(1) [OF assms(1-3)] by (metis list.set_intros(1))
  then show ?thesis
    using queued_dormant [OF assms(1), of c] assms(2,4) leader_facts(2) [OF assms(1-3)]
    by (simp add: linking_None)
qed

lemma dormant_second:
  assumes "inv cfg s g" and "gL g = Some t" and "hd (gq g) = c"
    and "next_of s (hd (gq g)) = Some n" and "own cfg t (view_of s g t) c"
  shows "n \<noteq> t" and "dormant n (view_of s g n) \<and> (\<forall>p. pcs s n \<noteq> StoreNext p)"
proof -
  obtain q where q: "gq g = c # n # q" "linking s n = None"
    using leader_facts(7) [OF assms(1-4)] by blast
  have "distinct (gq g)" using inv_parts(1) [OF assms(1)] by (simp add: queue_inv_def)
  then show n: "n \<noteq> t" using assms(5) q(1) by (auto simp: own_def split: if_splits)
  show "dormant n (view_of s g n) \<and> (\<forall>p. pcs s n \<noteq> StoreNext p)"
    using queued_dormant [OF assms(1), of n] assms(2) n q by (simp add: linking_None)
qed

lemma dormant_owed:
  assumes "inv cfg s g" and "gD g t = Some (c, k)" and "c \<noteq> t"
  shows "dormant c (view_of s g c) \<and> (\<forall>p. pcs s c \<noteq> StoreNext p)"
proof -
  have "gO g c = Some (t, k)" using inv_parts(3) [OF assms(1)] assms(2) by (simp add: debt_inv_def)
  then show ?thesis
    using local_credit [OF inv_parts(5) [OF assms(1), of c], of t k] assms(3)
    by (auto simp: dormant_def)
qed

lemmas step_splits = option.splits if_splits prod.splits sum.splits bool.splits
  lock_poisoned.splits feature.splits outcome.splits

end
