(* ===== verification/Lam_Order.thy ===== *)
theory Lam_Order
  imports Lam_Refine
begin

section \<open>The memory orderings of the lock\<close>

text \<open>
  \<open>Lam_System\<close> says what each step reads and writes; here is with which ordering, and what
  follows for the happens-before relation of the C11 memory model. Every access to plain memory
  (the data, a node's slots, a node when it is made and when it goes out of scope) and every
  atomic access to a node gets a number. A thread has seen the numbers of the accesses that
  happen before its next one; an atomic location carries what its current value releases. An
  access that conflicts with one the thread has not seen is a data race: for the slots and the
  data any other access conflicts, for the memory of a node a plain access conflicts with
  everything and an atomic access with the plain ones, so a node that goes out of scope too
  early is a race as well.
\<close>

subsection \<open>Happens-before\<close>

datatype ordering = Relaxed | Acq | Rel | AcqRel | SeqCst

fun acquiring :: "ordering \<Rightarrow> bool" where
  "acquiring ord \<longleftrightarrow> ord = Acq \<or> ord = AcqRel \<or> ord = SeqCst"

fun releasing :: "ordering \<Rightarrow> bool" where
  "releasing ord \<longleftrightarrow> ord = Rel \<or> ord = AcqRel \<or> ord = SeqCst"

text \<open>
  The atomic locations and the plain memory. \<open>Body\<close> is the memory of a node's two atomics,
  \<open>Slots\<close> the rest of the node: the closure and the function that runs it, the flag
  \<open>started\<close>, the pointer to the data, the result.
\<close>

datatype loc = Status | Tail | Word tid | Link tid

datatype cell = Data | Slots tid | Body tid

text \<open>\<open>Swap\<close> is a read-modify-write that wrote; one that did not is a \<open>Load\<close>.\<close>

datatype access = Load loc ordering | Store loc ordering | Swap loc ordering
  | Plain cell | Fresh tid

record hb =
  clock :: nat
  seen :: "tid \<Rightarrow> nat set"
  msg :: "loc \<Rightarrow> nat set"
  plain :: "cell \<Rightarrow> nat set"
  shared :: "tid \<Rightarrow> nat set"
  raced :: bool

definition hb_init :: hb where
  "hb_init = \<lparr>clock = 0, seen = (\<lambda>_. {}), msg = (\<lambda>_. {}), plain = (\<lambda>_. {}), shared = (\<lambda>_. {}),
     raced = False\<rparr>"

text \<open>
  Every access of a thread is one more it has seen. The lock's own words are there throughout; an
  atomic access to a node touches its memory.
\<close>

definition tick :: "tid \<Rightarrow> hb \<Rightarrow> hb" where
  "tick t h = h\<lparr>clock := Suc (clock h), seen := (seen h)(t := insert (clock h) (seen h t))\<rparr>"

lemma tick_fields [simp]:
  "clock (tick t h) = Suc (clock h)" "seen (tick t h) = (seen h)(t := insert (clock h) (seen h t))"
  "msg (tick t h) = msg h" "plain (tick t h) = plain h" "shared (tick t h) = shared h"
  "raced (tick t h) = raced h"
  by (simp_all add: tick_def)

definition touch :: "tid \<Rightarrow> tid \<Rightarrow> hb \<Rightarrow> hb" where
  "touch t c h = (tick t h)\<lparr>shared := (shared h)(c := insert (clock h) (shared h c)),
     raced := (raced h \<or> \<not> plain h (Body c) \<subseteq> seen h t)\<rparr>"

fun touch_loc :: "tid \<Rightarrow> loc \<Rightarrow> hb \<Rightarrow> hb" where
  "touch_loc t (Word c) h = touch t c h"
| "touch_loc t (Link c) h = touch t c h"
| "touch_loc t l h = tick t h"

fun conflicts :: "hb \<Rightarrow> cell \<Rightarrow> nat set" where
  "conflicts h (Body c) = plain h (Body c) \<union> shared h c"
| "conflicts h x = plain h x"

definition synced :: "tid \<Rightarrow> loc \<Rightarrow> ordering \<Rightarrow> hb \<Rightarrow> hb" where
  "synced t l ord h = h\<lparr>seen := (seen h)(t := seen h t \<union> (if acquiring ord then msg h l else {}))\<rparr>"

text \<open>
  A store starts a new release sequence (or none), a read-modify-write goes on with the one it
  finds.
\<close>

fun do_access :: "tid \<Rightarrow> access \<Rightarrow> hb \<Rightarrow> hb" where
  "do_access t (Load l ord) h = synced t l ord (touch_loc t l h)"
| "do_access t (Store l ord) h = (let h1 = touch_loc t l h in
     h1\<lparr>msg := (msg h1)(l := if releasing ord then seen h1 t else {})\<rparr>)"
| "do_access t (Swap l ord) h = (let h1 = synced t l ord (touch_loc t l h) in
     h1\<lparr>msg := (msg h1)(l := msg h1 l \<union> (if releasing ord then seen h1 t else {}))\<rparr>)"
| "do_access t (Plain x) h =
     (tick t h)\<lparr>plain := (plain h)(x := insert (clock h) (plain h x)),
       raced := (raced h \<or> \<not> conflicts h x \<subseteq> seen h t)\<rparr>"
| "do_access t (Fresh c) h = h\<lparr>msg := (msg h)(Word c := {}, Link c := {})\<rparr>"

definition do_accesses :: "tid \<Rightarrow> access list \<Rightarrow> hb \<Rightarrow> hb" where
  "do_accesses t as h = fold (do_access t) as h"

subsection \<open>The orderings of each method (\<open>rawlock.rs\<close>, \<open>node.rs\<close>, \<open>futex.rs\<close>, \<open>nonpoison.rs\<close>)\<close>

definition has_tail_at :: "ordering \<Rightarrow> access list" where
  "has_tail_at ord = [Load Tail ord]"

definition swap_tail_at :: "access list" where
  "swap_tail_at = [Swap Tail AcqRel]"

definition try_close_at :: "rawlock \<Rightarrow> tid \<Rightarrow> access list" where
  "try_close_at r expected =
     (if tail r = Some expected then [Swap Tail AcqRel] else [Load Tail Relaxed])"

definition try_acquire_at :: "rawlock \<Rightarrow> access list" where
  "try_acquire_at r = (if status r = UNLOCKED then [Swap Status Acq] else [Load Status Relaxed])"

definition acquire_spin_at :: "access list" where
  "acquire_spin_at = [Load Status Relaxed]"

definition raw_poison_at :: "access list" where
  "raw_poison_at = [Store Status Rel]"

definition raw_release_at :: "access list" where
  "raw_release_at = [Store Status Rel]"

definition load_next_at :: "tid \<Rightarrow> ordering \<Rightarrow> access list" where
  "load_next_at c ord = [Load (Link c) ord]"

definition store_next_at :: "tid \<Rightarrow> access list" where
  "store_next_at c = [Store (Link c) Rel]"

definition attach_spin_at :: "tid \<Rightarrow> nat \<Rightarrow> access list" where
  "attach_spin_at t k = (if k < SPIN_LIMIT then [Load (Word t) Acq] else [])"

definition node_wait_at :: "('d, 'r, 'p) sys \<Rightarrow> tid \<Rightarrow> access list" where
  "node_wait_at s t =
     (case heap s t of
        Some nd \<Rightarrow> if futex nd = WAITING then [Swap (Word t) AcqRel] else [Load (Word t) Acq]
      | None \<Rightarrow> [])"

definition node_wait_reload_at :: "tid \<Rightarrow> access list" where
  "node_wait_reload_at t = [Load (Word t) Acq]"

definition futex_wait_check_at :: "tid \<Rightarrow> access list" where
  "futex_wait_check_at t = [Load (Word t) Acq]"

text \<open>The kernel compares the word before it puts the thread to sleep; it orders nothing.\<close>

definition futex_wait_call_at :: "tid \<Rightarrow> access list" where
  "futex_wait_call_at t = [Load (Word t) Relaxed]"

definition notify_at :: "tid \<Rightarrow> access list" where
  "notify_at c = [Swap (Word c) AcqRel]"

text \<open>The plain memory: the new node on the caller's stack, its slots, the data.\<close>

definition run_slowly_node_at :: "tid \<Rightarrow> access list" where
  "run_slowly_node_at t = [Plain (Body t), Plain (Slots t), Fresh t]"

definition try_run_direct_at :: "access list" where
  "try_run_direct_at = [Plain Data]"

definition execute_take_at :: "tid \<Rightarrow> access list" where
  "execute_take_at c = [Plain (Slots c)]"

text \<open>The result is stored unless the task unwinds past \<open>execute\<close>.\<close>

definition execute_run_at ::
    "feature \<Rightarrow> ('d, 'r, 'p) sys \<Rightarrow> tid \<Rightarrow> ('d, 'r, 'p) task \<Rightarrow> access list" where
  "execute_run_at cfg s c f =
     (case (cfg, snd (f (data s))) of
        (NoStd, Panic p) \<Rightarrow> [Plain Data]
      | _ \<Rightarrow> [Plain Data, Plain (Slots c)])"

definition run_slowly_end_at :: "tid \<Rightarrow> access list" where
  "run_slowly_end_at t = [Plain (Slots t), Plain (Body t)]"

subsection \<open>The accesses of one step\<close>

primrec accesses ::
    "feature \<Rightarrow> tid \<Rightarrow> ('d, 'r, 'p) sys \<Rightarrow> ('d, 'r, 'p) pc \<Rightarrow> access list" where
  "accesses cfg t s Idle = []"
| "accesses cfg t s (TryRun f) = has_tail_at Relaxed"
| "accesses cfg t s (TryAcquire f) = try_acquire_at (raw s)"
| "accesses cfg t s (FastRun f) = try_run_direct_at"
| "accesses cfg t s (FastUnlock ret) = raw_release_at"
| "accesses cfg t s (SlowNew f) = run_slowly_node_at t"
| "accesses cfg t s SwapTail = swap_tail_at"
| "accesses cfg t s (StoreNext prev) = store_next_at prev"
| "accesses cfg t s (Spin k) = attach_spin_at t k"
| "accesses cfg t s WaitCas = node_wait_at s t"
| "accesses cfg t s FutexCheck = futex_wait_check_at t"
| "accesses cfg t s FutexWait = futex_wait_call_at t"
| "accesses cfg t s FutexSleep = []"
| "accesses cfg t s WaitReload = node_wait_reload_at t"
| "accesses cfg t s (Dispatch w) = []"
| "accesses cfg t s Acquire = try_acquire_at (raw s)"
| "accesses cfg t s AcquireSpin = acquire_spin_at"
| "accesses cfg t s (Execute c) = execute_take_at c"
| "accesses cfg t s (Running c f) = execute_run_at cfg s c f"
| "accesses cfg t s (LoadNext c) = load_next_at c Acq"
| "accesses cfg t s (WakeDone c n) = notify_at c"
| "accesses cfg t s (TryClose c) = try_close_at (raw s) c"
| "accesses cfg t s (CloseDone c) = notify_at c"
| "accesses cfg t s Release = raw_release_at"
| "accesses cfg t s (HandLoad c) = load_next_at c Acq"
| "accesses cfg t s (HandAssert c) = has_tail_at SeqCst"
| "accesses cfg t s (HandHead c n) = notify_at n"
| "accesses cfg t s (HandDone c) = notify_at c"
| "accesses cfg t s (WakeSyscall a k) = []"
| "accesses cfg t s (BombPoison c fin) = raw_poison_at"
| "accesses cfg t s (BombLoad c fin) = load_next_at c Acq"
| "accesses cfg t s (BombWake c n fin) = notify_at c"
| "accesses cfg t s (BombClose c fin) = try_close_at (raw s) c"
| "accesses cfg t s (BombSpin c fin) = load_next_at c Relaxed"
| "accesses cfg t s (BombLast c fin) = notify_at c"
| "accesses cfg t s AttachOk = run_slowly_end_at t"
| "accesses cfg t s AttachErr = run_slowly_end_at t"
| "accesses cfg t s (Unwinding p) = run_slowly_end_at t"
| "accesses cfg t s (Returning ret) = []"

end
