(* ===== verification/Lam_Weak.thy ===== *)
theory Lam_Weak
  imports Lam_Order
begin

section \<open>The lock when loads may be stale\<close>

text \<open>
  In \<open>Lam_System\<close> a load finds the latest value of its location. The C11 memory model lets it
  find an older one, unless the thread has seen the write that replaced it or a later one, or has
  itself read a newer value before. Here every location keeps its earlier values, and a step that
  loads may take any value it is still allowed to; a read-modify-write that writes finds the latest
  value. What a stale load would acquire is left out: a thread that has seen less can only read more.
  A write is always the last modification of its location, because every location is written by
  read-modify-writes, or by plain stores that the lock itself puts in order (\<open>Status\<close> by its
  holder, a word or a link by the one thread that may write it). A load does not find a value that
  is written only later (load buffering).
\<close>

subsection \<open>Earlier values\<close>

datatype val = Num nat | Ptr "tid option"

definition value_at :: "('d, 'r, 'p) sys \<Rightarrow> loc \<Rightarrow> val" where
  "value_at s l =
     (case l of
        Status \<Rightarrow> Num (status (raw s))
      | Tail \<Rightarrow> Ptr (tail (raw s))
      | Word c \<Rightarrow> Num (case heap s c of None \<Rightarrow> 0 | Some nd \<Rightarrow> futex nd)
      | Link c \<Rightarrow> Ptr (next_of s c))"

text \<open>The state as a thread sees it that finds the value \<open>v\<close> at \<open>l\<close>.\<close>

fun with_value :: "loc \<Rightarrow> val \<Rightarrow> ('d, 'r, 'p) sys \<Rightarrow> ('d, 'r, 'p) sys" where
  "with_value Status (Num n) s = s\<lparr>raw := (raw s)\<lparr>status := n\<rparr>\<rparr>"
| "with_value Tail (Ptr p) s = s\<lparr>raw := (raw s)\<lparr>tail := p\<rparr>\<rparr>"
| "with_value (Word c) (Num n) s =
     (case heap s c of None \<Rightarrow> s | Some nd \<Rightarrow> put_node c (nd\<lparr>futex := n\<rparr>) s)"
| "with_value (Link c) (Ptr p) s =
     (case heap s c of None \<Rightarrow> s | Some nd \<Rightarrow> put_node c (nd\<lparr>nxt := p\<rparr>) s)"
| "with_value l v s = s"

lemma pcs_with_value [simp]: "pcs (with_value l v s) = pcs s"
  by (cases "(l, v, s)" rule: with_value.cases) (auto simp: put_node_def split: option.splits)

text \<open>
  \<open>past\<close> lists the values a location has had, in the order of its modifications, each with the
  number of the write that replaced it; \<open>since\<close> is how many of them a thread has read past.
\<close>

record history =
  past :: "loc \<Rightarrow> (val \<times> nat) list"
  since :: "tid \<Rightarrow> loc \<Rightarrow> nat"

definition history_init :: history where
  "history_init = \<lparr>past = (\<lambda>_. []), since = (\<lambda>_ _. 0)\<rparr>"

definition replaced :: "loc \<Rightarrow> ('d, 'r, 'p) sys \<Rightarrow> hb \<Rightarrow> history \<Rightarrow> history" where
  "replaced l s h y = y\<lparr>past := (past y)(l := past y l @ [(value_at s l, clock h)])\<rparr>"

definition has_read :: "tid \<Rightarrow> loc \<Rightarrow> nat \<Rightarrow> history \<Rightarrow> history" where
  "has_read t l i y = y\<lparr>since := (since y)(t := (since y t)(l := i))\<rparr>"

text \<open>A new node has no earlier values.\<close>

definition renewed :: "loc \<Rightarrow> history \<Rightarrow> history" where
  "renewed l y = y\<lparr>past := (past y)(l := []), since := (\<lambda>u. (since y u)(l := 0))\<rparr>"

fun keep_access :: "tid \<Rightarrow> access \<Rightarrow> ('d, 'r, 'p) sys \<Rightarrow> hb \<Rightarrow> history \<Rightarrow> history" where
  "keep_access t (Load l ord) s h y = has_read t l (length (past y l)) y"
| "keep_access t (Store l ord) s h y = replaced l s h y"
| "keep_access t (Swap l ord) s h y = replaced l s h y"
| "keep_access t (Plain x) s h y = y"
| "keep_access t (Fresh c) s h y = renewed (Word c) (renewed (Link c) y)"

fun keep_accesses :: "tid \<Rightarrow> access list \<Rightarrow> ('d, 'r, 'p) sys \<Rightarrow> hb \<Rightarrow> history \<Rightarrow> history" where
  "keep_accesses t [] s h y = y"
| "keep_accesses t (a # as) s h y = keep_accesses t as s (do_access t a h) (keep_access t a s h y)"

text \<open>Coherence: which of the earlier values a thread may still read.\<close>

definition readable :: "tid \<Rightarrow> loc \<Rightarrow> nat \<Rightarrow> hb \<Rightarrow> history \<Rightarrow> bool" where
  "readable t l i h y \<longleftrightarrow>
     since y t l \<le> i \<and> i < length (past y l) \<and>
     (\<forall>x \<in> set (drop i (past y l)). snd x \<notin> seen h t)"

subsection \<open>Stale steps\<close>

text \<open>
  The step is that of \<open>Lam_System\<close> in the state as the thread sees it, if it only loads there; the
  memory stays as it is. The load of the system call \<open>FUTEX_WAIT\<close> is the kernel's, and the kernel
  finds the latest value.
\<close>

fun only_loads :: "loc \<Rightarrow> access list \<Rightarrow> bool" where
  "only_loads l [Load l' ord] \<longleftrightarrow> l' = l"
| "only_loads l as \<longleftrightarrow> False"

definition stale_step ::
    "feature \<Rightarrow> tid \<Rightarrow> loc \<Rightarrow> nat \<Rightarrow> ('d, 'r, 'p) sys \<times> hb \<times> history \<Rightarrow> ('d, 'r, 'p) step_result" where
  "stale_step cfg t l i x =
     (case x of (s, h, y) \<Rightarrow>
        let s0 = with_value l (fst (past y l ! i)) s in
        if readable t l i h y \<and> only_loads l (accesses cfg t s0 (pcs s t)) \<and> pcs s t \<noteq> FutexWait
        then thread_step cfg t s0 else Blocked)"

inductive weak_step ::
    "feature \<Rightarrow> ('d, 'r, 'p) sys \<times> hb \<times> history \<Rightarrow> ('d, 'r, 'p) event list \<Rightarrow>
     ('d, 'r, 'p) sys \<times> hb \<times> history \<Rightarrow> bool"
  for cfg where
  call: "pcs s t = Idle \<Longrightarrow> weak_step cfg (s, h, y) [Call t f] (goto t (TryRun f) s, h, y)"
| thread: "thread_step cfg t s = Next s' es \<Longrightarrow> as = accesses cfg t s (pcs s t) \<Longrightarrow>
    weak_step cfg (s, h, y) es (s', do_accesses t as h, keep_accesses t as s h y)"
| stale: "stale_step cfg t l i (s, h, y) = Next s0 es \<Longrightarrow>
    weak_step cfg (s, h, y) es (s\<lparr>pcs := pcs s0\<rparr>, do_access t (Load l Relaxed) h, has_read t l i y)"
| spurious: "pcs s t = FutexSleep \<Longrightarrow> weak_step cfg (s, h, y) [] (goto t FutexCheck s, h, y)"

end
