(* ===== verification/Lam_Seen.thy ===== *)
theory Lam_Seen
  imports Lam_Order
begin

section \<open>What each thread has seen\<close>

text \<open>
  The invariant of the happens-before relation. Along the queue knowledge travels through the
  \<open>next\<close> pointers to the leader, from the leader through the futex words to the owners, and the
  data travel with the raw lock or with the word \<open>HEAD\<close>.
\<close>

subsection \<open>The invariant\<close>

text \<open>A waiter has not yet read the answer in its futex word.\<close>

fun waiting :: "('d, 'r, 'p) pc \<Rightarrow> bool" where
  "waiting (StoreNext p) = True"
| "waiting (Spin k) = True"
| "waiting WaitCas = True"
| "waiting FutexCheck = True"
| "waiting FutexWait = True"
| "waiting FutexSleep = True"
| "waiting WaitReload = True"
| "waiting k = False"

text \<open>A leader that holds the address of the next node has loaded it from its node's pointer.\<close>

fun loaded :: "('d, 'r, 'p) pc \<Rightarrow> tid option" where
  "loaded (WakeDone c n) = Some c"
| "loaded (HandHead c n) = Some c"
| "loaded (BombWake c n fin) = Some c"
| "loaded k = None"

lemma next_of_same [simp]: "heap s c = Some nd \<Longrightarrow> (next_of s)(c := nxt nd) = next_of s"
  by (auto simp: next_of_def)

lemma continues_reads [simp]: "continues k \<Longrightarrow> loaded k = None \<and> \<not> waiting k"
  by (cases k) simp_all

lemma bomb_end_reads [simp]: "loaded (bomb_end fin) = None" "\<not> waiting (bomb_end fin)"
  "bomb_end fin \<noteq> SwapTail" "bomb_end fin \<noteq> StoreNext p"
  by (cases fin; simp)+

text \<open>The thread that looks after a node: the leader for the head, the debtor for one taken off.\<close>

definition carrier :: "('d, 'r, 'p) ghost \<Rightarrow> tid \<Rightarrow> tid option" where
  "carrier g c = (if gq g \<noteq> [] \<and> c = hd (gq g) then gL g else map_option fst (gO g c))"

definition memory :: "hb \<Rightarrow> tid \<Rightarrow> nat set" where
  "memory h c = plain h (Body c) \<union> shared h c \<union> plain h (Slots c)"

text \<open>Where the accesses to a living node are recorded, for its owner to see in the end.\<close>

definition reach :: "('d, 'r, 'p) sys \<Rightarrow> ('d, 'r, 'p) ghost \<Rightarrow> hb \<Rightarrow> tid \<Rightarrow> nat set" where
  "reach s g h c = seen h c \<union> msg h (Word c) \<union>
     (if next_of s c = None then {} else msg h (Link c)) \<union>
     (case carrier g c of None \<Rightarrow> {} | Some w \<Rightarrow> seen h w)"

definition node_seen :: "('d, 'r, 'p) sys \<Rightarrow> ('d, 'r, 'p) ghost \<Rightarrow> hb \<Rightarrow> tid \<Rightarrow> bool" where
  "node_seen s g h c \<longleftrightarrow>
     (if heap s c = None then memory h c \<subseteq> seen h c
      else plain h (Body c) \<subseteq> seen h c \<and> memory h c \<subseteq> reach s g h c)"

definition slots_seen :: "('d, 'r, 'p) sys \<Rightarrow> ('d, 'r, 'p) ghost \<Rightarrow> hb \<Rightarrow> tid \<Rightarrow> bool" where
  "slots_seen s g h c \<longleftrightarrow>
     (pcs s c = SwapTail \<or> c \<in> set (gq g) \<and> (carrier g c = None \<or> carrier g c = Some c) \<longrightarrow>
       plain h (Slots c) \<subseteq> seen h c) \<and>
     (\<forall>w. carrier g c = Some w \<longrightarrow> plain h (Body c) \<union> plain h (Slots c) \<subseteq> seen h w)"

definition links_seen :: "('d, 'r, 'p) sys \<Rightarrow> ('d, 'r, 'p) ghost \<Rightarrow> hb \<Rightarrow> bool" where
  "links_seen s g h \<longleftrightarrow>
     (\<forall>x \<in> set (gq g). \<forall>y. next_of s x = Some y \<longrightarrow>
       plain h (Body y) \<union> plain h (Slots y) \<subseteq> msg h (Link x)) \<and>
     (gq g \<noteq> [] \<longrightarrow> plain h (Body (last (gq g))) \<subseteq> msg h Tail) \<and>
     (\<forall>t p. linking s t = Some p \<longrightarrow> plain h (Body p) \<subseteq> seen h t) \<and>
     (\<forall>t c. loaded (pcs s t) = Some c \<longrightarrow> msg h (Link c) \<subseteq> seen h t) \<and>
     (\<forall>c. c \<notin> set (gq g) \<and> next_of s c \<noteq> None \<longrightarrow>
       msg h (Link c) \<subseteq> (case gO g c of
         None \<Rightarrow> seen h c \<union> msg h (Word c)
       | Some (w, b) \<Rightarrow> seen h w))"

definition data_seen :: "('d, 'r, 'p) sys \<Rightarrow> ('d, 'r, 'p) ghost \<Rightarrow> hb \<Rightarrow> bool" where
  "data_seen s g h \<longleftrightarrow>
     (\<forall>t. gH g = Some t \<longrightarrow> plain h Data \<subseteq> seen h t \<union> msg h (Word t)) \<and>
     (status (raw s) = UNLOCKED \<longrightarrow> plain h Data \<subseteq> msg h Status)"

definition words_seen :: "('d, 'r, 'p) sys \<Rightarrow> hb \<Rightarrow> bool" where
  "words_seen s h \<longleftrightarrow> (\<forall>t. \<not> waiting (pcs s t) \<longrightarrow> msg h (Word t) \<subseteq> seen h t)"

definition hb_inv :: "('d, 'r, 'p) sys \<Rightarrow> ('d, 'r, 'p) ghost \<Rightarrow> hb \<Rightarrow> bool" where
  "hb_inv s g h \<longleftrightarrow>
     \<not> raced h \<and> (\<forall>c. node_seen s g h c) \<and> (\<forall>c. slots_seen s g h c) \<and> links_seen s g h \<and>
     data_seen s g h \<and> words_seen s h"

lemma hb_parts:
  assumes "hb_inv s g h"
  shows "\<not> raced h" and "node_seen s g h c" and "slots_seen s g h c" and "links_seen s g h"
    and "data_seen s g h" and "words_seen s h"
  using assms by (auto simp: hb_inv_def)

lemma node_seen_step:
  assumes "node_seen s g h c" and "heap s' c = None \<longleftrightarrow> heap s c = None"
    and "seen h c \<subseteq> seen h' c" and "plain h' (Body c) = plain h (Body c)"
    and "memory h' c \<subseteq> memory h c \<union> (if heap s c = None then {} else reach s' g' h' c)"
    and "heap s c \<noteq> None \<Longrightarrow> reach s g h c \<subseteq> reach s' g' h' c"
  shows "node_seen s' g' h' c"
proof (cases "heap s c = None")
  case True
  then have "memory h' c \<subseteq> memory h c" "memory h c \<subseteq> seen h c"
    using assms(1,5) by (simp_all add: node_seen_def)
  with True assms(2,3) show ?thesis by (auto simp: node_seen_def)
next
  case False
  then obtain nd where "heap s c = Some nd" by blast
  then have "memory h' c \<subseteq> memory h c \<union> reach s' g' h' c" "memory h c \<subseteq> reach s g h c"
    "plain h (Body c) \<subseteq> seen h c"
    using assms(1,5) by (simp_all add: node_seen_def)
  with False assms(2-4,6) show ?thesis unfolding node_seen_def by (simp, blast)
qed

lemma reach_mono:
  assumes "\<And>u. seen h u \<subseteq> seen h' u" and "msg h (Word c) \<subseteq> msg h' (Word c)"
    and "next_of s c \<noteq> None \<Longrightarrow> next_of s' c \<noteq> None \<and> msg h (Link c) \<subseteq> msg h' (Link c)"
    and "\<And>w. carrier g c = Some w \<Longrightarrow> carrier g' c = Some w"
  shows "reach s g h c \<subseteq> reach s' g' h' c"
proof -
  have "(case carrier g c of None \<Rightarrow> {} | Some w \<Rightarrow> seen h w) \<subseteq>
      (case carrier g' c of None \<Rightarrow> {} | Some w \<Rightarrow> seen h' w)"
    using assms(1,4) by (cases "carrier g c") simp_all
  moreover have "(if next_of s c = None then {} else msg h (Link c)) \<subseteq>
      (if next_of s' c = None then {} else msg h' (Link c))"
    using assms(3) by (cases "next_of s c = None") auto
  ultimately show ?thesis using assms(1) [of c] assms(2) unfolding reach_def by blast
qed

lemma slots_seen_step:
  assumes "slots_seen s g h c" and "plain h' (Body c) = plain h (Body c)"
    and "plain h' (Slots c) = plain h (Slots c)" and "\<And>u. seen h u \<subseteq> seen h' u"
    and "pcs s' c = SwapTail \<Longrightarrow> pcs s c = SwapTail"
    and "c \<in> set (gq g') \<Longrightarrow> carrier g' c = None \<or> carrier g' c = Some c \<Longrightarrow>
      plain h (Slots c) \<subseteq> seen h' c"
    and "\<And>w. carrier g' c = Some w \<Longrightarrow> plain h (Body c) \<union> plain h (Slots c) \<subseteq> seen h' w"
  shows "slots_seen s' g' h' c"
proof -
  have "pcs s c = SwapTail \<Longrightarrow> plain h (Slots c) \<subseteq> seen h' c"
    using assms(1) assms(4) [of c] by (auto simp: slots_seen_def)
  then show ?thesis using assms(2,3,5-7) unfolding slots_seen_def by metis
qed

lemma slots_seen_same:
  assumes "slots_seen s g h c" and "plain h' (Body c) = plain h (Body c)"
    and "plain h' (Slots c) = plain h (Slots c)" and "\<And>u. seen h u \<subseteq> seen h' u"
    and "pcs s' c = SwapTail \<Longrightarrow> pcs s c = SwapTail"
    and "c \<in> set (gq g') \<Longrightarrow> c \<in> set (gq g)" and "carrier g' c = carrier g c"
  shows "slots_seen s' g' h' c"
proof -
  have "X \<subseteq> seen h u \<Longrightarrow> X \<subseteq> seen h' u" for X u using assms(4) [of u] by blast
  then show ?thesis
    using assms(1,6,7) unfolding slots_seen_def
    by (intro slots_seen_step [OF assms(1-5), unfolded slots_seen_def]) metis+
qed

lemma links_seenI:
  assumes "\<And>x y. x \<in> set (gq g) \<Longrightarrow> next_of s x = Some y \<Longrightarrow>
      plain h (Body y) \<union> plain h (Slots y) \<subseteq> msg h (Link x)"
    and "gq g \<noteq> [] \<Longrightarrow> plain h (Body (last (gq g))) \<subseteq> msg h Tail"
    and "\<And>t p. linking s t = Some p \<Longrightarrow> plain h (Body p) \<subseteq> seen h t"
    and "\<And>t c. loaded (pcs s t) = Some c \<Longrightarrow> msg h (Link c) \<subseteq> seen h t"
    and "\<And>c. c \<notin> set (gq g) \<Longrightarrow> next_of s c \<noteq> None \<Longrightarrow> gO g c = None \<Longrightarrow>
      msg h (Link c) \<subseteq> seen h c \<union> msg h (Word c)"
    and "\<And>c w b. c \<notin> set (gq g) \<Longrightarrow> next_of s c \<noteq> None \<Longrightarrow> gO g c = Some (w, b) \<Longrightarrow>
      msg h (Link c) \<subseteq> seen h w"
  shows "links_seen s g h"
  using assms unfolding links_seen_def by (auto split: option.splits)

lemma links_seenD:
  assumes "links_seen s g h"
  shows "x \<in> set (gq g) \<Longrightarrow> next_of s x = Some y \<Longrightarrow>
      plain h (Body y) \<union> plain h (Slots y) \<subseteq> msg h (Link x)"
    and "gq g \<noteq> [] \<Longrightarrow> plain h (Body (last (gq g))) \<subseteq> msg h Tail"
    and "linking s t = Some p \<Longrightarrow> plain h (Body p) \<subseteq> seen h t"
    and "loaded (pcs s t) = Some c \<Longrightarrow> msg h (Link c) \<subseteq> seen h t"
    and "c \<notin> set (gq g) \<Longrightarrow> next_of s c \<noteq> None \<Longrightarrow> gO g c = None \<Longrightarrow>
      msg h (Link c) \<subseteq> seen h c \<union> msg h (Word c)"
    and "c \<notin> set (gq g) \<Longrightarrow> next_of s c \<noteq> None \<Longrightarrow> gO g c = Some (w, b) \<Longrightarrow>
      msg h (Link c) \<subseteq> seen h w"
proof -
  note L = assms [unfolded links_seen_def]
  show "x \<in> set (gq g) \<Longrightarrow> next_of s x = Some y \<Longrightarrow>
      plain h (Body y) \<union> plain h (Slots y) \<subseteq> msg h (Link x)"
    "gq g \<noteq> [] \<Longrightarrow> plain h (Body (last (gq g))) \<subseteq> msg h Tail"
    "linking s t = Some p \<Longrightarrow> plain h (Body p) \<subseteq> seen h t"
    "loaded (pcs s t) = Some c \<Longrightarrow> msg h (Link c) \<subseteq> seen h t"
    using L by blast+
  assume "c \<notin> set (gq g)" "next_of s c \<noteq> None"
  then have "msg h (Link c) \<subseteq> (case gO g c of
      None \<Rightarrow> seen h c \<union> msg h (Word c) | Some (w, b) \<Rightarrow> seen h w)" using L by blast
  then show "gO g c = None \<Longrightarrow> msg h (Link c) \<subseteq> seen h c \<union> msg h (Word c)"
    "gO g c = Some (w, b) \<Longrightarrow> msg h (Link c) \<subseteq> seen h w" by simp_all
qed

lemma data_seen_same:
  assumes "data_seen s g h" and "gH g' = gH g" and "status (raw s') = status (raw s)"
    and "plain h' Data = plain h Data" and "\<And>u. seen h u \<subseteq> seen h' u"
    and "\<And>u. msg h (Word u) \<subseteq> msg h' (Word u)" and "msg h' Status = msg h Status"
  shows "data_seen s' g' h'"
proof -
  have "plain h Data \<subseteq> seen h' u \<union> msg h' (Word u)" if "gH g = Some u" for u
    using assms(1) assms(5) [of u] assms(6) [of u] that unfolding data_seen_def by blast
  then show ?thesis using assms(1-4,7) by (auto simp: data_seen_def)
qed

lemma words_seen_step:
  assumes "words_seen s h" and "\<And>u. u \<noteq> t \<Longrightarrow> waiting (pcs s' u) = waiting (pcs s u)"
    and "\<And>u. seen h u \<subseteq> seen h' u"
    and "\<And>u. u \<noteq> t \<Longrightarrow> \<not> waiting (pcs s u) \<Longrightarrow> msg h' (Word u) = msg h (Word u)"
    and "\<not> waiting (pcs s' t) \<Longrightarrow> msg h' (Word t) \<subseteq> seen h' t"
  shows "words_seen s' h'"
  unfolding words_seen_def
proof (intro allI impI)
  fix u
  assume u: "\<not> waiting (pcs s' u)"
  show "msg h' (Word u) \<subseteq> seen h' u"
  proof (cases "u = t")
    case False
    then have "\<not> waiting (pcs s u)" using u assms(2) by blast
    then show ?thesis
      using assms(1) assms(3) [of u] assms(4) [OF False] unfolding words_seen_def by blast
  qed (use u assms(5) in blast)
qed

subsection \<open>Steps that leave the queue alone\<close>

lemma linking_Some: "linking s t = Some p \<Longrightarrow> pcs s t = StoreNext p"
  by (auto simp: linking_def split: pc.splits)

lemma hb_frame:
  assumes I: "hb_inv s g h" and q: "same_queue g g'"
    and nx: "next_of s' = next_of s" and dom: "\<And>c. heap s' c = None \<longleftrightarrow> heap s c = None"
    and pc: "\<And>u. u \<noteq> t \<Longrightarrow> pcs s' u = pcs s u \<or> pcs s u = FutexSleep \<and> pcs s' u = FutexCheck"
    and ln: "\<And>p. linking s' t \<noteq> Some p" and sw: "pcs s' t \<noteq> SwapTail"
    and seen: "\<And>u. seen h u \<subseteq> seen h' u"
    and msgs: "\<And>l. l \<noteq> Status \<Longrightarrow> msg h l \<subseteq> msg h' l"
    and link: "\<And>c. msg h' (Link c) = msg h (Link c)"
    and word: "\<And>u. u \<noteq> t \<Longrightarrow> msg h' (Word u) = msg h (Word u)"
    and body: "\<And>c. plain h' (Body c) = plain h (Body c)"
    and slots: "\<And>c. plain h' (Slots c) = plain h (Slots c) \<or>
      heap s c \<noteq> None \<and> pcs s c \<noteq> SwapTail \<and> (\<forall>x \<in> set (gq g). next_of s x \<noteq> Some c) \<and>
      carrier g c = Some t \<and> plain h' (Slots c) \<subseteq> seen h' t"
    and touched: "\<And>c. shared h' c = shared h c \<or>
      heap s c \<noteq> None \<and> (c = t \<or> carrier g c = Some t) \<and> shared h' c \<subseteq> shared h c \<union> seen h' t"
    and ld: "\<And>c. loaded (pcs s' t) = Some c \<Longrightarrow> msg h' (Link c) \<subseteq> seen h' t"
    and aw: "\<not> waiting (pcs s' t) \<Longrightarrow> msg h' (Word t) \<subseteq> seen h' t"
    and d: "data_seen s' g' h'" and r: "\<not> raced h'"
  shows "hb_inv s' g' h'"
proof -
  have Q: "gq g' = gq g" "gL g' = gL g" "gO g' = gO g" using q by auto
  have C: "carrier g' c = carrier g c" for c by (simp add: carrier_def Q)
  have R: "reach s g h c \<subseteq> reach s' g' h' c" for c
    unfolding reach_def C nx using seen msgs by (auto split: option.splits)
  have own: "seen h' t \<subseteq> reach s' g' h' c" if "c = t \<or> carrier g c = Some t" for c
    using that by (auto simp: reach_def C)
  have N: "node_seen s' g' h' c" for c
  proof (cases "heap s c = None")
    case True
    then have "memory h' c = memory h c"
      using body [of c] slots [of c] touched [of c] by (auto simp: memory_def)
    then show ?thesis
      using True hb_parts(2) [OF I, of c] seen [of c] dom [of c] by (auto simp: node_seen_def)
  next
    case False
    then have m: "plain h (Body c) \<subseteq> seen h c" "memory h c \<subseteq> reach s g h c"
      using hb_parts(2) [OF I, of c] by (auto simp: node_seen_def)
    have "plain h' (Slots c) \<subseteq> plain h (Slots c) \<union> reach s' g' h' c"
      "shared h' c \<subseteq> shared h c \<union> reach s' g' h' c"
      using slots [of c] touched [of c] own [of c] by blast+
    then have "memory h' c \<subseteq> memory h c \<union> reach s' g' h' c"
      using body [of c] by (auto simp: memory_def)
    moreover note m R [of c] seen [of c]
    ultimately show ?thesis using False dom [of c] body [of c] by (auto simp: node_seen_def)
  qed
  have S: "slots_seen s' g' h' c" for c
  proof -
    have sl: "plain h' (Slots c) = plain h (Slots c) \<or>
        pcs s c \<noteq> SwapTail \<and> carrier g c = Some t \<and> plain h' (Slots c) \<subseteq> seen h' t"
      using slots [of c] by blast
    have sw: "pcs s c = SwapTail" if "pcs s' c = SwapTail"
      using that pc [of c] sw by (cases "c = t") auto
    have a: "plain h' (Slots c) \<subseteq> seen h' c"
      if "pcs s' c = SwapTail \<or> c \<in> set (gq g) \<and> (carrier g c = None \<or> carrier g c = Some c)"
      using that sl sw seen [of c] hb_parts(3) [OF I, of c] by (auto simp: slots_seen_def)
    have b: "plain h' (Body c) \<union> plain h' (Slots c) \<subseteq> seen h' w" if "carrier g c = Some w" for w
    proof -
      have "plain h (Body c) \<subseteq> seen h' w" "plain h (Slots c) \<subseteq> seen h' w"
        using that seen [of w] hb_parts(3) [OF I, of c] by (auto simp: slots_seen_def)
      then show ?thesis using that sl body [of c] by auto
    qed
    show ?thesis unfolding slots_seen_def C Q using a b by blast
  qed
  have L: "links_seen s' g' h'"
  proof -
    note L = hb_parts(4) [OF I, unfolded links_seen_def]
    have a: "plain h' (Body y) \<union> plain h' (Slots y) \<subseteq> msg h' (Link x)"
      if "x \<in> set (gq g)" "next_of s x = Some y" for x y
    proof -
      have "plain h' (Slots y) = plain h (Slots y)" using slots [of y] that by blast
      then show ?thesis using L that body [of y] link [of x] by auto
    qed
    have b: "plain h' (Body (last (gq g))) \<subseteq> msg h' Tail" if "gq g \<noteq> []"
      using L that msgs [of Tail] body by auto
    have c: "plain h' (Body p) \<subseteq> seen h' u" if "linking s' u = Some p" for u p
    proof -
      have u: "u \<noteq> t" using that ln by metis
      have "pcs s' u = StoreNext p" by (rule linking_Some [OF that])
      with u have "linking s u = Some p" using pc [of u] by auto
      then show ?thesis using L seen [of u] body [of p] by blast
    qed
    have d: "msg h' (Link c) \<subseteq> seen h' u" if "loaded (pcs s' u) = Some c" for u c
    proof (cases "u = t")
      case False
      then have "loaded (pcs s u) = Some c" using that pc [of u] by auto
      then show ?thesis using L seen [of u] link [of c] by blast
    qed (use ld that in blast)
    have e: "msg h' (Link c) \<subseteq> (case gO g c of
        None \<Rightarrow> seen h' c \<union> msg h' (Word c) | Some (w, b) \<Rightarrow> seen h' w)"
      if "c \<notin> set (gq g)" "next_of s c \<noteq> None" for c
    proof -
      have "msg h (Link c) \<subseteq> (case gO g c of
          None \<Rightarrow> seen h c \<union> msg h (Word c) | Some (w, b) \<Rightarrow> seen h w)" using L that by blast
      then show ?thesis
        using seen msgs [of "Word c"] link [of c] by (fastforce split: option.splits)
    qed
    show ?thesis unfolding links_seen_def Q nx using a b c d e by blast
  qed
  have W: "words_seen s' h'"
    unfolding words_seen_def
  proof (intro allI impI)
    fix u
    assume u: "\<not> waiting (pcs s' u)"
    show "msg h' (Word u) \<subseteq> seen h' u"
    proof (cases "u = t")
      case False
      then have "\<not> waiting (pcs s u)" using u pc [of u] by auto
      then have "msg h (Word u) \<subseteq> seen h u" using hb_parts(6) [OF I] by (auto simp: words_seen_def)
      then show ?thesis using word [OF False] seen [of u] by auto
    qed (use aw u in auto)
  qed
  show ?thesis using N S L W d r by (simp add: hb_inv_def)
qed

subsection \<open>Facts about the queue\<close>

lemma successor_in_tl:
  assumes "inv cfg s g" and "x \<in> set (gq g)" and "next_of s x = Some y"
  shows "y \<in> set (List.tl (gq g))"
proof -
  have "linked nx ln q \<Longrightarrow> x \<in> set q \<Longrightarrow> nx x = Some y \<Longrightarrow> y \<in> set (List.tl q)" for nx ln q
    by (induction nx ln q rule: linked.induct) auto
  then show ?thesis using inv_parts(1) [OF assms(1)] assms(2,3) by (auto simp: queue_inv_def)
qed

lemma carrier_leader:
  assumes "inv cfg s g" and "gL g = Some t" and "hd (gq g) = c"
  shows "carrier g c = Some t" and "heap s c \<noteq> None" and "pcs s c \<noteq> SwapTail"
    and "\<forall>x \<in> set (gq g). next_of s x \<noteq> Some c"
proof -
  have q: "gq g = c # List.tl (gq g)" by (rule leader_facts(1) [OF assms])
  then show "carrier g c = Some t" using assms(2,3) by (cases "gq g") (auto simp: carrier_def)
  show "heap s c \<noteq> None" using leader_facts(5) [OF assms] by auto
  have "c \<in> set (gq g)" by (subst q) simp
  then show "pcs s c \<noteq> SwapTail"
    using inv_parts(5) [OF assms(1), of c] by (auto simp: idle_def calm_def)
  show "\<forall>x \<in> set (gq g). next_of s x \<noteq> Some c"
    using successor_in_tl [OF assms(1)] leader_facts(3) [OF assms] by blast
qed

lemma carrier_debt:
  assumes "inv cfg s g" and "gO g c = Some (w, b)"
  shows "carrier g c = Some w" and "heap s c \<noteq> None" and "c \<notin> set (gq g)"
proof -
  show c: "c \<notin> set (gq g)" using queued_facts(1) [OF assms(1), of c] assms(2) by auto
  then have "gq g \<noteq> [] \<longrightarrow> c \<noteq> hd (gq g)" by auto
  then show "carrier g c = Some w" using assms(2) by (auto simp: carrier_def)
  have "at_stage cfg (if b then Did else Bad) (heap s c) (phase (gspec g) c)"
    using inv_parts(3) [OF assms(1)] assms(2) by (auto simp: debt_inv_def)
  then show "heap s c \<noteq> None" using at_stage_node by fastforce
qed

text \<open>A node whose atomics a thread may touch.\<close>

definition visible :: "('d, 'r, 'p) sys \<Rightarrow> ('d, 'r, 'p) ghost \<Rightarrow> hb \<Rightarrow> tid \<Rightarrow> tid \<Rightarrow> bool" where
  "visible s g h t c \<longleftrightarrow>
     heap s c \<noteq> None \<and> plain h (Body c) \<subseteq> seen h t \<and> (c = t \<or> carrier g c = Some t)"

lemma visible_own: "hb_inv s g h \<Longrightarrow> heap s t \<noteq> None \<Longrightarrow> visible s g h t t"
  using hb_parts(2) [of s g h t] by (auto simp: visible_def node_seen_def)

lemma visible_carried:
  "hb_inv s g h \<Longrightarrow> carrier g c = Some t \<Longrightarrow> heap s c \<noteq> None \<Longrightarrow> visible s g h t c"
  using hb_parts(3) [of s g h c] by (auto simp: visible_def slots_seen_def)

subsection \<open>Loads\<close>

fun loc_ok :: "('d, 'r, 'p) sys \<Rightarrow> ('d, 'r, 'p) ghost \<Rightarrow> hb \<Rightarrow> tid \<Rightarrow> loc \<Rightarrow> bool" where
  "loc_ok s g h t (Word c) = visible s g h t c"
| "loc_ok s g h t (Link c) = visible s g h t c"
| "loc_ok s g h t l = True"

lemma touch_loc_fields [simp]:
  "msg (touch_loc t l h) = msg h" "plain (touch_loc t l h) = plain h"
  by (cases l; simp add: touch_def)+

lemma touch_loc_seen:
  "seen h u \<subseteq> seen (touch_loc t l h) u" "u \<noteq> t \<Longrightarrow> seen (touch_loc t l h) u = seen h u"
  by (cases l; auto simp: touch_def)+

lemmas touch_loc_in [simp] = touch_loc_seen(1) [THEN subsetD]

lemma touch_loc_ok:
  assumes "loc_ok s g h t l"
  shows "raced (touch_loc t l h) = raced h"
    and "shared (touch_loc t l h) c = shared h c \<or>
      heap s c \<noteq> None \<and> (c = t \<or> carrier g c = Some t) \<and>
      shared (touch_loc t l h) c \<subseteq> shared h c \<union> seen (touch_loc t l h) t"
  using assms by (cases l; auto simp: touch_def visible_def)+

lemma synced_fields [simp]:
  "msg (synced t l ord h) = msg h" "plain (synced t l ord h) = plain h"
  "shared (synced t l ord h) = shared h" "raced (synced t l ord h) = raced h"
  "seen (synced t l ord h) = (seen h)(t := seen h t \<union> (if acquiring ord then msg h l else {}))"
  by (simp_all add: synced_def)

lemma hb_load:
  assumes I: "hb_inv s g h" and q: "kept g g'"
    and nx: "next_of s' = next_of s" and dom: "\<And>c. heap s' c = None \<longleftrightarrow> heap s c = None"
    and st: "status (raw s') = status (raw s)"
    and pc: "\<And>u. u \<noteq> t \<Longrightarrow> pcs s' u = pcs s u \<or> pcs s u = FutexSleep \<and> pcs s' u = FutexCheck"
    and ln: "\<And>p. pcs s' t \<noteq> StoreNext p" and sw: "pcs s' t \<noteq> SwapTail"
    and as: "as = [] \<or> (\<exists>l ord. as = [Load l ord] \<and> loc_ok s g h t l)"
    and ld: "\<And>c. loaded (pcs s' t) = Some c \<Longrightarrow> as = [Load (Link c) Acq]"
    and aw: "\<not> waiting (pcs s' t) \<Longrightarrow> \<not> waiting (pcs s t) \<or> as = [Load (Word t) Acq]"
  shows "hb_inv s' g' (do_accesses t as h)"
proof -
  let ?h = "do_accesses t as h"
  have m: "msg ?h = msg h" "plain ?h = plain h"
    using as by (auto simp: do_accesses_def)
  have seen: "seen h u \<subseteq> seen ?h u" for u
    using as by (auto simp: do_accesses_def simp del: acquiring.simps)
  have acq: "msg h l \<subseteq> seen ?h t" if "as = [Load l Acq]" for l
    using that by (auto simp: do_accesses_def)
  have sh: "shared ?h c = shared h c \<or>
      heap s c \<noteq> None \<and> (c = t \<or> carrier g c = Some t) \<and> shared ?h c \<subseteq> shared h c \<union> seen ?h t" for c
    using as touch_loc_ok(2) [of s g h t _ c] by (fastforce simp: do_accesses_def)
  have r: "\<not> raced ?h"
    using as hb_parts(1) [OF I] touch_loc_ok(1) [of s g h t] by (auto simp: do_accesses_def)
  have w: "msg h (Word t) \<subseteq> seen ?h t" if "\<not> waiting (pcs s' t)"
    using aw [OF that] acq [of "Word t"] hb_parts(6) [OF I] seen [of t]
    unfolding words_seen_def by blast
  have d: "data_seen s' g' ?h"
    using hb_parts(5) [OF I] q st seen by (simp add: data_seen_def m) blast
  show ?thesis
    by (rule hb_frame [OF I _ nx dom pc _ sw seen])
      (use q ln m sh r w d acq ld in \<open>auto simp: linking_None\<close>)
qed

end
