(* ===== verification/Lam_Seen_Steps.thy ===== *)
theory Lam_Seen_Steps
  imports Lam_Seen
begin

section \<open>Every step keeps what has been seen\<close>

text \<open>
  One lemma per group of program counters: the steps that only look, those of the raw lock, those
  on plain memory, and those that move the queue.
\<close>

subsection \<open>Looking\<close>

lemma own_word_heap:
  assumes "inv cfg s g" and "waiting (pcs s t)"
  shows "heap s t \<noteq> None"
  using inv_parts(5) [OF assms(1), of t] assms(2) by (cases "pcs s t") (auto simp: waits_def)

lemma cursor_visible:
  assumes "inv cfg s g" and "hb_inv s g h"
    and "\<exists>n fin. pcs s t \<in> {LoadNext c, HandLoad c, BombLoad c fin, BombSpin c fin, WakeDone c n,
      BombWake c n fin, HandHead c n}"
  shows "visible s g h t c" and "gL g = Some t" and "hd (gq g) = c"
proof -
  show L: "gL g = Some t" "hd (gq g) = c"
    using inv_parts(5) [OF assms(1), of t] assms(3) by (auto simp: leads_def bombing_def)
  show "visible s g h t c"
    by (rule visible_carried [OF assms(2) carrier_leader(1,2) [OF assms(1) L]])
qed

lemma seen_look:
  assumes "inv cfg s g" and "hb_inv s g h" and "thread_step cfg t s = Next s' es"
    and "moved t (pcs s t) g g'"
    and "pcs s t \<in> {FutexCheck, FutexWait, WaitReload, AcquireSpin} \<or>
      (\<exists>f k w c fin ret a j. pcs s t \<in> {TryRun f, Spin k, Dispatch w, LoadNext c, HandLoad c,
        HandAssert c, WakeSyscall a j, BombLoad c fin, BombSpin c fin, Returning ret})"
  shows "hb_inv s' g' (do_accesses t (accesses cfg t s (pcs s t)) h)"
proof -
  have kept: "kept g g'" using assms(4,5) by auto
  have same: "next_of s' = next_of s \<and> (\<forall>c. heap s' c = None \<longleftrightarrow> heap s c = None) \<and>
      status (raw s') = status (raw s) \<and>
      (\<forall>u. u \<noteq> t \<longrightarrow> pcs s' u = pcs s u \<or> pcs s u = FutexSleep \<and> pcs s' u = FutexCheck) \<and>
      (\<forall>p. pcs s' t \<noteq> StoreNext p) \<and> pcs s' t \<noteq> SwapTail"
    using inv_parts(5) [OF assms(1), of t] assms(3,5)
    by (auto simp: thread_step_def access_def split: step_splits)
  have own: "waiting (pcs s t) \<longrightarrow> visible s g h t t"
    using visible_own [OF assms(2)] own_word_heap [OF assms(1)] by blast
  have "accesses cfg t s (pcs s t) = [] \<or>
      (\<exists>l ord. accesses cfg t s (pcs s t) = [Load l ord] \<and> loc_ok s g h t l)"
    using assms(5) own cursor_visible(1) [OF assms(1,2), of t]
    by (auto simp: has_tail_at_def attach_spin_at_def futex_wait_check_at_def futex_wait_call_at_def
        node_wait_reload_at_def acquire_spin_at_def load_next_at_def)
  moreover have "accesses cfg t s (pcs s t) = [Load (Link c) Acq]" if "loaded (pcs s' t) = Some c" for c
    using inv_parts(5) [OF assms(1), of t] assms(3,5) that
    by (auto simp: thread_step_def access_def load_next_at_def split: step_splits)
  moreover have "\<not> waiting (pcs s t) \<or> accesses cfg t s (pcs s t) = [Load (Word t) Acq]"
    if "\<not> waiting (pcs s' t)"
    using inv_parts(5) [OF assms(1), of t] assms(3,5) that
    by (auto simp: thread_step_def access_def attach_spin_at_def futex_wait_check_at_def
        node_wait_reload_at_def split: step_splits)
  ultimately show ?thesis
    using same by (intro hb_load [OF assms(2) kept, where t = t]) auto
qed

lemma seen_fail:
  assumes "inv cfg s g" and "hb_inv s g h" and "thread_step cfg t s = Next s' es"
    and "kept g g'"
    and "pcs s t = WaitCas \<and> (\<exists>nd. heap s t = Some nd \<and> futex nd \<noteq> WAITING) \<or>
      (\<exists>f. pcs s t \<in> {TryAcquire f, Acquire}) \<and> status (raw s) \<noteq> UNLOCKED \<or>
      (\<exists>c fin. pcs s t \<in> {TryClose c, BombClose c fin} \<and> tail (raw s) \<noteq> Some c)"
  shows "hb_inv s' g' (do_accesses t (accesses cfg t s (pcs s t)) h)"
proof -
  have same: "next_of s' = next_of s \<and> (\<forall>c. heap s' c = None \<longleftrightarrow> heap s c = None) \<and>
      status (raw s') = status (raw s) \<and> (\<forall>u. u \<noteq> t \<longrightarrow> pcs s' u = pcs s u) \<and>
      (\<forall>p. pcs s' t \<noteq> StoreNext p) \<and> pcs s' t \<noteq> SwapTail"
    using inv_parts(5) [OF assms(1), of t] assms(3,5)
    by (auto simp: thread_step_def access_def futex_cas_def try_acquire_def try_close_def
        split: step_splits)
  have own: "waiting (pcs s t) \<longrightarrow> visible s g h t t"
    using visible_own [OF assms(2)] own_word_heap [OF assms(1)] by blast
  have "\<exists>l ord. accesses cfg t s (pcs s t) = [Load l ord] \<and> loc_ok s g h t l"
    using assms(5) own
    by (auto simp: node_wait_at_def try_acquire_at_def try_close_at_def)
  moreover have "loaded (pcs s' t) = None"
    using inv_parts(5) [OF assms(1), of t] assms(3,5)
    by (auto simp: thread_step_def access_def futex_cas_def try_acquire_def try_close_def
        split: step_splits)
  moreover have "\<not> waiting (pcs s t) \<or> accesses cfg t s (pcs s t) = [Load (Word t) Acq]"
    using assms(5) by (auto simp: node_wait_at_def)
  ultimately show ?thesis
    using same by (intro hb_load [OF assms(2,4), where t = t]) auto
qed

subsection \<open>The raw lock\<close>

lemma seen_status:
  assumes "inv cfg s g" and "hb_inv s g h" and "thread_step cfg t s = Next s' es"
    and "inv cfg s' g'" and "moved t (pcs s t) g g'"
    and "(\<exists>f. pcs s t \<in> {TryAcquire f, Acquire}) \<and> status (raw s) = UNLOCKED \<or>
      (\<exists>c fin ret. pcs s t \<in> {FastUnlock ret, Release, BombPoison c fin})"
  shows "hb_inv s' g' (do_accesses t (accesses cfg t s (pcs s t)) h)"
proof -
  let ?h = "do_accesses t (accesses cfg t s (pcs s t)) h"
  have same: "next_of s' = next_of s \<and> heap s' = heap s \<and> (\<forall>u. u \<noteq> t \<longrightarrow> pcs s' u = pcs s u) \<and>
      (\<forall>p. pcs s' t \<noteq> StoreNext p) \<and> pcs s' t \<noteq> SwapTail \<and> loaded (pcs s' t) = None"
    using assms(3,6)
    by (auto simp: thread_step_def try_acquire_def next_of_def split: step_splits)
  have w: "\<not> waiting (pcs s t)" using assms(6) by auto
  have f: "seen h u \<subseteq> seen ?h u" "plain ?h = plain h" "shared ?h = shared h" "raced ?h = raced h"
    "l \<noteq> Status \<Longrightarrow> msg ?h l = msg h l" for u l
    using assms(6)
    by (auto simp: try_acquire_at_def raw_release_at_def raw_poison_at_def do_accesses_def Let_def)
  note D = hb_parts(5) [OF assms(2), unfolded data_seen_def]
  have "data_seen s' g' ?h"
  proof (cases "\<exists>f. pcs s t \<in> {TryAcquire f, Acquire}")
    case True
    then have u: "status (raw s) = UNLOCKED" using assms(6) by auto
    then have "gH g = None" using inv_parts(2) [OF assms(1)] by (auto simp: lock_inv_def)
    moreover have "status (raw s') = LOCKED"
      using assms(3) True u by (auto simp: thread_step_def try_acquire_def split: step_splits)
    moreover have "msg h Status \<subseteq> seen ?h t"
      using True u by (auto simp: try_acquire_at_def do_accesses_def)
    ultimately show ?thesis
      using assms(5) True u D f(2) by (auto simp: data_seen_def)
  next
    case False
    then have "gH g' = None" using assms(5,6) by auto
    moreover have "plain h Data \<subseteq> msg ?h Status" if "status (raw s') = UNLOCKED"
    proof -
      have "gH g = Some t"
        using inv_parts(5) [OF assms(1), of t] assms(3,6) False that
        by (auto simp: thread_step_def raw_poison_def)
      then have "plain h Data \<subseteq> seen h t"
        using D hb_parts(6) [OF assms(2)] w by (auto simp: words_seen_def)
      then show ?thesis
        using assms(6) False by (auto simp: raw_release_at_def raw_poison_at_def do_accesses_def Let_def)
    qed
    ultimately show ?thesis by (simp add: data_seen_def f)
  qed
  moreover have "same_queue g g'" using assms(5,6) by auto
  moreover have "msg h (Word t) \<subseteq> seen ?h t"
    using hb_parts(6) [OF assms(2)] w f(1) [of t] by (auto simp: words_seen_def)
  ultimately show ?thesis
    using same f(1) hb_parts(1) [OF assms(2)]
    by (intro hb_frame [OF assms(2), where t = t]) (simp_all add: f linking_None)
qed

subsection \<open>The task and its slots\<close>

lemma holder_sees_data:
  assumes "hb_inv s g h" and "gH g = Some t" and "\<not> waiting (pcs s t)"
  shows "plain h Data \<subseteq> seen h t"
  using hb_parts(5,6) [OF assms(1)] assms(2,3) by (auto simp: data_seen_def words_seen_def)

lemma seen_task:
  assumes "inv cfg s g" and "hb_inv s g h" and "thread_step cfg t s = Next s' es"
    and "moved t (pcs s t) g g'"
    and "\<exists>c f. pcs s t \<in> {FastRun f, Execute c, Running c f}"
  shows "hb_inv s' g' (do_accesses t (accesses cfg t s (pcs s t)) h)"
proof -
  let ?h = "do_accesses t (accesses cfg t s (pcs s t)) h"
  have kept: "kept g g'" using assms(4,5) by auto
  have same: "next_of s' = next_of s \<and> (\<forall>c. heap s' c = None \<longleftrightarrow> heap s c = None) \<and>
      status (raw s') = status (raw s) \<and> (\<forall>u. u \<noteq> t \<longrightarrow> pcs s' u = pcs s u) \<and>
      (\<forall>p. pcs s' t \<noteq> StoreNext p) \<and> pcs s' t \<noteq> SwapTail \<and> loaded (pcs s' t) = None"
    using assms(3,5)
    by (auto simp: thread_step_def access_def split: step_splits)
  have w: "\<not> waiting (pcs s t)" using assms(5) by auto
  have H: "gH g = Some t" using inv_parts(5) [OF assms(1), of t] assms(5) by auto
  note D = holder_sees_data [OF assms(2) H w]
  have head: "gL g = Some t \<and> hd (gq g) = c" if "\<exists>f. pcs s t \<in> {Execute c, Running c f}" for c
    using inv_parts(5) [OF assms(1), of t] that by (auto simp: leads_def)
  have slots: "plain h (Slots c) \<subseteq> seen h t" if "\<exists>f. pcs s t \<in> {Execute c, Running c f}" for c
    using hb_parts(3) [OF assms(2), of c] carrier_leader(1) [OF assms(1)] head [OF that]
    by (auto simp: slots_seen_def)
  have f: "msg ?h = msg h" "seen h u \<subseteq> seen ?h u" "plain ?h (Body c) = plain h (Body c)"
    "shared ?h = shared h" "u \<noteq> t \<Longrightarrow> seen ?h u = seen h u" for u c
    using assms(5)
    by (auto simp: try_run_direct_at_def execute_take_at_def execute_run_at_def do_accesses_def
        split: prod.splits feature.splits outcome.splits)
  have d: "plain ?h Data \<subseteq> seen ?h t"
    using assms(5) D
    by (auto simp: try_run_direct_at_def execute_take_at_def execute_run_at_def do_accesses_def
        split: prod.splits feature.splits outcome.splits)
  have r: "\<not> raced ?h"
    using assms(5) D slots hb_parts(1) [OF assms(2)]
    by (auto simp: try_run_direct_at_def execute_take_at_def execute_run_at_def do_accesses_def
        split: prod.splits feature.splits outcome.splits)
  have sl: "plain ?h (Slots c) = plain h (Slots c) \<or>
      (\<exists>f. pcs s t \<in> {Execute c, Running c f}) \<and> plain ?h (Slots c) \<subseteq> seen ?h t" for c
  proof (cases "\<exists>f. pcs s t \<in> {Execute c, Running c f}")
    case True
    then show ?thesis
      using slots [OF True]
      by (auto simp: execute_take_at_def execute_run_at_def do_accesses_def
          split: prod.splits feature.splits outcome.splits)
  next
    case False
    then show ?thesis
      using assms(5)
      by (auto simp: try_run_direct_at_def execute_take_at_def execute_run_at_def do_accesses_def
          split: prod.splits feature.splits outcome.splits)
  qed
  have st: "status (raw s) \<noteq> UNLOCKED" using inv_parts(2) [OF assms(1)] H by (auto simp: lock_inv_def)
  have "data_seen s' g' ?h"
    using kept H same d st by (auto simp: data_seen_def)
  moreover have "msg h (Word t) \<subseteq> seen ?h t"
    using hb_parts(6) [OF assms(2)] w f(2) [of t] by (auto simp: words_seen_def)
  moreover have "plain ?h (Slots c) = plain h (Slots c) \<or>
      heap s c \<noteq> None \<and> pcs s c \<noteq> SwapTail \<and> (\<forall>x \<in> set (gq g). next_of s x \<noteq> Some c) \<and>
      carrier g c = Some t \<and> plain ?h (Slots c) \<subseteq> seen ?h t" for c
    using sl [of c] carrier_leader [OF assms(1), of t c] head [of c] by blast
  moreover have "same_queue g g'" using kept by simp
  ultimately show ?thesis
    using same r f(2) by (intro hb_frame [OF assms(2), where t = t]) (simp_all add: f linking_None)
qed

subsection \<open>Joining the queue\<close>

lemma seen_wait_cas:
  assumes "inv cfg s g" and "hb_inv s g h" and "thread_step cfg t s = Next s' es"
    and "kept g g'" and "pcs s t = WaitCas" and nd: "heap s t = Some nd" and "futex nd = WAITING"
  shows "hb_inv s' g' (do_accesses t (accesses cfg t s (pcs s t)) h)"
proof -
  let ?h = "do_accesses t (accesses cfg t s (pcs s t)) h"
  have s': "s' = goto t FutexCheck (put_node t (nd\<lparr>futex := SLEEPING\<rparr>) s)"
    using assms(3,5-7) by (simp add: thread_step_def access_def futex_cas_def)
  have body: "plain h (Body t) \<subseteq> seen h t"
    using visible_own [OF assms(2)] nd by (simp add: visible_def)
  have same: "same_queue g g'" "next_of s' = next_of s" "heap s' c = None \<longleftrightarrow> heap s c = None"
    "u \<noteq> t \<Longrightarrow> pcs s' u = pcs s u" "pcs s' t = FutexCheck" "raw s' = raw s" "gH g' = gH g" for c u
    using assms(4) nd by (auto simp: s')
  have f: "plain ?h = plain h" "raced ?h = raced h" "seen h u \<subseteq> seen ?h u"
    "msg h l \<subseteq> msg ?h l" "l \<noteq> Word t \<Longrightarrow> msg ?h l = msg h l"
    "shared ?h c = shared h c \<or> c = t \<and> shared ?h c \<subseteq> shared h c \<union> seen ?h t" for u l c
    using assms(5,7) nd body by (auto simp: node_wait_at_def do_accesses_def touch_def Let_def)
  have "data_seen s' g' ?h"
    using f same(6,7) by (intro data_seen_same [OF hb_parts(5) [OF assms(2)]]) simp_all
  moreover have "shared ?h c = shared h c \<or>
      heap s c \<noteq> None \<and> (c = t \<or> carrier g c = Some t) \<and> shared ?h c \<subseteq> shared h c \<union> seen ?h t" for c
    using f(6) [of c] nd by auto
  ultimately show ?thesis
    using f(3-5) hb_parts(1) [OF assms(2)]
    by (intro hb_frame [OF assms(2) same(1-3), where t = t])
      (simp_all add: f(1,2) linking_None same(4,5))
qed

lemma seen_StoreNext:
  assumes "inv cfg s g" and "hb_inv s g h" and "thread_step cfg t s = Next s' es"
    and "kept g g'" and "pcs s t = StoreNext p"
  shows "hb_inv s' g' (do_accesses t (accesses cfg t s (pcs s t)) h)"
proof -
  let ?h = "do_accesses t (accesses cfg t s (pcs s t)) h"
  note Q = inv_parts(1) [OF assms(1), unfolded queue_inv_def]
  have t: "t \<in> set (gq g)" using inv_parts(5) [OF assms(1), of t] assms(5) by auto
  have ln: "linking s t = Some p" using assms(5) by simp
  then have "t \<noteq> hd (gq g)" using Q t by auto
  then have tt: "t \<in> set (List.tl (gq g))" using t by (cases "gq g") auto
  then have p: "p \<in> set (gq g)" "next_of s p = None"
    using linked_pending Q ln by blast+
  obtain nd where nd: "heap s p = Some nd" using queued_facts(3) [OF assms(1) p(1)] by auto
  have s': "s' = goto t (Spin 0) (put_node p (store_next nd t) s)"
    using assms(3,5) nd by (simp add: thread_step_def access_def)
  have s'f: "next_of s' = (next_of s)(p := Some t)" "heap s' c = None \<longleftrightarrow> heap s c = None"
    "pcs s' = (pcs s)(t := Spin 0)" "raw s' = raw s" "linking s' = (linking s)(t := None)" for c
    using nd by (auto simp: s' store_next_def linking_def)
  have Qf: "gq g' = gq g" "gL g' = gL g" "gO g' = gO g" "gH g' = gH g" using assms(4) by auto
  note H = hb_parts [OF assms(2)]
  have body: "plain h (Body p) \<subseteq> seen h t" using H(4) ln by (auto simp: links_seen_def)
  have f: "plain ?h = plain h" "raced ?h = raced h" "seen h u \<subseteq> seen ?h u"
    "msg ?h = (msg h)(Link p := seen ?h t)"
    "shared ?h = (shared h)(p := insert (clock h) (shared h p))" "clock h \<in> seen ?h t" for u l
    using assms(5) body by (auto simp: store_next_at_def do_accesses_def touch_def Let_def)
  have C: "carrier g' c = carrier g c" for c by (simp add: carrier_def Qf)
  have own: "plain h (Body t) \<union> plain h (Slots t) \<subseteq> seen h t"
  proof -
    have "carrier g t = None"
      using queued_facts(1) [OF assms(1) t] \<open>t \<noteq> hd (gq g)\<close> by (simp add: carrier_def)
    then show ?thesis using H(2,3) [of t] t queued_facts(3) [OF assms(1) t]
      by (auto simp: node_seen_def slots_seen_def)
  qed
  have N: "node_seen s' g' ?h c" for c
  proof -
    have "reach s g h c \<subseteq> reach s' g' ?h c"
      using f(3) p(2) by (auto simp: reach_def C s'f(1) f(4) split: option.splits)
    moreover have "clock h \<in> reach s' g' ?h p" using f(6) by (simp add: reach_def s'f(1) f(4))
    moreover have "c = p \<Longrightarrow> heap s c \<noteq> None" using nd by simp
    ultimately show ?thesis
      using f(3) nd by (intro node_seen_step [OF H(2)]) (auto simp: memory_def f(1,5) s'f(2))
  qed
  have S: "slots_seen s' g' ?h c" for c
    using f(3) by (intro slots_seen_same [OF H(3)]) (auto simp: f(1) C Qf s'f split: if_splits)
  have ld: "loaded (pcs s u) = Some c \<Longrightarrow> c \<noteq> p" for u c
    using inv_parts(5) [OF assms(1), of u] p(2) by (cases "pcs s u") (auto simp: leads_def bombing_def)
  note L = links_seenD [OF H(4)]
  have up: "X \<subseteq> seen h u \<Longrightarrow> X \<subseteq> seen ?h u" "X \<subseteq> seen h u \<union> Y \<Longrightarrow> X \<subseteq> seen ?h u \<union> Y" for X Y u
    using f(3) [of u] by blast+
  have L: "links_seen s' g' ?h"
  proof (rule links_seenI)
    show "plain ?h (Body y) \<union> plain ?h (Slots y) \<subseteq> msg ?h (Link x)"
      if "x \<in> set (gq g')" "next_of s' x = Some y" for x y
    proof (cases "x = p")
      case True
      then have "y = t" using that by (simp add: s'f(1))
      with True show ?thesis using up(1) [OF own] by (simp add: f(1,4))
    next
      case False
      then show ?thesis using that L(1) [of x y] by (simp add: f(1,4) s'f(1) Qf(1))
    qed
    show "plain ?h (Body (last (gq g'))) \<subseteq> msg ?h Tail" if "gq g' \<noteq> []"
      using that L(2) by (simp add: f(1,4) Qf(1))
    show "plain ?h (Body q) \<subseteq> seen ?h u" if "linking s' u = Some q" for u q
      using that L(3) up(1) by (auto simp: f(1) s'f(5) split: if_splits)
    show "msg ?h (Link c) \<subseteq> seen ?h u" if "loaded (pcs s' u) = Some c" for u c
      using that L(4) [of u c] ld [of u c] up(1) by (simp add: f(4) s'f(3) split: if_splits)
    show "msg ?h (Link c) \<subseteq> seen ?h c \<union> msg ?h (Word c)"
      if "c \<notin> set (gq g')" "next_of s' c \<noteq> None" "gO g' c = None" for c
      using that L(5) [of c] up(2) p(1) by (auto simp: f(4) s'f(1) Qf split: if_splits)
    show "msg ?h (Link c) \<subseteq> seen ?h w"
      if "c \<notin> set (gq g')" "next_of s' c \<noteq> None" "gO g' c = Some (w, b)" for c w b
      using that L(6) [of c w b] up(1) p(1) by (auto simp: f(4) s'f(1) Qf split: if_splits)
  qed
  have D: "data_seen s' g' ?h"
    using f(3) by (intro data_seen_same [OF H(5)]) (simp_all add: f(1,4) Qf s'f(4))
  have W: "words_seen s' ?h"
    using f(3) by (intro words_seen_step [OF H(6), where t = t]) (simp_all add: f(4) s'f(3))
  show ?thesis using N S L D W H(1) by (simp add: hb_inv_def f(2))
qed

lemma seen_SwapTail:
  assumes "inv cfg s g" and "hb_inv s g h" and "thread_step cfg t s = Next s' es"
    and "moved t (pcs s t) g g'" and pc: "pcs s t = SwapTail"
  shows "hb_inv s' g' (do_accesses t (accesses cfg t s (pcs s t)) h)"
proof -
  define h' where "h' = do_accesses t (accesses cfg t s (pcs s t)) h"
  note Q = inv_parts(1) [OF assms(1), unfolded queue_inv_def]
  have L: "idle (view_of s g t)" "\<exists>nd. heap s t = Some nd \<and> nxt nd = None"
    using inv_parts(5) [OF assms(1), of t] pc by auto
  then have t: "t \<notin> set (gq g)" "gO g t = None" "next_of s t = None" "heap s t \<noteq> None"
    by (auto simp: idle_def calm_def next_of_def)
  have Qf: "gq g' = gq g @ [t]" "gL g' = (if gq g = [] then Some t else gL g)" "gO g' = gO g"
    "gH g' = gH g" using assms(4) pc by simp_all
  let ?k = "case tail (raw s) of Some p \<Rightarrow> StoreNext p | None \<Rightarrow> Acquire"
  have s': "next_of s' = next_of s" "heap s' = heap s" "status (raw s') = status (raw s)"
    "pcs s' = (pcs s)(t := ?k)"
    using assms(3) pc by (auto simp: thread_step_def swap_tail_def)
  have tl: "tail (raw s) = (if gq g = [] then None else Some (last (gq g)))" using Q by simp
  note H = hb_parts [OF assms(2)] and K = links_seenD [OF hb_parts(4) [OF assms(2)]]
  have f: "plain h' = plain h" "raced h' = raced h" "shared h' = shared h"
    "seen h u \<subseteq> seen h' u" "msg h Tail \<subseteq> seen h' t"
    "msg h' = (msg h)(Tail := msg h Tail \<union> seen h' t)" for u
    using pc by (auto simp: h'_def swap_tail_at_def do_accesses_def Let_def)
  have up: "X \<subseteq> seen h u \<Longrightarrow> X \<subseteq> seen h' u" "X \<subseteq> seen h u \<union> Y \<Longrightarrow> X \<subseteq> seen h' u \<union> Y" for X Y u
    using f(4) [of u] by blast+
  have own: "plain h (Body t) \<subseteq> seen h' t" "plain h (Slots t) \<subseteq> seen h' t"
    using H(2,3) [of t] t(4) pc up(1) by (simp_all add: node_seen_def slots_seen_def)
  have C: "carrier g' c = (if gq g = [] \<and> c = t then Some t else carrier g c)" for c
    using t(1,2) by (cases "gq g") (auto simp: carrier_def Qf)
  have Ct: "carrier g t = None" using t(1,2) by (cases "gq g") (auto simp: carrier_def)
  have N: "node_seen s' g' h' c" for c
  proof (rule node_seen_step [OF H(2)])
    show "reach s g h c \<subseteq> reach s' g' h' c"
      using f(4) Ct by (intro reach_mono) (auto simp: C s'(1) f(6))
  qed (use f(4) in \<open>auto simp: memory_def f(1,3) s'(2)\<close>)
  have S: "slots_seen s' g' h' c" for c
  proof (cases "c = t")
    case True
    then show ?thesis
      using own Ct by (auto simp: slots_seen_def f(1) C split: if_splits)
  next
    case False
    then show ?thesis
      using f(4) by (intro slots_seen_same [OF H(3)]) (simp_all add: f(1) C Qf s'(4))
  qed
  have "links_seen s' g' h'"
  proof (rule links_seenI)
    show "plain h' (Body y) \<union> plain h' (Slots y) \<subseteq> msg h' (Link x)"
      if "x \<in> set (gq g')" "next_of s' x = Some y" for x y
      using that t(3) K(1) [of x y] by (auto simp: f(1,6) s'(1) Qf(1))
    show "plain h' (Body (last (gq g'))) \<subseteq> msg h' Tail" if "gq g' \<noteq> []"
      using own(1) by (auto simp: f(1,6) Qf(1))
    show "plain h' (Body q) \<subseteq> seen h' u" if "linking s' u = Some q" for u q
    proof (cases "u = t")
      case True
      then have "gq g \<noteq> [] \<and> q = last (gq g)"
        using linking_Some [OF that] tl by (auto simp: s'(4) split: option.splits if_splits)
      then show ?thesis using True K(2) f(5) by (auto simp: f(1))
    next
      case False
      then have "linking s u = Some q" using that linking_Some [OF that] by (simp add: s'(4))
      then show ?thesis using K(3) up(1) by (simp add: f(1))
    qed
    show "msg h' (Link c) \<subseteq> seen h' u" if "loaded (pcs s' u) = Some c" for u c
      using that K(4) [of u c] up(1) by (auto simp: f(6) s'(4) split: if_splits option.splits)
    show "msg h' (Link c) \<subseteq> seen h' c \<union> msg h' (Word c)"
      if "c \<notin> set (gq g')" "next_of s' c \<noteq> None" "gO g' c = None" for c
      using that K(5) [of c] up(2) by (simp add: f(6) s'(1) Qf)
    show "msg h' (Link c) \<subseteq> seen h' w"
      if "c \<notin> set (gq g')" "next_of s' c \<noteq> None" "gO g' c = Some (w, b)" for c w b
      using that K(6) [of c w b] up(1) by (simp add: f(6) s'(1) Qf)
  qed
  moreover have "data_seen s' g' h'"
    using f(4) by (intro data_seen_same [OF H(5)]) (simp_all add: f(1,6) Qf s'(3))
  moreover have "msg h (Word t) \<subseteq> seen h' t"
    using H(6) pc up(1) by (simp add: words_seen_def)
  then have "words_seen s' h'"
    using f(4) by (intro words_seen_step [OF H(6), where t = t]) (simp_all add: f(6) s'(4))
  ultimately show ?thesis using N S H(1) by (simp add: hb_inv_def f(2) h'_def [symmetric])
qed

subsection \<open>Making and dropping the node\<close>

lemma loaded_head: "local cfg t v k \<Longrightarrow> loaded k = Some c \<Longrightarrow> vld v \<and> vtop v = c"
  by (cases k) (auto simp: leads_def bombing_def)

lemma linking_queued:
  assumes "inv cfg s g" and "linking s u = Some p"
  shows "u \<in> set (List.tl (gq g))" and "p \<in> set (gq g)" and "next_of s p = None"
proof -
  note Q = inv_parts(1) [OF assms(1), unfolded queue_inv_def]
  have u: "u \<in> set (gq g)"
    using inv_parts(5) [OF assms(1), of u] linking_Some [OF assms(2)] by auto
  then have "u \<noteq> hd (gq g)" using Q assms(2) by auto
  then show t: "u \<in> set (List.tl (gq g))" using u by (cases "gq g") auto
  show "p \<in> set (gq g)" "next_of s p = None" using linked_pending Q t assms(2) by blast+
qed

lemma hb_private:
  assumes I: "inv cfg s g" and B: "hb_inv s g h" and q: "kept g g'" and t: "idle (view_of s g t)"
    and s': "\<And>c. c \<noteq> t \<Longrightarrow> heap s' c = heap s c" "pcs s' = (pcs s)(t := k)" "raw s' = raw s"
      "next_of s' t = None"
    and k: "\<forall>p. pcs s t \<noteq> StoreNext p" "\<forall>p. k \<noteq> StoreNext p" "loaded k = None" "\<not> waiting k"
    and h': "\<And>u. seen h u \<subseteq> seen h' u" "\<And>c. c \<noteq> t \<Longrightarrow> plain h' (Body c) = plain h (Body c)"
      "\<And>c. c \<noteq> t \<Longrightarrow> plain h' (Slots c) = plain h (Slots c)" "plain h' Data = plain h Data"
      "shared h' = shared h" "\<And>l. l \<noteq> Word t \<Longrightarrow> l \<noteq> Link t \<Longrightarrow> msg h' l = msg h l"
      "\<not> raced h'"
    and own: "msg h' (Word t) \<subseteq> seen h' t" "memory h' t \<subseteq> seen h' t"
  shows "hb_inv s' g' h'"
proof -
  have T: "t \<notin> set (gq g)" "gO g t = None" "gH g \<noteq> Some t" "gL g \<noteq> Some t"
    using t by (auto simp: idle_def calm_def)
  then have hd: "gq g \<noteq> [] \<Longrightarrow> hd (gq g) \<noteq> t" by (metis hd_in_set)
  have Qf: "gq g' = gq g" "gL g' = gL g" "gO g' = gO g" "gH g' = gH g" using q by auto
  have C: "carrier g' c = carrier g c" for c by (simp add: carrier_def Qf)
  have Ct: "carrier g t = None" using T(2) hd by (auto simp: carrier_def)
  have nx: "c \<noteq> t \<Longrightarrow> next_of s' c = next_of s c" for c using s'(1) by (simp add: next_of_def)
  have ln: "linking s' = linking s"
    using linking_goto [of s t k s'] k(1,2) s'(2) by (simp add: linking_None)
  have D: "gL g = Some u \<Longrightarrow> hd (gq g) \<noteq> t" for u
    using hd inv_parts(1) [OF I] by (auto simp: queue_inv_def)
  note H = hb_parts [OF B] and K = links_seenD [OF hb_parts(4) [OF B]]
  have up: "X \<subseteq> seen h u \<Longrightarrow> X \<subseteq> seen h' u" "X \<subseteq> seen h u \<union> Y \<Longrightarrow> X \<subseteq> seen h' u \<union> Y" for X Y u
    using h'(1) [of u] by blast+
  have N: "node_seen s' g' h' c" for c
  proof (cases "c = t")
    case True
    then show ?thesis using own(2) by (auto simp: node_seen_def memory_def reach_def)
  next
    case False
    then have "reach s g h c \<subseteq> reach s' g' h' c"
      using h'(1,6) nx by (intro reach_mono) (simp_all add: C)
    then show ?thesis
      using False h' s'(1) by (intro node_seen_step [OF H(2)]) (simp_all add: memory_def)
  qed
  have S: "slots_seen s' g' h' c" for c
  proof (cases "c = t")
    case True
    then show ?thesis using own(2) Ct by (auto simp: slots_seen_def memory_def C)
  next
    case False
    then show ?thesis using h' s'(2) by (intro slots_seen_same [OF H(3)]) (simp_all add: C Qf)
  qed
  have "links_seen s' g' h'"
  proof (rule links_seenI)
    show "plain h' (Body y) \<union> plain h' (Slots y) \<subseteq> msg h' (Link x)"
      if "x \<in> set (gq g')" "next_of s' x = Some y" for x y
    proof -
      have x: "x \<in> set (gq g)" "x \<noteq> t" using that T(1) by (auto simp: Qf)
      then have y: "next_of s x = Some y" using that nx by simp
      then have "y \<noteq> t" using successor_in_tl [OF I x(1)] T(1) by (auto dest: mem_tl)
      then show ?thesis using K(1) [OF x(1) y] h'(2,3,6) x(2) by simp
    qed
    show "plain h' (Body (last (gq g'))) \<subseteq> msg h' Tail" if "gq g' \<noteq> []"
    proof -
      have "last (gq g) \<noteq> t" using T(1) that by (auto simp: Qf dest: last_in_set)
      then show ?thesis using K(2) that h'(2,6) by (simp add: Qf)
    qed
    show "plain h' (Body p) \<subseteq> seen h' u" if "linking s' u = Some p" for u p
    proof -
      have "p \<noteq> t" using linking_queued(2) [OF I, of u p] that T(1) by (auto simp: ln)
      then show ?thesis using K(3) [of u p] that up(1) h'(2) by (simp add: ln)
    qed
    show "msg h' (Link c) \<subseteq> seen h' u" if "loaded (pcs s' u) = Some c" for u c
    proof -
      have u: "loaded (pcs s u) = Some c" using that k(3) by (simp add: s'(2) split: if_splits)
      then have "c \<noteq> t" using loaded_head [OF inv_parts(5) [OF I, of u] u] D by auto
      then show ?thesis using K(4) [OF u] up(1) h'(6) by simp
    qed
    show "msg h' (Link c) \<subseteq> seen h' c \<union> msg h' (Word c)"
      if "c \<notin> set (gq g')" "next_of s' c \<noteq> None" "gO g' c = None" for c
    proof -
      have "c \<noteq> t" using that(2) s'(4) by auto
      then show ?thesis using that K(5) [of c] up(2) h'(6) nx by (simp add: Qf)
    qed
    show "msg h' (Link c) \<subseteq> seen h' w"
      if "c \<notin> set (gq g')" "next_of s' c \<noteq> None" "gO g' c = Some (w, b)" for c w b
    proof -
      have "c \<noteq> t" using that(2) s'(4) by auto
      then show ?thesis using that K(6) [of c w b] up(1) h'(6) nx by (simp add: Qf)
    qed
  qed
  moreover have "plain h Data \<subseteq> seen h' u \<union> msg h' (Word u)" if "gH g = Some u" for u
  proof -
    have "plain h Data \<subseteq> seen h u \<union> msg h (Word u)" "u \<noteq> t"
      using H(5) that T(3) by (auto simp: data_seen_def)
    then show ?thesis using up(2) h'(6) by simp
  qed
  then have "data_seen s' g' h'"
    using H(5) h'(4,6) by (simp add: data_seen_def Qf s'(3))
  moreover have "words_seen s' h'"
    using h'(1,6) own(1) s'(2) by (intro words_seen_step [OF H(6), where t = t]) simp_all
  ultimately show ?thesis using N S h'(7) by (simp add: hb_inv_def)
qed

lemma seen_SlowNew:
  assumes "inv cfg s g" and "hb_inv s g h" and "thread_step cfg t s = Next s' es"
    and "moved t (pcs s t) g g'" and pc: "pcs s t = SlowNew f"
  shows "hb_inv s' g' (do_accesses t (accesses cfg t s (pcs s t)) h)"
proof -
  have L: "idle (view_of s g t)" "heap s t = None"
    using inv_parts(5) [OF assms(1), of t] pc by auto
  have s': "s' = goto t SwapTail (put_node t (node_new f) s)"
    using assms(3) pc by (simp add: thread_step_def)
  have m: "memory h t \<subseteq> seen h t" using hb_parts(2) [OF assms(2), of t] L(2) by (simp add: node_seen_def)
  then have "plain h (Body t) \<subseteq> seen h t" "shared h t \<subseteq> seen h t" "plain h (Slots t) \<subseteq> seen h t"
    by (auto simp: memory_def)
  then show ?thesis
    using L hb_parts(1) [OF assms(2)] assms(4)
    by (intro hb_private [OF assms(1,2), where t = t and k = SwapTail])
      (auto simp: pc s' run_slowly_node_at_def do_accesses_def memory_def next_of_def node_new_def)
qed

lemma seen_end:
  assumes "inv cfg s g" and "hb_inv s g h" and "thread_step cfg t s = Next s' es"
    and "moved t (pcs s t) g g'" and pc: "pcs s t \<in> {AttachOk, AttachErr} \<or> (\<exists>p. pcs s t = Unwinding p)"
  shows "hb_inv s' g' (do_accesses t (accesses cfg t s (pcs s t)) h)"
proof -
  have L: "idle (view_of s g t)"
    using inv_parts(5) [OF assms(1), of t] pc by auto
  obtain k where s': "s' = goto t k (free_node t s)" "\<exists>ret. k = Returning ret"
    using assms(3) pc by (auto simp: thread_step_def access_def split: option.splits if_splits)
  have N: "heap s t \<noteq> None"
    using assms(3) pc by (auto simp: thread_step_def access_def split: option.splits)
  have T: "carrier g t = None" "t \<notin> set (gq g)" "gO g t = None"
    using L by (auto simp: idle_def calm_def carrier_def)
  note H = hb_parts [OF assms(2)]
  have "\<not> waiting (pcs s t)" using pc by auto
  then have w: "msg h (Word t) \<subseteq> seen h t" using H(6) by (simp add: words_seen_def)
  have "next_of s t \<noteq> None \<Longrightarrow> msg h (Link t) \<subseteq> seen h t"
    using links_seenD(5) [OF H(4) T(2) _ T(3)] w by blast
  then have "memory h t \<subseteq> seen h t"
    using H(2) [of t] N w by (auto simp: node_seen_def reach_def T(1) split: if_splits)
  then have "plain h (Body t) \<subseteq> seen h t" "shared h t \<subseteq> seen h t" "plain h (Slots t) \<subseteq> seen h t"
    by (auto simp: memory_def)
  moreover have "accesses cfg t s (pcs s t) = run_slowly_end_at t" using pc by auto
  ultimately show ?thesis
    using L H(1) w assms(4) pc s'(2)
    by (intro hb_private [OF assms(1,2), where t = t and k = k])
      (auto simp: s'(1) run_slowly_end_at_def do_accesses_def memory_def next_of_def)
qed

end
