(* ===== verification/Lam_Seen_Queue.thy ===== *)
theory Lam_Seen_Queue
  imports Lam_Seen_Steps
begin

section \<open>The steps that answer a node or close the queue\<close>

text \<open>
  A thread that answers a node releases all it has seen into the node's word; so the owner, who
  acquires the word, has seen every access to its node when it lets the node go.
\<close>

subsection \<open>An answer\<close>

lemma dormant_waiting:
  assumes "local cfg t v k" and "dormant t v"
  shows "waiting k"
  using assms
proof (induction k)
  case (WakeSyscall a k)
  then show ?case by (cases k) (auto simp: dormant_def role_defs split: if_splits)
qed (auto simp: dormant_def role_defs split: if_splits)

lemma notify_fields:
  assumes "plain h (Body c) \<subseteq> seen h t" and "h' = do_accesses t (notify_at c) h"
  shows "plain h' = plain h" and "raced h' = raced h" and "seen h u \<subseteq> seen h' u"
    and "msg h' = (msg h)(Word c := msg h (Word c) \<union> seen h' t)"
    and "shared h' = (shared h)(c := insert (clock h) (shared h c))" and "clock h \<in> seen h' t"
  using assms(1) by (auto simp: assms(2) notify_at_def do_accesses_def touch_def Let_def)

lemma wake_fields:
  assumes "wake t s a m fs k = Next s' es" and "continues k"
  shows "next_of s' = next_of s" and "heap s' c = None \<longleftrightarrow> heap s c = None" and "raw s' = raw s"
    and "\<exists>k'. pcs s' = (pcs s)(t := k') \<and> loaded k' = None \<and> \<not> waiting k' \<and> k' \<noteq> SwapTail"
    and "heap s a \<noteq> None"
proof -
  obtain nd where nd: "heap s a = Some nd"
    using assms(1) by (auto simp: wake_def access_def split: option.splits)
  let ?k = "if futex nd = SLEEPING then WakeSyscall a k else k"
  have s': "s' = goto t ?k (put_node a (nd\<lparr>futex := m\<rparr>) s)"
    using assms(1) nd by (auto simp: wake_def access_def futex_swap_def)
  show "next_of s' = next_of s" "heap s' c = None \<longleftrightarrow> heap s c = None" "raw s' = raw s"
    "heap s a \<noteq> None" using nd by (simp_all add: s')
  have "loaded ?k = None \<and> \<not> waiting ?k \<and> ?k \<noteq> SwapTail" using assms(2) by auto
  then show "\<exists>k'. pcs s' = (pcs s)(t := k') \<and> loaded k' = None \<and> \<not> waiting k' \<and> k' \<noteq> SwapTail"
    by (intro exI [of _ ?k]) (simp add: s')
qed

lemma hb_notify:
  assumes I: "inv cfg s g" and B: "hb_inv s g h" and W: "wake t s a m fs k = Next s' es"
    and k: "continues k" and w: "\<not> waiting (pcs s t)"
    and vis: "plain h (Body a) \<subseteq> seen h t" and dw: "a \<noteq> t \<Longrightarrow> waiting (pcs s a)"
    and carr: "\<And>c w. carrier g c = Some w \<Longrightarrow> carrier g' c = Some w \<or> c = a \<and> w = t"
    and q: "set (gq g') \<subseteq> set (gq g)" "gq g' \<noteq> [] \<Longrightarrow> gq g \<noteq> [] \<and> last (gq g') = last (gq g)"
    and own: "\<And>c. c \<in> set (gq g') \<Longrightarrow> carrier g' c = None \<or> carrier g' c = Some c \<Longrightarrow>
      plain h (Slots c) \<subseteq> seen h c"
    and car: "\<And>c w. carrier g' c = Some w \<Longrightarrow> plain h (Body c) \<union> plain h (Slots c) \<subseteq> seen h w"
    and det: "\<And>c. c \<notin> set (gq g') \<Longrightarrow> next_of s c \<noteq> None \<Longrightarrow> gO g' c = None \<Longrightarrow>
      msg h (Link c) \<subseteq> seen h c \<union> msg h (Word c) \<or> c = a \<and> msg h (Link c) \<subseteq> seen h t"
    and det': "\<And>c w b. c \<notin> set (gq g') \<Longrightarrow> next_of s c \<noteq> None \<Longrightarrow> gO g' c = Some (w, b) \<Longrightarrow>
      msg h (Link c) \<subseteq> seen h w"
    and hold: "\<And>u. gH g' = Some u \<Longrightarrow> gH g = Some u \<or> u = a \<and> gH g = Some t"
  shows "hb_inv s' g' (do_accesses t (notify_at a) h)"
proof -
  define h' where "h' = do_accesses t (notify_at a) h"
  note f = notify_fields [OF vis h'_def] and s' = wake_fields [OF W k]
  note H = hb_parts [OF B] and K = links_seenD [OF hb_parts(4) [OF B]]
  obtain k' where k': "pcs s' = (pcs s)(t := k')" "loaded k' = None" "\<not> waiting k'" "k' \<noteq> SwapTail"
    using s'(4) by blast
  have up: "X \<subseteq> seen h u \<Longrightarrow> X \<subseteq> seen h' u" "X \<subseteq> seen h u \<Longrightarrow> X \<subseteq> seen h' u \<union> Y"
    "X \<subseteq> seen h u \<union> Y \<Longrightarrow> X \<subseteq> seen h' u \<union> Y" for X Y u
    using f(3) [of u] by blast+
  have word: "X \<subseteq> seen h t \<Longrightarrow> X \<subseteq> msg h' (Word a)" for X using up(1) [of X t] by (auto simp: f(4))
  have wt: "msg h (Word t) \<subseteq> seen h t" using H(6) w by (simp add: words_seen_def)
  have N: "node_seen s' g' h' c" for c
  proof (rule node_seen_step [OF H(2) s'(2) f(3)])
    have "clock h \<in> reach s' g' h' a" using f(6) by (simp add: reach_def f(4))
    then show "memory h' c \<subseteq> memory h c \<union> (if heap s c = None then {} else reach s' g' h' c)"
      using s'(5) by (auto simp: memory_def f(1,5))
    have "seen h t \<subseteq> msg h' (Word a)" by (rule word) simp
    then show "reach s g h c \<subseteq> reach s' g' h' c"
      using f(3) carr [of c]
      by (cases "carrier g c") (fastforce simp: reach_def s'(1) f(4))+
  qed (simp add: f(1))
  have S: "slots_seen s' g' h' c" for c
    using up(1) own [of c] car [of c] k'(1,4) f(3)
    by (intro slots_seen_step [OF H(3)]) (auto simp: f(1) split: if_splits)
  have "links_seen s' g' h'"
  proof (rule links_seenI)
    show "plain h' (Body y) \<union> plain h' (Slots y) \<subseteq> msg h' (Link x)"
      if "x \<in> set (gq g')" "next_of s' x = Some y" for x y
      using that q(1) K(1) [of x y] by (auto simp: f(1,4) s'(1))
    show "plain h' (Body (last (gq g'))) \<subseteq> msg h' Tail" if "gq g' \<noteq> []"
      using K(2) q(2) [OF that] by (simp add: f(1,4))
    show "plain h' (Body p) \<subseteq> seen h' u" if "linking s' u = Some p" for u p
    proof -
      have "linking s u = Some p" using linking_Some [OF that] k'(1,3) by (auto split: if_splits)
      then show ?thesis using K(3) up(1) by (simp add: f(1))
    qed
    show "msg h' (Link c) \<subseteq> seen h' u" if "loaded (pcs s' u) = Some c" for u c
      using that K(4) [of u c] up(1) k'(2) by (simp add: f(4) k'(1) split: if_splits)
    show "msg h' (Link c) \<subseteq> seen h' c \<union> msg h' (Word c)"
      if "c \<notin> set (gq g')" "next_of s' c \<noteq> None" "gO g' c = None" for c
      using det [of c] that up(3) [of "msg h (Link c)" c] word
      by (auto simp: f(4) s'(1))
    show "msg h' (Link c) \<subseteq> seen h' w"
      if "c \<notin> set (gq g')" "next_of s' c \<noteq> None" "gO g' c = Some (w, b)" for c w b
      using det' [of c w b] that up(1) by (simp add: f(4) s'(1))
  qed
  moreover have "plain h Data \<subseteq> seen h' u \<union> msg h' (Word u)" if "gH g' = Some u" for u
    using hold [OF that]
  proof
    assume "gH g = Some u"
    then have "plain h Data \<subseteq> seen h u \<union> msg h (Word u)" using H(5) by (simp add: data_seen_def)
    then show ?thesis using f(3) [of u] by (auto simp: f(4))
  next
    assume "u = a \<and> gH g = Some t"
    then show ?thesis using word [OF holder_sees_data [OF B _ w]] by auto
  qed
  then have "data_seen s' g' h'" using H(5) by (simp add: data_seen_def s'(3) f(1,4))
  moreover have "words_seen s' h'"
    using dw wt f(3) by (intro words_seen_step [OF H(6), where t = t]) (auto simp: f(4) k'(1))
  ultimately show ?thesis using N S H(1) by (simp add: hb_inv_def f(2) h'_def [symmetric])
qed

subsection \<open>The four moves of the queue\<close>

lemma seen_pop:
  assumes "inv cfg s g" and "hb_inv s g h" and "thread_step cfg t s = Next s' es"
    and "moved t (pcs s t) g g'" and pc: "\<exists>fin. pcs s t \<in> {WakeDone c n, BombWake c n fin}"
  shows "hb_inv s' g' (do_accesses t (accesses cfg t s (pcs s t)) h)"
proof -
  have L: "gL g = Some t" "hd (gq g) = c" "next_of s c = Some n"
    using inv_parts(5) [OF assms(1), of t] pc by (auto simp: leads_def bombing_def)
  obtain q where q: "gq g = c # n # q" "gq g' = n # q" "gL g' = gL g" "gO g' = gO g" "gH g' = gH g"
    using assms(4) pc by (auto simp: popped_def)
  have "distinct (gq g)" using inv_parts(1) [OF assms(1)] by (simp add: queue_inv_def)
  with q(1) have d: "n \<noteq> c" "c \<notin> set q" "n \<notin> set q" by auto
  have O: "gO g x = None" if "x \<in> set (gq g)" for x using queued_facts(1) [OF assms(1) that] by simp
  note K = links_seenD [OF hb_parts(4) [OF assms(2)]]
  note S = hb_parts(3) [OF assms(2), unfolded slots_seen_def]
  have C: "carrier g x = (if x = c then Some t else map_option fst (gO g x))"
    "carrier g' x = (if x = n then Some t else map_option fst (gO g x))" for x
    using L(1) by (simp_all add: carrier_def q)
  have link: "msg h (Link c) \<subseteq> seen h t" by (rule K(4)) (use pc in auto)
  then have new: "plain h (Body n) \<union> plain h (Slots n) \<subseteq> seen h t"
    using K(1) [of c n] L(3) q(1) by auto
  have car: "plain h (Body x) \<union> plain h (Slots x) \<subseteq> seen h w" if "carrier g' x = Some w" for x w
  proof (cases "x = n")
    case False
    then have "x \<noteq> c" using that O [of c] q(1) by (auto simp: C)
    then show ?thesis using False that S [of x] by (simp add: C)
  qed (use that new in \<open>simp add: C\<close>)
  have own: "plain h (Slots x) \<subseteq> seen h x"
    if "x \<in> set (gq g')" "carrier g' x = None \<or> carrier g' x = Some x" for x
  proof (cases "x = n")
    case False
    then have "x \<in> set (gq g)" "x \<noteq> c" using that(1) q(1,2) d by auto
    then show ?thesis using S [of x] O by (simp add: C)
  qed (use that car in \<open>auto simp: C\<close>)
  obtain m fs k where W: "wake t s c m fs k = Next s' es" "continues k"
    "accesses cfg t s (pcs s t) = notify_at c"
    using assms(3) pc by (auto simp: thread_step_def)
  show ?thesis
    unfolding W(3)
  proof (rule hb_notify [OF assms(1,2) W(1,2) _ _ _ _ _ _ own car])
    show "\<not> waiting (pcs s t)" using pc by auto
    show "plain h (Body c) \<subseteq> seen h t" using S [of c] by (simp add: C)
    show "waiting (pcs s c)" if "c \<noteq> t"
      using dormant_waiting [OF inv_parts(5) [OF assms(1)]] dormant_head [OF assms(1) L(1,2) that]
      by blast
    show "carrier g' x = Some w \<or> x = c \<and> w = t" if "carrier g x = Some w" for x w
      using that O [of n] q(1) by (auto simp: C split: if_splits)
    show "set (gq g') \<subseteq> set (gq g)" using q by auto
    show "gq g \<noteq> [] \<and> last (gq g') = last (gq g)" using q by simp
    show "msg h (Link x) \<subseteq> seen h x \<union> msg h (Word x) \<or> x = c \<and> msg h (Link x) \<subseteq> seen h t"
      if "x \<notin> set (gq g')" "next_of s x \<noteq> None" "gO g' x = None" for x
      using that K(5) [of x] link q(1,2,4) by (cases "x = c") auto
    show "msg h (Link x) \<subseteq> seen h w"
      if "x \<notin> set (gq g')" "next_of s x \<noteq> None" "gO g' x = Some (w, b)" for x w b
      using that K(6) [of x w b] O [of c] q(1,2,4) by (cases "x = c") auto
    show "gH g = Some u \<or> u = c \<and> gH g = Some t" if "gH g' = Some u" for u
      using that q(5) by simp
  qed
qed

lemma seen_hand:
  assumes "inv cfg s g" and "hb_inv s g h" and "thread_step cfg t s = Next s' es"
    and "moved t (pcs s t) g g'" and pc: "pcs s t = HandHead c n"
  shows "hb_inv s' g' (do_accesses t (accesses cfg t s (pcs s t)) h)"
proof -
  have L: "gL g = Some t" "hd (gq g) = c" "next_of s (hd (gq g)) = Some n"
    "own cfg t (view_of s g t) c" "gH g = Some t"
    using inv_parts(5) [OF assms(1), of t] pc by (auto simp: leads_def)
  obtain q where q: "gq g = c # n # q" "gq g' = n # q" "gL g' = Some n"
    "gO g' = (gO g)(c := Some (t, True))" "gH g' = Some n"
    using assms(4) pc by (auto simp: handed_def)
  have "distinct (gq g)" using inv_parts(1) [OF assms(1)] by (simp add: queue_inv_def)
  with q(1) have d: "n \<noteq> c" "c \<notin> set q" "n \<notin> set q" by auto
  have O: "gO g x = None" if "x \<in> set (gq g)" for x using queued_facts(1) [OF assms(1) that] by simp
  have n: "n \<in> set (gq g)" using q(1) by simp
  note K = links_seenD [OF hb_parts(4) [OF assms(2)]]
  note S = hb_parts(3) [OF assms(2), unfolded slots_seen_def]
  have C: "carrier g x = (if x = c then Some t else map_option fst (gO g x))"
    "carrier g' x = (if x = n then Some n else if x = c then Some t else map_option fst (gO g x))" for x
    using L(1) by (simp_all add: carrier_def q)
  have link: "msg h (Link c) \<subseteq> seen h t" by (rule K(4)) (simp add: pc)
  have Sn: "plain h (Slots n) \<subseteq> seen h n" "plain h (Body n) \<subseteq> seen h n"
    using S [of n] hb_parts(2) [OF assms(2), of n] O [OF n] n d(1) queued_facts(3) [OF assms(1) n]
    by (auto simp: C node_seen_def)
  have car: "plain h (Body x) \<union> plain h (Slots x) \<subseteq> seen h w" if "carrier g' x = Some w" for x w
    using that S [of x] Sn by (cases "x = n"; cases "x = c") (auto simp: C)
  have own: "plain h (Slots x) \<subseteq> seen h x"
    if "x \<in> set (gq g')" "carrier g' x = None \<or> carrier g' x = Some x" for x
  proof (cases "x = n")
    case False
    then have "x \<in> set (gq g)" "x \<noteq> c" using that(1) q(1,2) d by auto
    then show ?thesis using S [of x] O by (simp add: C)
  qed (use Sn in simp)
  have W: "wake t s n HEAD [] (HandDone c) = Next s' es"
    "accesses cfg t s (pcs s t) = notify_at n"
    using assms(3) pc by (simp_all add: thread_step_def)
  show ?thesis
    unfolding W(2)
  proof (rule hb_notify [OF assms(1,2) W(1) _ _ _ _ _ _ _ own car])
    show "continues (HandDone c)" by simp
    show "\<not> waiting (pcs s t)" using pc by simp
    show "plain h (Body n) \<subseteq> seen h t" using K(1) [of c n] L(2,3) q(1) link by auto
    show "waiting (pcs s n)"
      using dormant_waiting [OF inv_parts(5) [OF assms(1)]] dormant_second(2) [OF assms(1) L(1-4)]
      by blast
    show "carrier g' x = Some w \<or> x = n \<and> w = t" if "carrier g x = Some w" for x w
      using that O [OF n] d(1) by (auto simp: C split: if_splits)
    show "set (gq g') \<subseteq> set (gq g)" using q by auto
    show "gq g \<noteq> [] \<and> last (gq g') = last (gq g)" using q by simp
    show "msg h (Link x) \<subseteq> seen h x \<union> msg h (Word x) \<or> x = n \<and> msg h (Link x) \<subseteq> seen h t"
      if "x \<notin> set (gq g')" "next_of s x \<noteq> None" "gO g' x = None" for x
      using that K(5) [of x] q(1,2,4) by (cases "x = c") auto
    show "msg h (Link x) \<subseteq> seen h w"
      if "x \<notin> set (gq g')" "next_of s x \<noteq> None" "gO g' x = Some (w, b)" for x w b
      using that K(6) [of x w b] link q(1,2,4) by (cases "x = c") auto
    show "gH g = Some u \<or> u = n \<and> gH g = Some t" if "gH g' = Some u" for u
      using that q(5) L(5) by simp
  qed
qed

lemma continues_bomb_end [simp]: "continues (bomb_end fin)"
  by (cases fin) simp_all

lemma seen_pay:
  assumes "inv cfg s g" and "hb_inv s g h" and "thread_step cfg t s = Next s' es"
    and "moved t (pcs s t) g g'" and pc: "\<exists>fin. pcs s t \<in> {CloseDone c, HandDone c, BombLast c fin}"
  shows "hb_inv s' g' (do_accesses t (accesses cfg t s (pcs s t)) h)"
proof -
  obtain b where D: "gD g t = Some (c, b)"
    using inv_parts(5) [OF assms(1), of t] pc by (auto simp: owing_def)
  then have O: "gO g c = Some (t, b)" using inv_parts(3) [OF assms(1)] by (simp add: debt_inv_def)
  have Q: "gq g' = gq g" "gL g' = gL g" "gO g' = (gO g)(c := None)" "gH g' = gH g"
    using assms(4) pc by (auto simp: paid_def)
  note cd = carrier_debt [OF assms(1) O]
  note K = links_seenD [OF hb_parts(4) [OF assms(2)]]
  note S = hb_parts(3) [OF assms(2), unfolded slots_seen_def]
  have C: "carrier g' x = (if x = c then None else carrier g x)" for x
    using cd(3) by (auto simp: carrier_def Q)
  have car: "plain h (Body x) \<union> plain h (Slots x) \<subseteq> seen h w" if "carrier g' x = Some w" for x w
    using that S [of x] by (auto simp: C split: if_splits)
  have own: "plain h (Slots x) \<subseteq> seen h x"
    if "x \<in> set (gq g')" "carrier g' x = None \<or> carrier g' x = Some x" for x
    using that S [of x] cd(3) by (cases "x = c") (auto simp: C Q)
  obtain m fs k where W: "wake t s c m fs k = Next s' es" "continues k"
    "accesses cfg t s (pcs s t) = notify_at c"
    using assms(3) pc by (auto simp: thread_step_def)
  show ?thesis
    unfolding W(3)
  proof (rule hb_notify [OF assms(1,2) W(1,2) _ _ _ _ _ _ own car])
    show "\<not> waiting (pcs s t)" using pc by auto
    show "plain h (Body c) \<subseteq> seen h t" using S [of c] cd(1) by simp
    show "waiting (pcs s c)" if "c \<noteq> t"
      using dormant_waiting [OF inv_parts(5) [OF assms(1)]] dormant_owed [OF assms(1) D that] by blast
    show "carrier g' x = Some w \<or> x = c \<and> w = t" if "carrier g x = Some w" for x w
      using that cd(1) by (auto simp: C)
    show "msg h (Link x) \<subseteq> seen h x \<union> msg h (Word x) \<or> x = c \<and> msg h (Link x) \<subseteq> seen h t"
      if "x \<notin> set (gq g')" "next_of s x \<noteq> None" "gO g' x = None" for x
      using that K(5) [of x] K(6) [of c t b] O by (cases "x = c") (auto simp: Q)
    show "msg h (Link x) \<subseteq> seen h w"
      if "x \<notin> set (gq g')" "next_of s x \<noteq> None" "gO g' x = Some (w, b)" for x w b
      using that K(6) [of x w b] by (auto simp: Q split: if_splits)
  qed (use Q in auto)
qed

lemma seen_close:
  assumes "inv cfg s g" and "hb_inv s g h" and "thread_step cfg t s = Next s' es"
    and "closed t c b g g'" and pc: "\<exists>fin. pcs s t \<in> {TryClose c, BombClose c fin}"
    and tl: "tail (raw s) = Some c"
  shows "hb_inv s' g' (do_accesses t (accesses cfg t s (pcs s t)) h)"
proof -
  define h' where "h' = do_accesses t (accesses cfg t s (pcs s t)) h"
  have Q: "gq g = [c]" "gq g' = []" "gL g' = None" "gO g' = (gO g)(c := Some (t, b))" "gH g' = gH g"
    using assms(4) by (simp_all add: closed_def)
  have L: "gL g = Some t" using inv_parts(5) [OF assms(1), of t] pc by (auto simp: leads_def bombing_def)
  obtain k where s': "heap s' = heap s" "next_of s' = next_of s" "status (raw s') = status (raw s)"
      "pcs s' = (pcs s)(t := k)"
    and k: "loaded k = None" "k \<noteq> SwapTail" "\<forall>p. k \<noteq> StoreNext p"
    using assms(3) pc tl by (auto simp: thread_step_def try_close_def)
  have w: "\<not> waiting (pcs s t)" and ns: "\<forall>p. pcs s t \<noteq> StoreNext p" using pc by auto
  have ln: "linking s' = linking s"
    using linking_goto [of s t k s'] ns k(3) s'(4) by (simp add: linking_None)
  have nx: "next_of s c = None"
    using inv_parts(1) [OF assms(1)] Q(1) by (simp add: queue_inv_def)
  have C: "carrier g' x = carrier g x" for x using L by (simp add: carrier_def Q)
  have at: "accesses cfg t s (pcs s t) = [Swap Tail AcqRel]" using pc tl by (auto simp: try_close_at_def)
  have f: "plain h' = plain h" "raced h' = raced h" "shared h' = shared h" "seen h u \<subseteq> seen h' u"
    "msg h' = (msg h)(Tail := msg h Tail \<union> seen h' t)" for u
    by (auto simp: h'_def at do_accesses_def Let_def)
  have up: "X \<subseteq> seen h u \<Longrightarrow> X \<subseteq> seen h' u" "X \<subseteq> seen h u \<union> Y \<Longrightarrow> X \<subseteq> seen h' u \<union> Y" for X Y u
    using f(4) [of u] by blast+
  note H = hb_parts [OF assms(2)] and K = links_seenD [OF hb_parts(4) [OF assms(2)]]
  have N: "node_seen s' g' h' x" for x
  proof (rule node_seen_step [OF H(2)])
    show "reach s g h x \<subseteq> reach s' g' h' x"
      using f(4) by (intro reach_mono) (auto simp: C s'(2) f(5))
  qed (use f(4) in \<open>auto simp: memory_def f(1,3) s'(1)\<close>)
  have S: "slots_seen s' g' h' x" for x
    using f(4) k(2) by (intro slots_seen_same [OF H(3)]) (auto simp: f(1) C Q s'(4) split: if_splits)
  have "links_seen s' g' h'"
  proof (rule links_seenI)
    show "plain h' (Body q) \<subseteq> seen h' u" if "linking s' u = Some q" for u q
      using that K(3) up(1) by (simp add: f(1) ln)
    show "msg h' (Link x) \<subseteq> seen h' u" if "loaded (pcs s' u) = Some x" for u x
      using that K(4) [of u x] up(1) k(1) by (simp add: f(5) s'(4) split: if_splits)
    show "msg h' (Link x) \<subseteq> seen h' x \<union> msg h' (Word x)"
      if "x \<notin> set (gq g')" "next_of s' x \<noteq> None" "gO g' x = None" for x
      using that K(5) [of x] up(2) by (auto simp: f(5) s'(2) Q split: if_splits)
    show "msg h' (Link x) \<subseteq> seen h' w"
      if "x \<notin> set (gq g')" "next_of s' x \<noteq> None" "gO g' x = Some (w, e)" for x w e
      using that K(6) [of x w e] up(1) nx by (auto simp: f(5) s'(2) Q split: if_splits)
  qed (simp_all add: Q)
  moreover have "data_seen s' g' h'"
    using f(4) by (intro data_seen_same [OF H(5)]) (simp_all add: f(1,5) Q s'(3))
  moreover have "msg h (Word t) \<subseteq> seen h' t" using H(6) w up(1) by (simp add: words_seen_def)
  then have "words_seen s' h'"
    using f(4) by (intro words_seen_step [OF H(6), where t = t]) (simp_all add: f(5) s'(4))
  ultimately show ?thesis using N S H(1) by (simp add: hb_inv_def f(2) h'_def [symmetric])
qed

end
