(* ===== verification/Lam_Seen_Thread.thy ===== *)
theory Lam_Seen_Thread
  imports Lam_Seen_Queue
begin

section \<open>Every step keeps what has been seen, put together\<close>

text \<open>
  The steps whose outcome depends on memory, and from them the lemma for any step of a thread; the
  initial state, and the steps that access nothing.
\<close>

lemma seen_try:
  assumes "inv cfg s g" and "hb_inv s g h" and "thread_step cfg t s = Next s' es"
    and "inv cfg s' g'" and "moved t (pcs s t) g g'" and pc: "\<exists>f. pcs s t \<in> {TryAcquire f, Acquire}"
  shows "hb_inv s' g' (do_accesses t (accesses cfg t s (pcs s t)) h)"
proof (cases "status (raw s) = UNLOCKED")
  case True
  then show ?thesis by (intro seen_status [OF assms(1-5)]) (use pc in blast)
next
  case False
  have "status (raw s') = status (raw s)"
    using assms(3) pc False by (auto simp: thread_step_def try_acquire_def split: step_splits)
  moreover have "gH g' \<noteq> Some t"
    using inv_parts(5) [OF assms(4), of t] assms(3) pc False
    by (auto simp: thread_step_def try_acquire_def idle_def split: step_splits)
  moreover have "status (raw s) = LOCKED \<longleftrightarrow> gH g \<noteq> None" "status (raw s') = LOCKED \<longleftrightarrow> gH g' \<noteq> None"
    using inv_parts(2) [OF assms(1)] inv_parts(2) [OF assms(4)] by (auto simp: lock_inv_def)
  ultimately have "kept g g'" using assms(5) pc by auto
  then show ?thesis by (rule seen_fail [OF assms(1-3)]) (use False pc in blast)
qed

lemma seen_try_close:
  assumes "inv cfg s g" and "hb_inv s g h" and "thread_step cfg t s = Next s' es"
    and "inv cfg s' g'" and "moved t (pcs s t) g g'"
    and pc: "\<exists>fin. pcs s t \<in> {TryClose c, BombClose c fin}"
  shows "hb_inv s' g' (do_accesses t (accesses cfg t s (pcs s t)) h)"
proof -
  have L: "gL g = Some t" "hd (gq g) = c"
    using inv_parts(5) [OF assms(1), of t] pc by (auto simp: leads_def bombing_def)
  note Q = inv_parts(1) [OF assms(1), unfolded queue_inv_def]
    and Q' = inv_parts(1) [OF assms(4), unfolded queue_inv_def]
  have m: "kept g g' \<or> (\<exists>b. closed t c b g g')" using assms(5) pc by auto
  show ?thesis
  proof (cases "tail (raw s) = Some c")
    case True
    then have "tail (raw s') = None" "gq g \<noteq> []"
      using assms(3) pc Q by (auto simp: thread_step_def try_close_def)
    then have "\<not> kept g g'" using Q' by auto
    then show ?thesis using m seen_close [OF assms(1-3) _ pc True] by blast
  next
    case False
    then have "kept g g'" using m Q by (auto simp: closed_def)
    then show ?thesis by (rule seen_fail [OF assms(1-3)]) (use False pc in blast)
  qed
qed

lemma seen_wait:
  assumes "inv cfg s g" and "hb_inv s g h" and "thread_step cfg t s = Next s' es"
    and "kept g g'" and "pcs s t = WaitCas"
  shows "hb_inv s' g' (do_accesses t (accesses cfg t s (pcs s t)) h)"
proof -
  obtain nd where nd: "heap s t = Some nd"
    using own_word_heap [OF assms(1), of t] assms(5) by auto
  show ?thesis
    using seen_wait_cas [OF assms nd] seen_fail [OF assms(1-4)] assms(5) nd by blast
qed

lemma seen_thread:
  assumes "inv cfg s g" and "hb_inv s g h" and "thread_step cfg t s = Next s' es"
    and "inv cfg s' g'" and "moved t (pcs s t) g g'"
  shows "hb_inv s' g' (do_accesses t (accesses cfg t s (pcs s t)) h)"
proof -
  note I = assms(1-3)
  show ?thesis
  proof (cases "pcs s t")
    case Idle
    then show ?thesis using assms(3) by (simp add: thread_step_def)
  next
    case FutexSleep
    then show ?thesis using assms(3) by (simp add: thread_step_def)
  next
    case WaitCas
    then show ?thesis using assms(5) by (intro seen_wait [OF I]) auto
  next
    case (StoreNext p)
    then show ?thesis using assms(5) by (intro seen_StoreNext [OF I]) auto
  qed ((rule seen_look [OF I assms(5)]; simp; fail)
      | (rule seen_try [OF I assms(4,5)]; simp; fail)
      | (rule seen_task [OF I assms(5)]; simp; fail)
      | (rule seen_status [OF I assms(4,5)]; simp; fail)
      | (rule seen_SlowNew [OF I assms(5)]; simp; fail)
      | (rule seen_SwapTail [OF I assms(5)]; simp; fail)
      | (rule seen_pop [OF I assms(5)]; simp; fail)
      | (rule seen_try_close [OF I assms(4,5)]; simp; fail)
      | (rule seen_pay [OF I assms(5)]; simp; fail)
      | (rule seen_hand [OF I assms(5)]; simp; fail)
      | (rule seen_end [OF I assms(5)]; simp; fail))+
qed

lemma hb_inv_init:
  fixes g :: "('d, 'r, 'p) ghost"
  assumes "inv cfg (sys_init d) g"
  shows "hb_inv (sys_init d) g hb_init"
proof -
  let ?s = "sys_init d :: ('d, 'r, 'p) sys"
  have "gq g = []"
    using inv_parts(1) [OF assms] by (auto simp: queue_inv_def sys_init_def raw_new_def split: if_splits)
  moreover have "next_of ?s c = None" for c by (simp add: next_of_def sys_init_def)
  moreover have "linking ?s c = None" for c by (simp add: linking_def sys_init_def)
  ultimately show ?thesis
    by (simp add: hb_inv_def node_seen_def slots_seen_def links_seen_def data_seen_def words_seen_def
        memory_def hb_init_def sys_init_def)
qed

lemma hb_nothing:
  assumes "hb_inv s g h" and "kept g g'" and "s' = goto t k s"
    and "\<forall>p. k \<noteq> StoreNext p" and "k \<noteq> SwapTail" and "loaded k = None"
    and "waiting k \<or> \<not> waiting (pcs s t)"
  shows "hb_inv s' g' h"
proof -
  have "hb_inv s' g' (do_accesses t [] h)"
    by (rule hb_load [OF assms(1,2)]) (use assms(3-7) in auto)
  then show ?thesis by (simp add: do_accesses_def)
qed

end
