(* ===== verification/Lam_Past.thy ===== *)
theory Lam_Past
  imports Lam_Weak Lam_Seen_Thread
begin

section \<open>Earlier values\<close>

text \<open>
  What can be among the earlier values of a location, and that every step that finds the latest
  values keeps it so.
\<close>

subsection \<open>What is known of earlier values\<close>

text \<open>
  \<open>POISONED\<close> is never replaced by another status; the leader has seen the last thread that found
  the queue empty, or its word carries it; a waiter's word has had only the values it has not acted
  on yet; a link was null before.
\<close>

definition nulls :: "history \<Rightarrow> nat set" where
  "nulls y = {k. (Ptr None, k) \<in> set (past y Tail)}"

definition status_past :: "('d, 'r, 'p) sys \<Rightarrow> history \<Rightarrow> bool" where
  "status_past s y \<longleftrightarrow>
     (\<forall>x \<in> set (past y Status). \<exists>n. fst x = Num n \<and>
       (n = RAW_POISONED \<longrightarrow> status (raw s) = RAW_POISONED))"

definition tail_past :: "('d, 'r, 'p) ghost \<Rightarrow> hb \<Rightarrow> history \<Rightarrow> bool" where
  "tail_past g h y \<longleftrightarrow>
     (\<forall>x \<in> set (past y Tail). \<exists>p. fst x = Ptr p) \<and>
     (\<forall>t. gL g = Some t \<longrightarrow> nulls y \<subseteq> seen h t \<union> msg h (Word t)) \<and>
     (gq g = [] \<longrightarrow> nulls y \<subseteq> msg h Tail)"

fun word_ok ::
    "('d, 'r, 'p) pc \<Rightarrow> ('d, 'r, 'p) node option \<Rightarrow> (val \<times> nat) list \<Rightarrow> nat set \<Rightarrow> nat \<Rightarrow> bool" where
  "word_ok SwapTail N xs S n \<longleftrightarrow> xs = []"
| "word_ok (StoreNext p) N xs S n \<longleftrightarrow>
     (\<forall>x \<in> set xs. fst x = Num WAITING) \<and> (\<forall>nd. N = Some nd \<and> futex nd = WAITING \<longrightarrow> xs = [])"
| "word_ok (Spin k) N xs S n \<longleftrightarrow>
     (\<forall>x \<in> set xs. fst x = Num WAITING) \<and> (\<forall>nd. N = Some nd \<and> futex nd = WAITING \<longrightarrow> xs = [])"
| "word_ok WaitCas N xs S n \<longleftrightarrow>
     (\<forall>x \<in> set xs. fst x = Num WAITING) \<and> (\<forall>nd. N = Some nd \<and> futex nd = WAITING \<longrightarrow> xs = [])"
| "word_ok FutexCheck N xs S n \<longleftrightarrow> (\<forall>x \<in> set xs. snd x \<in> S \<or> fst x = Num SLEEPING)"
| "word_ok FutexWait N xs S n \<longleftrightarrow> (\<forall>x \<in> set xs. snd x \<in> S \<or> fst x = Num SLEEPING)"
| "word_ok FutexSleep N xs S n \<longleftrightarrow> (\<forall>x \<in> set xs. snd x \<in> S \<or> fst x = Num SLEEPING)"
| "word_ok WaitReload N xs S n \<longleftrightarrow> length xs \<le> n"
| "word_ok k N xs S n \<longleftrightarrow> True"

definition word_past :: "('d, 'r, 'p) sys \<Rightarrow> hb \<Rightarrow> history \<Rightarrow> tid \<Rightarrow> bool" where
  "word_past s h y t \<longleftrightarrow>
     word_ok (pcs s t) (heap s t) (past y (Word t)) (seen h t) (since y t (Word t))"

definition link_past :: "history \<Rightarrow> bool" where
  "link_past y \<longleftrightarrow> (\<forall>c. \<forall>x \<in> set (past y (Link c)). fst x = Ptr None)"

text \<open>Whoever looks after the last node has seen its owner join: the latest write to the tail.\<close>

definition newest :: "history \<Rightarrow> nat" where
  "newest y = snd (last (past y Tail))"

definition last_past :: "('d, 'r, 'p) sys \<Rightarrow> ('d, 'r, 'p) ghost \<Rightarrow> hb \<Rightarrow> history \<Rightarrow> bool" where
  "last_past s g h y \<longleftrightarrow>
     (\<forall>c. gq g \<noteq> [] \<and> last (gq g) = c \<longrightarrow> past y Tail \<noteq> [] \<and> newest y \<in> seen h c \<and>
       (\<forall>x \<in> set (gq g). next_of s x = Some c \<longrightarrow> newest y \<in> msg h (Link x)) \<and>
       (\<forall>w. carrier g c = Some w \<longrightarrow> newest y \<in> seen h w))"

definition past_inv :: "('d, 'r, 'p) sys \<Rightarrow> ('d, 'r, 'p) ghost \<Rightarrow> hb \<Rightarrow> history \<Rightarrow> bool" where
  "past_inv s g h y \<longleftrightarrow>
     status_past s y \<and> tail_past g h y \<and> last_past s g h y \<and> (\<forall>t. word_past s h y t) \<and>
     link_past y"

subsection \<open>What one access adds\<close>

definition written :: "access list \<Rightarrow> loc set" where
  "written as = {l. \<exists>ord. Store l ord \<in> set as \<or> Swap l ord \<in> set as}"

lemma do_access_seen: "seen h u \<subseteq> seen (do_access t a h) u"
  using touch_loc_seen(1) by (cases a) (fastforce simp: Let_def simp del: acquiring.simps)+

lemma do_accesses_seen: "seen h u \<subseteq> seen (do_accesses t as h) u"
proof (induction as arbitrary: h)
  case (Cons a as)
  then show ?case using do_access_seen [of h u t a] by (fastforce simp: do_accesses_def)
qed (simp add: do_accesses_def)

lemma do_accesses_msg:
  assumes "\<forall>ord c. Store l ord \<notin> set as \<and> (l = Word c \<or> l = Link c \<longrightarrow> Fresh c \<notin> set as)"
  shows "msg h l \<subseteq> msg (do_accesses t as h) l"
  using assms
proof (induction as arbitrary: h)
  case (Cons a as)
  have "msg h l \<subseteq> msg (do_access t a h) l"
    using Cons.prems by (cases a) (auto simp: Let_def)
  then show ?case using Cons by (fastforce simp: do_accesses_def)
qed (simp add: do_accesses_def)

lemma keep_past:
  assumes "x \<in> set (past (keep_accesses t as s h y) l)"
  shows "x \<in> set (past y l) \<or> fst x = value_at s l \<and> l \<in> written as"
  using assms
proof (induction as arbitrary: h y)
  case (Cons a as)
  then have "x \<in> set (past (keep_access t a s h y) l) \<or> fst x = value_at s l \<and> l \<in> written as"
    by simp
  moreover have "written as \<subseteq> written (a # as)" by (auto simp: written_def)
  ultimately show ?case
    by (cases a) (auto simp: replaced_def has_read_def renewed_def written_def split: if_splits)
qed simp

lemma keep_same:
  assumes "l \<notin> written as" and "\<forall>c. l = Word c \<or> l = Link c \<longrightarrow> Fresh c \<notin> set as"
  shows "past (keep_accesses t as s h y) l = past y l"
  using assms
proof (induction as arbitrary: h y)
  case (Cons a as)
  then have "l \<notin> written as" "\<forall>c. l = Word c \<or> l = Link c \<longrightarrow> Fresh c \<notin> set as"
    by (auto simp: written_def)
  moreover have "past (keep_access t a s h y) l = past y l"
    using Cons.prems by (cases a) (auto simp: replaced_def has_read_def renewed_def written_def)
  ultimately show ?case using Cons.IH by simp
qed simp

lemma keep_since:
  assumes "u \<noteq> t" and "\<forall>c. l = Word c \<or> l = Link c \<longrightarrow> Fresh c \<notin> set as"
  shows "since (keep_accesses t as s h y) u l = since y u l"
  using assms
proof (induction as arbitrary: h y)
  case (Cons a as)
  then have "since (keep_access t a s h y) u l = since y u l"
    by (cases a) (auto simp: replaced_def has_read_def renewed_def)
  then show ?case using Cons by simp
qed simp

subsection \<open>Which step writes what\<close>

fun notified :: "('d, 'r, 'p) pc \<Rightarrow> tid option" where
  "notified (WakeDone c n) = Some c"
| "notified (CloseDone c) = Some c"
| "notified (HandHead c n) = Some n"
| "notified (HandDone c) = Some c"
| "notified (BombWake c n fin) = Some c"
| "notified (BombLast c fin) = Some c"
| "notified k = None"

lemmas at_defs = has_tail_at_def swap_tail_at_def try_close_at_def try_acquire_at_def
  acquire_spin_at_def raw_poison_at_def raw_release_at_def load_next_at_def store_next_at_def
  attach_spin_at_def node_wait_at_def node_wait_reload_at_def futex_wait_check_at_def
  futex_wait_call_at_def notify_at_def run_slowly_node_at_def try_run_direct_at_def
  execute_take_at_def execute_run_at_def run_slowly_end_at_def

lemma written_Word:
  "Word u \<in> written (accesses cfg t s k) \<Longrightarrow>
    notified k = Some u \<or> u = t \<and> k = WaitCas \<and> (\<exists>nd. heap s t = Some nd \<and> futex nd = WAITING)"
  by (cases k) (auto simp: at_defs written_def split: step_splits intro: sym)

lemma written_Link: "Link c \<in> written (accesses cfg t s k) \<Longrightarrow> k = StoreNext c"
  by (cases k) (auto simp: at_defs written_def split: step_splits)

lemma written_Tail:
  "Tail \<in> written (accesses cfg t s k) \<Longrightarrow>
    k = SwapTail \<or> (\<exists>c fin. (k = TryClose c \<or> k = BombClose c fin) \<and> tail (raw s) = Some c)"
  by (cases k) (auto simp: at_defs written_def split: step_splits)

lemma fresh_own: "Fresh c \<in> set (accesses cfg t s k) \<Longrightarrow> c = t \<and> (\<exists>f. k = SlowNew f)"
  by (cases k) (auto simp: at_defs split: step_splits)

lemma stores: "Store l ord \<in> set (accesses cfg t s k) \<Longrightarrow> l = Status \<or> (\<exists>p. k = StoreNext p \<and> l = Link p)"
  by (cases k) (auto simp: at_defs split: step_splits)

lemma step_other:
  assumes "thread_step cfg t s = Next s' es" and "u \<noteq> t"
  shows "pcs s' u = pcs s u \<or> pcs s u = FutexSleep \<and> pcs s' u = FutexCheck"
    and "notified (pcs s t) \<noteq> Some u \<Longrightarrow> map_option futex (heap s' u) = map_option futex (heap s u)"
  using assms
  by (cases "pcs s t"; auto simp: thread_step_def access_def wake_def futex_swap_def futex_cas_def
      store_next_def split: step_splits)+

lemma notified_dormant:
  assumes "inv cfg s g" and "notified (pcs s t) = Some a" and "a \<noteq> t"
  shows "dormant a (view_of s g a) \<and> (\<forall>p. pcs s a \<noteq> StoreNext p)"
proof (cases "pcs s t")
  case (HandHead c n)
  then show ?thesis
    using inv_parts(5) [OF assms(1), of t] assms(2) dormant_second(2) [OF assms(1), of t c n]
    by (auto simp: leads_def)
qed (use inv_parts(5) [OF assms(1), of t] assms(2,3) dormant_head [OF assms(1) _ _ assms(3)]
      dormant_owed [OF assms(1) _ assms(3)] in \<open>auto simp: leads_def bombing_def owing_def\<close>)

lemma dormant_word:
  assumes "local cfg t v k" and "dormant t v" and "\<forall>p. k \<noteq> StoreNext p"
  shows "(\<exists>j. k = Spin j \<or> k = WaitCas) \<and> (\<exists>nd. vN v = Some nd \<and> futex nd = WAITING) \<or>
    (k = FutexCheck \<or> k = FutexWait \<or> k = FutexSleep) \<and> (\<exists>nd. vN v = Some nd \<and> futex nd = SLEEPING)"
  using assms
proof (induction k)
  case (WakeSyscall a k)
  then show ?case by (cases k) (auto simp: dormant_def role_defs split: if_splits)
qed (auto simp: dormant_def role_defs split: if_splits)

subsection \<open>Steps that find the latest values\<close>

lemma status_past_step:
  assumes "inv cfg s g" and "thread_step cfg t s = Next s' es" and "status_past s y"
  shows "status_past s' (keep_accesses t as s h y)"
proof -
  have "status (raw s') = RAW_POISONED" if "status (raw s) = RAW_POISONED"
    using inv_parts(5) [OF assms(1), of t] inv_parts(2) [OF assms(1)] assms(2) that
    by (cases "pcs s t") (auto simp: thread_step_def access_def wake_def lock_inv_def
        try_acquire_def try_close_def raw_release_def raw_poison_def swap_tail_def split: step_splits)
  then show ?thesis
    using keep_past [of _ t as s h y Status] assms(3)
    by (fastforce simp: status_past_def value_at_def)
qed

lemma link_past_step:
  assumes "inv cfg s g" and "link_past y"
  shows "link_past (keep_accesses t (accesses cfg t s (pcs s t)) s h y)"
  unfolding link_past_def
proof (intro allI ballI)
  fix c x
  assume "x \<in> set (past (keep_accesses t (accesses cfg t s (pcs s t)) s h y) (Link c))"
  then consider "x \<in> set (past y (Link c))" | "fst x = value_at s (Link c)" "pcs s t = StoreNext c"
    using keep_past written_Link by metis
  then show "fst x = Ptr None"
  proof cases
    case 2
    then have "next_of s c = None" using linking_queued(3) [OF assms(1), of t c] by simp
    then show ?thesis using 2 by (simp add: value_at_def)
  qed (use assms(2) in \<open>auto simp: link_past_def\<close>)
qed

lemma nulls_step:
  "nulls (keep_accesses t (accesses cfg t s (pcs s t)) s h y) \<subseteq>
    (if pcs s t = SwapTail \<and> tail (raw s) = None then insert (clock h) (nulls y) else nulls y)"
proof (cases "Tail \<in> written (accesses cfg t s (pcs s t))")
  case False
  then have "past (keep_accesses t (accesses cfg t s (pcs s t)) s h y) Tail = past y Tail"
    by (intro keep_same) simp_all
  then show ?thesis by (auto simp: nulls_def)
next
  case True
  then show ?thesis
    using written_Tail [OF True]
    by (auto simp: at_defs nulls_def replaced_def value_at_def)
qed

lemma tail_past_step:
  assumes I: "inv cfg s g" and B: "hb_inv s g h" and T: "thread_step cfg t s = Next s' es"
    and m: "moved t (pcs s t) g g'" and P: "tail_past g h y"
  shows "tail_past g' (do_accesses t (accesses cfg t s (pcs s t)) h)
    (keep_accesses t (accesses cfg t s (pcs s t)) s h y)"
proof -
  let ?as = "accesses cfg t s (pcs s t)"
  define h' y' where "h' = do_accesses t ?as h" and "y' = keep_accesses t ?as s h y"
  have up: "seen h u \<subseteq> seen h' u" for u unfolding h'_def by (rule do_accesses_seen)
  have tl: "msg h Tail \<subseteq> msg h' Tail"
    unfolding h'_def by (rule do_accesses_msg) (auto dest: stores)
  have wd: "msg h (Word u) \<subseteq> msg h' (Word u)" if "gL g = Some u" for u
  proof -
    have "\<not> (\<exists>f. u = t \<and> pcs s t = SlowNew f)"
      using inv_parts(5) [OF I, of t] that by (auto simp: idle_def calm_def)
    then show ?thesis
      unfolding h'_def by (intro do_accesses_msg) (auto dest: stores fresh_own)
  qed
  have mine: "nulls y \<subseteq> seen h t" if "gL g = Some t" "\<not> waiting (pcs s t)"
    using P that hb_parts(6) [OF B] by (auto simp: tail_past_def words_seen_def)
  have Q: "tail (raw s) = (if gq g = [] then None else Some (last (gq g)))" "gL g = None \<longleftrightarrow> gq g = []"
    using inv_parts(1) [OF I] by (simp_all add: queue_inv_def)
  have n: "nulls y' \<subseteq> (if pcs s t = SwapTail \<and> gq g = [] then insert (clock h) (nulls y) else nulls y)"
    using nulls_step [of t cfg s h y] Q(1) unfolding y'_def by (auto split: if_splits)
  have same: "nulls y' \<subseteq> seen h' u \<union> msg h' (Word u)"
    if "gL g = Some u" for u
  proof -
    have "gq g \<noteq> []" using Q(2) that by auto
    moreover have "nulls y \<subseteq> seen h u \<union> msg h (Word u)" using P that by (simp add: tail_past_def)
    ultimately show ?thesis using n up [of u] wd [OF that] by auto
  qed
  have L: "nulls y' \<subseteq> seen h' u \<union> msg h' (Word u)" if u: "gL g' = Some u" for u
  proof (cases "gL g = Some u")
    case False
    then consider "pcs s t = SwapTail" "gq g = []" "u = t"
      | c n where "pcs s t = HandHead c n" "u = n"
      using m u by (cases "pcs s t") (auto simp: popped_def closed_def handed_def paid_def split: if_splits)
    then show ?thesis
    proof cases
      case 1
      have "nulls y \<subseteq> msg h Tail" using P 1(2) by (simp add: tail_past_def)
      moreover have "msg h Tail \<subseteq> seen h' t" "clock h \<in> seen h' t"
        using 1(1) by (auto simp: h'_def swap_tail_at_def do_accesses_def Let_def)
      ultimately show ?thesis using n 1 by auto
    next
      case 2
      have "gL g = Some t" using inv_parts(5) [OF I, of t] 2(1) by (simp add: leads_def)
      then have "nulls y' \<subseteq> seen h t" using mine 2(1) n by auto
      moreover have "seen h t \<subseteq> msg h' (Word n)"
        using 2(1) by (auto simp: h'_def notify_at_def do_accesses_def touch_def Let_def)
      ultimately show ?thesis using 2(2) by auto
    qed
  qed (rule same)
  have E: "nulls y' \<subseteq> msg h' Tail" if e: "gq g' = []"
  proof (cases "gq g = []")
    case True
    have "pcs s t \<noteq> SwapTail" using m e by (cases "pcs s t") auto
    then show ?thesis using P True n tl by (auto simp: tail_past_def)
  next
    case False
    then obtain c fin where c: "pcs s t = TryClose c \<or> pcs s t = BombClose c fin" "gq g = [c]"
      using m e
      by (cases "pcs s t") (auto simp: popped_def closed_def handed_def paid_def split: if_splits)
    have "gL g = Some t" using inv_parts(5) [OF I, of t] c(1) by (auto simp: leads_def bombing_def)
    then have "nulls y \<subseteq> seen h t" using mine c(1) by auto
    moreover have "nulls y' \<subseteq> nulls y" using n c by auto
    moreover have "seen h t \<subseteq> msg h' Tail"
      using c Q(1) by (auto simp: h'_def try_close_at_def do_accesses_def Let_def)
    ultimately show ?thesis by blast
  qed
  have "\<exists>p. fst x = Ptr p" if "x \<in> set (past y' Tail)" for x
    using keep_past [of x t ?as s h y Tail] that P by (auto simp: y'_def tail_past_def value_at_def)
  then show ?thesis using L E unfolding h'_def [symmetric] y'_def [symmetric] by (simp add: tail_past_def)
qed

lemma word_ok_mono:
  assumes "word_ok k N xs S n" and "S \<subseteq> S'" and "map_option futex N' = map_option futex N"
  shows "word_ok k N' xs S' n"
proof -
  have "(\<exists>nd. N' = Some nd \<and> futex nd = WAITING) \<longleftrightarrow> (\<exists>nd. N = Some nd \<and> futex nd = WAITING)"
    using assms(3) by (cases N; cases N'; simp)
  then show ?thesis using assms(1,2) by (cases k) auto
qed

lemma word_ok_continues [simp]: "continues k \<Longrightarrow> word_ok k N xs S n"
  by (cases k) simp_all

lemma word_past_other:
  assumes I: "inv cfg s g" and T: "thread_step cfg t s = Next s' es" and u: "u \<noteq> t"
    and P: "word_past s h y u"
  shows "word_past s' (do_accesses t (accesses cfg t s (pcs s t)) h)
    (keep_accesses t (accesses cfg t s (pcs s t)) s h y) u"
proof -
  let ?as = "accesses cfg t s (pcs s t)"
  define h' y' where "h' = do_accesses t ?as h" and "y' = keep_accesses t ?as s h y"
  have up: "seen h u \<subseteq> seen h' u" unfolding h'_def by (rule do_accesses_seen)
  have sn: "since y' u (Word u) = since y u (Word u)"
    unfolding y'_def by (rule keep_since [OF u]) (use u fresh_own in blast)
  have pc: "pcs s' u = pcs s u \<or> pcs s u = FutexSleep \<and> pcs s' u = FutexCheck"
    by (rule step_other(1) [OF T u])
  have "word_past s' h' y' u"
  proof (cases "notified (pcs s t) = Some u")
    case False
    have "past y' (Word u) = past y (Word u)"
      unfolding y'_def by (rule keep_same) (use False u fresh_own written_Word in blast)+
    moreover note word_ok_mono [OF P [unfolded word_past_def] up step_other(2) [OF T u False]]
    ultimately show ?thesis using sn pc by (auto simp: word_past_def)
  next
    case True
    note D = notified_dormant [OF I True u]
    note W = dormant_word [OF inv_parts(5) [OF I, of u] conjunct1 [OF D] conjunct2 [OF D]]
    have "?as = notify_at u" using True by (cases "pcs s t") auto
    then have y': "past y' (Word u) = past y (Word u) @ [(value_at s (Word u), clock h)]"
      by (simp add: y'_def notify_at_def replaced_def)
    obtain nd where nd: "heap s' u = Some nd" "futex nd \<noteq> WAITING"
      using T True by (cases "pcs s t") (auto simp: thread_step_def wake_def access_def futex_swap_def split: option.splits)
    show ?thesis
      using W word_ok_mono [OF P [unfolded word_past_def] up refl] pc nd y'
      by (auto simp: word_past_def value_at_def)
  qed
  then show ?thesis by (simp add: h'_def y'_def)
qed

lemma word_past_own:
  assumes I: "inv cfg s g" and T: "thread_step cfg t s = Next s' es" and P: "word_past s h y t"
  shows "word_past s' (do_accesses t (accesses cfg t s (pcs s t)) h)
    (keep_accesses t (accesses cfg t s (pcs s t)) s h y) t"
  using inv_parts(5) [OF I, of t] T P
  by (cases "pcs s t") (auto simp: word_past_def thread_step_def access_def wake_def futex_cas_def
      futex_swap_def at_defs replaced_def has_read_def renewed_def value_at_def do_accesses_def
      touch_def Let_def waits_def split: step_splits)

lemma next_of_step:
  assumes "thread_step cfg t s = Next s' es" and "pcs s t \<noteq> StoreNext x"
    and "x = t \<Longrightarrow> \<not> idle (view_of s g t)" and "local cfg t (view_of s g t) (pcs s t)"
  shows "next_of s' x = next_of s x"
  using assms unfolding thread_step_def
  by (cases "pcs s t") (auto simp: next_of_def access_def wake_def futex_swap_def futex_cas_def
      store_next_def idle_def split: step_splits)

lemma last_past_step:
  assumes I: "inv cfg s g" and B: "hb_inv s g h" and T: "thread_step cfg t s = Next s' es"
    and I': "inv cfg s' g'" and m: "moved t (pcs s t) g g'" and P: "last_past s g h y"
  shows "last_past s' g' (do_accesses t (accesses cfg t s (pcs s t)) h)
    (keep_accesses t (accesses cfg t s (pcs s t)) s h y)"
proof -
  let ?as = "accesses cfg t s (pcs s t)"
  define h' y' where "h' = do_accesses t ?as h" and "y' = keep_accesses t ?as s h y"
  have up: "seen h u \<subseteq> seen h' u" for u unfolding h'_def by (rule do_accesses_seen)
  note L = inv_parts(5) [OF I, of t]
  have "last_past s' g' h' y'"
    unfolding last_past_def
  proof (intro allI impI)
    fix c
    assume c: "gq g' \<noteq> [] \<and> last (gq g') = c"
    have hd: "c = hd (gq g') \<and> gL g' = Some w" if "carrier g' c = Some w" for w
      using that queued_facts(1) [OF I', of c] c by (auto simp: carrier_def split: if_splits)
    show "past y' Tail \<noteq> [] \<and> newest y' \<in> seen h' c \<and>
        (\<forall>x \<in> set (gq g'). next_of s' x = Some c \<longrightarrow> newest y' \<in> msg h' (Link x)) \<and>
        (\<forall>w. carrier g' c = Some w \<longrightarrow> newest y' \<in> seen h' w)"
    proof (cases "pcs s t = SwapTail")
      case True
      then have q: "gq g' = gq g @ [t]" "gL g' = (if gq g = [] then Some t else gL g)" "c = t"
        using m c by auto
      have y': "past y' Tail \<noteq> []" "newest y' = clock h" "clock h \<in> seen h' t"
        using True by (auto simp: y'_def h'_def swap_tail_at_def replaced_def newest_def
            do_accesses_def Let_def)
      have t: "idle (view_of s g t)" "t \<notin> set (gq g)" "next_of s t = None"
        using L True by (auto simp: idle_def calm_def next_of_def)
      have "next_of s' = next_of s" using T True by (auto simp: thread_step_def split: prod.splits)
      then have "next_of s' x \<noteq> Some t" if "x \<in> set (gq g')" for x
        using that t successor_in_tl [OF I, of x t] q(1) by (auto dest: mem_tl)
      moreover have "w = t" if "carrier g' c = Some w" for w
        using hd [OF that] q t(2) by (cases "gq g") auto
      ultimately show ?thesis using y' q(3) by auto
    next
      case False
      have "Tail \<notin> written ?as"
      proof
        assume "Tail \<in> written ?as"
        then have "tail (raw s') = None"
          using written_Tail False T by (fastforce simp: thread_step_def try_close_def)
        then show False using inv_parts(1) [OF I'] c by (simp add: queue_inv_def)
      qed
      then have y': "past y' Tail = past y Tail" "newest y' = newest y"
        unfolding y'_def newest_def by (simp_all add: keep_same)
      have q: "gq g \<noteq> [] \<and> last (gq g) = c" "set (gq g') \<subseteq> set (gq g)"
        using m c False by (cases "pcs s t"; auto simp: popped_def closed_def handed_def paid_def)+
      then have k: "past y Tail \<noteq> []" "newest y \<in> seen h c"
        "\<And>x. x \<in> set (gq g) \<Longrightarrow> next_of s x = Some c \<Longrightarrow> newest y \<in> msg h (Link x)"
        "\<And>w. carrier g c = Some w \<Longrightarrow> newest y \<in> seen h w"
        using P unfolding last_past_def by blast+
      have "newest y \<in> msg h' (Link x)" if x: "x \<in> set (gq g')" "next_of s' x = Some c" for x
      proof (cases "pcs s t = StoreNext x")
        case True
        then have "c = t" "seen h' t = msg h' (Link x)"
          using T x(2) by (auto simp: thread_step_def access_def store_next_def h'_def
              store_next_at_def do_accesses_def touch_def Let_def split: option.splits)
        then show ?thesis using k(2) up [of t] by auto
      next
        case False
        have n: "\<not> idle (view_of s g t)" if "x = t" using x(1) q(2) that by (auto simp: idle_def calm_def)
        then have "\<not> (\<exists>f. x = t \<and> pcs s t = SlowNew f)" using L by auto
        then have "msg h (Link x) \<subseteq> msg h' (Link x)"
          unfolding h'_def using False by (intro do_accesses_msg) (auto dest: stores fresh_own)
        moreover have "next_of s x = Some c" using next_of_step [OF T False n L] x(2) by simp
        ultimately show ?thesis using k(3) x(1) q(2) by blast
      qed
      moreover have "newest y \<in> seen h' w" if w: "carrier g' c = Some w" for w
      proof -
        have "newest y \<in> seen h w"
        proof (cases "carrier g c = Some w")
          case False
          then consider x fin where "pcs s t = WakeDone x c \<or> pcs s t = BombWake x c fin" "w = t"
              "x \<in> set (gq g)"
            | "w = c"
            using m hd [OF w] L q(1) \<open>pcs s t \<noteq> SwapTail\<close>
            by (cases "pcs s t") (auto simp: popped_def closed_def handed_def paid_def carrier_def
                leads_def bombing_def)
          then show ?thesis
          proof cases
            case 1
            then have "next_of s x = Some c" "loaded (pcs s t) = Some x"
              using L by (auto simp: leads_def bombing_def)
            then show ?thesis
              using k(3) [OF 1(3)] links_seenD(4) [OF hb_parts(4) [OF B], of t x] 1(2) by auto
          qed (use k(2) in simp)
        qed (rule k(4))
        then show ?thesis using up by blast
      qed
      ultimately show ?thesis using k(1,2) up y' by auto
    qed
  qed
  then show ?thesis by (simp add: h'_def y'_def)
qed

lemma past_thread:
  assumes "inv cfg s g" and "hb_inv s g h" and "past_inv s g h y"
    and "thread_step cfg t s = Next s' es" and "inv cfg s' g'" and "moved t (pcs s t) g g'"
  shows "past_inv s' g' (do_accesses t (accesses cfg t s (pcs s t)) h)
    (keep_accesses t (accesses cfg t s (pcs s t)) s h y)"
proof -
  note P = assms(3) [unfolded past_inv_def]
  have "word_past s' (do_accesses t (accesses cfg t s (pcs s t)) h)
      (keep_accesses t (accesses cfg t s (pcs s t)) s h y) u" for u
    using P word_past_own [OF assms(1,4)] word_past_other [OF assms(1,4)] by (cases "u = t") auto
  then show ?thesis
    using P status_past_step [OF assms(1,4)] tail_past_step [OF assms(1,2,4,6)]
      last_past_step [OF assms(1,2,4-6)] link_past_step [OF assms(1)] by (simp add: past_inv_def)
qed

end
