(* ===== verification/Lam_Stale.thy ===== *)
theory Lam_Stale
  imports Lam_Past
begin

section \<open>A stale load only makes its thread look again\<close>

subsection \<open>What a stale load can find\<close>

lemma readable_entry:
  assumes "readable t l i h y"
  shows "past y l ! i \<in> set (past y l)" and "snd (past y l ! i) \<notin> seen h t"
    and "since y t l < length (past y l)" and "snd (last (past y l)) \<notin> seen h t"
proof -
  have i: "i < length (past y l)" using assms by (simp add: readable_def)
  then show "past y l ! i \<in> set (past y l)" by simp
  have "past y l ! i \<in> set (drop i (past y l))"
    using i by (simp add: Cons_nth_drop_Suc [symmetric])
  then show "snd (past y l ! i) \<notin> seen h t" using assms unfolding readable_def by blast
  show "since y t l < length (past y l)" using assms by (simp add: readable_def)
  have "last (past y l) \<in> set (drop i (past y l))" using i last_in_set [of "drop i (past y l)"] by simp
  then show "snd (last (past y l)) \<notin> seen h t" using assms unfolding readable_def by blast
qed

lemma stale_finds:
  assumes I: "inv cfg s g" and B: "hb_inv s g h" and P: "past_inv s g h y" and r: "readable t l i h y"
    and v: "v = fst (past y l ! i)"
  shows "l = Status \<Longrightarrow> \<exists>n. v = Num n \<and> (n = RAW_POISONED \<longrightarrow> status (raw s) = RAW_POISONED)"
    and "l = Tail \<Longrightarrow> \<exists>p. v = Ptr p \<and> (gL g = Some t \<and> \<not> waiting (pcs s t) \<longrightarrow> p \<noteq> None)"
    and "l = Link c \<Longrightarrow> v = Ptr None"
    and "l = Word t \<Longrightarrow> pcs s t = Spin k \<or> pcs s t = WaitCas \<Longrightarrow> v = Num WAITING"
    and "l = Word t \<Longrightarrow> pcs s t = FutexCheck \<Longrightarrow> v = Num SLEEPING"
    and "l = Word t \<Longrightarrow> pcs s t \<noteq> WaitReload"
    and "l = Tail \<Longrightarrow> pcs s t = TryClose c \<or> pcs s t = BombClose c fin \<Longrightarrow> tail (raw s) \<noteq> Some c"
proof -
  note E = readable_entry [OF r]
  note Q = P [unfolded past_inv_def]
  show "l = Status \<Longrightarrow> \<exists>n. v = Num n \<and> (n = RAW_POISONED \<longrightarrow> status (raw s) = RAW_POISONED)"
    using Q E(1) v by (auto simp: status_past_def)
  show "l = Link c \<Longrightarrow> v = Ptr None" using Q E(1) v by (auto simp: link_past_def)
  have W: "word_past s h y t" using Q by blast
  show "l = Word t \<Longrightarrow> pcs s t = Spin k \<or> pcs s t = WaitCas \<Longrightarrow> v = Num WAITING"
    "l = Word t \<Longrightarrow> pcs s t = FutexCheck \<Longrightarrow> v = Num SLEEPING"
    "l = Word t \<Longrightarrow> pcs s t \<noteq> WaitReload"
    using W E v by (auto simp: word_past_def)
  show "tail (raw s) \<noteq> Some c" if "l = Tail" "pcs s t = TryClose c \<or> pcs s t = BombClose c fin"
  proof
    assume "tail (raw s) = Some c"
    then have "gq g \<noteq> [] \<and> last (gq g) = c"
      using inv_parts(1) [OF I] by (auto simp: queue_inv_def split: if_splits)
    moreover have "carrier g c = Some t"
      using carrier_leader(1) [OF I, of t c] inv_parts(5) [OF I, of t] that(2)
      by (auto simp: leads_def bombing_def)
    ultimately have "newest y \<in> seen h t" using Q unfolding last_past_def by blast
    then show False using E(4) that(1) by (simp add: newest_def)
  qed
  assume l: "l = Tail"
  then obtain p where p: "v = Ptr p" using Q E(1) v by (auto simp: tail_past_def)
  have "p \<noteq> None" if "gL g = Some t" "\<not> waiting (pcs s t)"
  proof
    assume "p = None"
    then have "(Ptr None, snd (past y l ! i)) = past y l ! i" using p v by (simp add: prod_eq_iff)
    then have "snd (past y l ! i) \<in> nulls y" using E(1) l by (simp add: nulls_def)
    moreover have "nulls y \<subseteq> seen h t"
      using Q that hb_parts(6) [OF B] by (auto simp: tail_past_def words_seen_def)
    ultimately show False using E(2) by blast
  qed
  with p show "\<exists>p. v = Ptr p \<and> (gL g = Some t \<and> \<not> waiting (pcs s t) \<longrightarrow> p \<noteq> None)" by blast
qed

fun awaits :: "('d, 'r, 'p) pc \<Rightarrow> tid option" where
  "awaits (HandLoad c) = Some c"
| "awaits (HandAssert c) = Some c"
| "awaits (BombSpin c fin) = Some c"
| "awaits k = None"

text \<open>Where the thread goes on: it may, whatever memory holds now.\<close>

definition looks :: "('d, 'r, 'p) sys \<Rightarrow> tid \<Rightarrow> ('d, 'r, 'p) pc \<Rightarrow> bool" where
  "looks s t k \<longleftrightarrow>
     (\<forall>p. pcs s t \<noteq> StoreNext p \<and> k \<noteq> StoreNext p) \<and> k \<noteq> SwapTail \<and> loaded k = None \<and>
     (waiting k \<or> \<not> waiting (pcs s t)) \<and> pcs s t \<noteq> Idle \<and> k \<noteq> FutexSleep \<and>
     (\<forall>a j. pcs s t \<noteq> WakeSyscall a j) \<and>
     (\<forall>c. awaits k = Some c \<longrightarrow> awaits (pcs s t) = Some c \<or> tail (raw s) \<noteq> Some c)"

definition looks_again ::
    "feature \<Rightarrow> tid \<Rightarrow> ('d, 'r, 'p) sys \<Rightarrow> ('d, 'r, 'p) ghost \<Rightarrow> hb \<Rightarrow> history \<Rightarrow> ('d, 'r, 'p) pc \<Rightarrow> bool" where
  "looks_again cfg t s g h y k \<longleftrightarrow>
     looks s t k \<and> (\<forall>n. word_ok k (heap s t) (past y (Word t)) (seen h t) n) \<and>
     (\<exists>g'. inv cfg (goto t k s) g' \<and> kept g g' \<and> gspec g' = gspec g)"

lemma looks_againI:
  assumes "inv cfg s g" and "local cfg t (view_of s g t) k" and "looks s t k"
    and "\<forall>n. word_ok k (heap s t) (past y (Word t)) (seen h t) n"
  shows "looks_again cfg t s g h y k"
proof -
  have "inv cfg (goto t k s) g"
    using assms(3) by (intro inv_goto [OF assms(1) _ _ assms(2)]) (auto simp: looks_def)
  then show ?thesis using assms(3,4) unfolding looks_again_def by (auto intro!: exI [of _ g])
qed

definition moved_on ::
    "feature \<Rightarrow> tid \<Rightarrow> ('d, 'r, 'p) sys \<Rightarrow> ('d, 'r, 'p) ghost \<Rightarrow> hb \<Rightarrow> history \<Rightarrow>
     ('d, 'r, 'p) step_result \<Rightarrow> bool" where
  "moved_on cfg t s g h y res \<longleftrightarrow>
     (\<exists>k s1. res = Next s1 [] \<and> pcs s1 = (pcs s)(t := k) \<and> looks_again cfg t s g h y k)"

lemma stale_pc:
  assumes I: "inv cfg s g" and B: "hb_inv s g h" and P: "past_inv s g h y" and r: "readable t l i h y"
    and s0: "s0 = with_value l (fst (past y l ! i)) s"
    and a: "only_loads l (accesses cfg t s0 (pcs s t))" and pc: "pcs s t \<noteq> FutexWait"
    and np: "\<not> (l = Status \<and> fst (past y l ! i) = Num RAW_POISONED)"
  shows "moved_on cfg t s g h y (thread_step cfg t s0) \<and> loc_ok s g h t l"
proof -
  note F = stale_finds [OF I B P r refl]
  note L = inv_parts(5) [OF I, of t]
  have W: "word_past s h y t" using P by (simp add: past_inv_def)
  have own: "waiting (pcs s t) \<longrightarrow> visible s g h t t"
    using visible_own [OF B] own_word_heap [OF I] by blast
  have cur: "visible s g h t c" if "\<exists>fin. pcs s t \<in> {LoadNext c, HandLoad c, BombLoad c fin, BombSpin c fin}" for c
    by (rule cursor_visible(1) [OF I B]) (use that in blast)
  show ?thesis
  proof (cases l)
    case Status
    obtain n where n: "fst (past y l ! i) = Num n" "n \<noteq> RAW_POISONED" using F(1) [OF Status] np Status by auto
    then have s0: "s0 = s\<lparr>raw := (raw s)\<lparr>status := n\<rparr>\<rparr>" using s0 Status by simp
    from a pc Status show ?thesis
      by (cases "pcs s t") (use L n in \<open>auto simp: s0 at_defs moved_on_def looks_def thread_step_def try_acquire_def
          split: step_splits intro!: looks_againI [OF I]\<close>)
  next
    case Tail
    then obtain p where p: "fst (past y l ! i) = Ptr p" "gL g = Some t \<and> \<not> waiting (pcs s t) \<longrightarrow> p \<noteq> None"
      using F(2) by blast
    then have s0: "s0 = s\<lparr>raw := (raw s)\<lparr>tail := p\<rparr>\<rparr>" using s0 Tail by simp
    from a pc Tail show ?thesis
      by (cases "pcs s t") (use L p F(7) [OF Tail] in \<open>auto simp: s0 at_defs moved_on_def looks_def thread_step_def leads_def
          try_close_def has_tail_def split: step_splits intro!: looks_againI [OF I]\<close>)
  next
    case (Word c)
    from a pc have c: "c = t" "waiting (pcs s t)"
      by (cases "pcs s t"; auto simp: Word at_defs split: step_splits)+
    obtain nd where nd: "heap s t = Some nd" using own_word_heap [OF I c(2)] by auto
    have s0: "\<exists>n. fst (past y (Word t) ! i) = Num n \<and> s0 = put_node t (nd\<lparr>futex := n\<rparr>) s"
      if "\<exists>k. pcs s t \<in> {Spin k, WaitCas, FutexCheck}"
      using F(4,5) that s0 nd by (auto simp: Word c(1))
    from a pc own show ?thesis
      by (cases "pcs s t") (use F(4-6) s0 L W nd in \<open>auto simp: Word c(1) at_defs moved_on_def looks_def
          thread_step_def access_def futex_cas_def word_past_def split: step_splits intro!: looks_againI [OF I]\<close>)
  next
    case (Link c)
    have v: "fst (past y (Link c) ! i) = Ptr None" using F(3) Link by blast
    from a pc have k: "\<exists>fin. pcs s t \<in> {LoadNext c, HandLoad c, BombLoad c fin, BombSpin c fin}"
      by (cases "pcs s t") (auto simp: Link at_defs split: step_splits)
    note vis = cur [OF k]
    then obtain nd where nd: "heap s c = Some nd" by (auto simp: visible_def)
    then have s0: "s0 = put_node c (nd\<lparr>nxt := None\<rparr>) s" using s0 v by (simp add: Link)
    from k vis show ?thesis
      by (cases "pcs s t") (use L in \<open>auto simp: Link s0 moved_on_def looks_def thread_step_def access_def
          intro!: looks_againI [OF I]\<close>)
  qed
qed

lemma stale_poisoned:
  assumes I: "inv cfg s g" and st: "status (raw s) = RAW_POISONED"
    and a: "only_loads Status (accesses cfg t s (pcs s t))"
  shows "moved_on cfg t s g h y (thread_step cfg t s)"
proof -
  have pc: "pcs s t = Acquire \<or> pcs s t = AcquireSpin \<or> (\<exists>f. pcs s t = TryAcquire f)"
    using a by (cases "pcs s t") (auto simp: at_defs split: step_splits)
  have N: "cfg = NoStd" using inv_parts(2) [OF I] st by (cases cfg) (auto simp: lock_inv_def)
  obtain k where k: "thread_step cfg t s = Next (goto t k s) []"
    "looks s t k" "\<forall>n. word_ok k (heap s t) (past y (Word t)) (seen h t) n"
    using pc st N by (auto simp: thread_step_def try_acquire_def looks_def)
  have "step_ok cfg t (pcs s t) g (Next (goto t k s) [])"
    using thread_step_ok [OF I, of t] k(1) by simp
  then obtain g' where g': "inv cfg (goto t k s) g'" "gspec g' = gspec g" "moved t (pcs s t) g g'"
    by (auto simp: step_ok_def)
  moreover have "gH g = None" "gH g' = None"
    using inv_parts(2) [OF I] inv_parts(2) [OF g'(1)] st by (auto simp: lock_inv_def)
  ultimately have "kept g g'" using pc by auto
  then show ?thesis
    using k g' pc unfolding moved_on_def looks_again_def by (auto intro!: exI [of _ g'])
qed

lemma stale_moves_on:
  assumes I: "inv cfg s g" and B: "hb_inv s g h" and P: "past_inv s g h y"
    and "stale_step cfg t l i (s, h, y) = res" and "res \<noteq> Blocked"
  shows "moved_on cfg t s g h y res" and "loc_ok s g h t l"
proof -
  let ?v = "fst (past y l ! i)"
  have r: "readable t l i h y" "only_loads l (accesses cfg t (with_value l ?v s) (pcs s t))"
    "pcs s t \<noteq> FutexWait" "res = thread_step cfg t (with_value l ?v s)"
    using assms(4,5) by (auto simp: stale_step_def Let_def split: if_splits)
  have "moved_on cfg t s g h y res \<and> loc_ok s g h t l"
  proof (cases "l = Status \<and> ?v = Num RAW_POISONED")
    case True
    then have st: "status (raw s) = RAW_POISONED" using stale_finds(1) [OF I B P r(1) refl] by auto
    then have "(raw s)\<lparr>status := RAW_POISONED\<rparr> = raw s" by (cases "raw s") simp
    then have "with_value l ?v s = s" using True by auto
    with True stale_poisoned [OF I st] r show ?thesis by simp
  next
    case False
    then show ?thesis using stale_pc [OF I B P r(1) refl r(2,3)] r(4) by simp
  qed
  then show "moved_on cfg t s g h y res" "loc_ok s g h t l" by auto
qed

subsection \<open>Steps that leave memory alone\<close>

lemma past_look:
  assumes P: "past_inv s g h y" and q: "kept g g'" and k: "\<forall>n. word_ok k (heap s t) (past y (Word t)) (seen h t) n"
    and up: "\<And>u. seen h u \<subseteq> seen h' u" and m: "msg h' = msg h"
    and y': "past y' = past y" "\<And>u. u \<noteq> t \<Longrightarrow> since y' u = since y u"
  shows "past_inv (goto t k s) g' h' y'"
proof -
  have "word_past (goto t k s) h' y' u" for u
  proof (cases "u = t")
    case True
    then show ?thesis
      using word_ok_mono [OF k [rule_format, of "since y' t (Word t)"] up [of t] refl] y'(1)
      by (simp add: word_past_def)
  next
    case False
    have "word_past s h y u" using P by (simp add: past_inv_def)
    from word_ok_mono [OF this [unfolded word_past_def] up [of u] refl]
    show ?thesis using False y' by (simp add: word_past_def)
  qed
  moreover have "tail_past g' h' y'"
  proof -
    have "X \<subseteq> seen h u \<union> Z \<Longrightarrow> X \<subseteq> seen h' u \<union> Z" for X Z u using up [of u] by blast
    then show ?thesis using P q by (simp add: past_inv_def tail_past_def nulls_def m y'(1))
  qed
  moreover have "last_past (goto t k s) g' h' y'"
  proof -
    have "carrier g' c = carrier g c" for c using q by (simp add: carrier_def)
    moreover have "newest y' = newest y" by (simp add: newest_def y'(1))
    moreover have "last_past s g h y" using P by (simp add: past_inv_def)
    ultimately show ?thesis using q by (auto simp: last_past_def y'(1) m intro: subsetD [OF up])
  qed
  ultimately show ?thesis
    using P by (simp add: past_inv_def status_past_def link_past_def y'(1))
qed

lemma hb_look:
  assumes "hb_inv s g h" and "kept g g'" and "looks_again cfg t s g h y k" and "loc_ok s g h t l"
  shows "hb_inv (goto t k s) g' (do_access t (Load l Relaxed) h)"
proof -
  have "hb_inv (goto t k s) g' (do_accesses t [Load l Relaxed] h)"
    by (rule hb_load [OF assms(1,2)]) (use assms(3,4) in \<open>auto simp: looks_again_def looks_def\<close>)
  then show ?thesis by (simp add: do_accesses_def)
qed

end
