(* ===== verification/Traces.thy ===== *)
theory Traces
  imports Main
begin

section \<open>Runs of labelled transition systems\<close>

text \<open>
  Finite runs with the events they emit, and two interfaces: a system with an inductive invariant,
  and a system that simulates an executable specification. Both are proved once about runs and
  interpreted by the components.
\<close>

inductive runs :: "('s \<Rightarrow> 'e list \<Rightarrow> 's \<Rightarrow> bool) \<Rightarrow> 's \<Rightarrow> 'e list \<Rightarrow> 's \<Rightarrow> bool" for step where
  start: "runs step s [] s"
| more: "runs step s es s' \<Longrightarrow> step s' fs s'' \<Longrightarrow> runs step s (es @ fs) s''"

inductive_cases runs_cases: "runs step s es s'"

lemma runs_one: "step s es s' \<Longrightarrow> runs step s es s'"
  using runs.more [OF runs.start] by force

lemma runs_trans:
  assumes "runs step s' fs s''" and "runs step s es s'"
  shows "runs step s (es @ fs) s''"
  using assms
proof (induction rule: runs.induct)
  case (more s' fs t gs u)
  then have "runs step s ((es @ fs) @ gs) u" by (blast intro: runs.more)
  then show ?case by simp
qed simp

locale invariant_system =
  fixes step :: "'s \<Rightarrow> 'e list \<Rightarrow> 's \<Rightarrow> bool" and good :: "'s \<Rightarrow> bool"
  assumes step_good: "good s \<Longrightarrow> step s es s' \<Longrightarrow> good s'"
begin

lemma runs_good: "runs step s es s' \<Longrightarrow> good s \<Longrightarrow> good s'"
  by (induction rule: runs.induct) (auto intro: step_good)

end

locale refined_system =
  fixes step :: "'s \<Rightarrow> 'e list \<Rightarrow> 's \<Rightarrow> bool"
    and spec :: "'e list \<Rightarrow> 'a \<Rightarrow> 'a option"
    and rel :: "'s \<Rightarrow> 'a \<Rightarrow> bool"
  assumes spec_Nil: "spec [] a = Some a"
    and spec_append: "spec (es @ fs) a = Option.bind (spec es a) (spec fs)"
    and simulates: "rel s a \<Longrightarrow> step s es s' \<Longrightarrow> \<exists>a'. spec es a = Some a' \<and> rel s' a'"
begin

lemma runs_refine: "runs step s es s' \<Longrightarrow> rel s a \<Longrightarrow> \<exists>a'. spec es a = Some a' \<and> rel s' a'"
proof (induction rule: runs.induct)
  case (start s)
  then show ?case by (simp add: spec_Nil)
next
  case (more s es s' fs s'')
  then show ?case using simulates by (fastforce simp: spec_append)
qed

end

text \<open>A refined system keeps "some specification state is related" as an invariant.\<close>

sublocale refined_system \<subseteq> related: invariant_system step "\<lambda>s. \<exists>a. rel s a"
proof
  fix s es s'
  assume "\<exists>a. rel s a" "step s es s'"
  then show "\<exists>a. rel s' a" using simulates by blast
qed

end
