(* ===== verification/Lam_Memory.thy ===== *)
theory Lam_Memory
  imports Lam_Stale Traces
begin

section \<open>The lock refines its specification\<close>

text \<open>
  The invariants of the queue, of what the threads have seen and of the earlier values together are
  kept by every step, stale or not, and every step is a step of the specification: the lock is an
  instance of \<open>refined_system\<close>.
\<close>

definition world_init :: "'d \<Rightarrow> ('d, 'r, 'p) sys \<times> hb \<times> history" where
  "world_init d = (sys_init d, hb_init, history_init)"

definition weak_rel ::
    "feature \<Rightarrow> ('d, 'r, 'p) sys \<times> hb \<times> history \<Rightarrow> ('d, 'r, 'p) spec \<Rightarrow> bool" where
  "weak_rel cfg x a \<longleftrightarrow>
     (case x of (s, h, y) \<Rightarrow> \<exists>g. inv cfg s g \<and> hb_inv s g h \<and> past_inv s g h y \<and> gspec g = a)"

lemma weak_rel_init:
  "weak_rel cfg (world_init d :: ('d, 'r, 'p) sys \<times> hb \<times> history) (spec_init d)"
proof -
  let ?s = "sys_init d :: ('d, 'r, 'p) sys"
  have "\<exists>g. inv cfg ?s g \<and> gspec g = spec_init d" by (rule inv_init)
  then obtain g where g: "inv cfg ?s g" "gspec g = spec_init d" by blast
  have "gq g = []"
    using inv_parts(1) [OF g(1)] by (auto simp: queue_inv_def sys_init_def raw_new_def split: if_splits)
  then have "past_inv ?s g hb_init history_init"
    by (auto simp: past_inv_def status_past_def tail_past_def last_past_def word_past_def
        link_past_def nulls_def history_init_def sys_init_def)
  then show ?thesis using g hb_inv_init [OF g(1)] by (auto simp: weak_rel_def world_init_def)
qed

lemma weak_step_refines:
  assumes "weak_rel cfg x a" and "weak_step cfg x es x'"
  shows "\<exists>a'. spec_run cfg es a = Some a' \<and> weak_rel cfg x' a'"
proof -
  obtain s h y where x: "x = (s, h, y)" by (cases x)
  obtain g where I: "inv cfg s g" and B: "hb_inv s g h" and P: "past_inv s g h y" and a: "gspec g = a"
    using assms(1) x by (auto simp: weak_rel_def)
  from assms(2) [unfolded x] show ?thesis
  proof cases
    case (call t f)
    obtain g' where g': "inv cfg (goto t (TryRun f) s) g'" "kept g g'"
      "spec_run cfg [Call t f] (gspec g) = Some (gspec g')"
      using inv_call [OF I, of t f] call by auto
    have "hb_inv (goto t (TryRun f) s) g' h" using hb_nothing [OF B g'(2)] call by simp
    moreover have "past_inv (goto t (TryRun f) s) g' h y" by (rule past_look [OF P g'(2)]) simp_all
    ultimately show ?thesis using g' call a by (auto simp: weak_rel_def simp del: spec_run.simps)
  next
    case (thread t s' as)
    obtain g' where "inv cfg s' g'" "moved t (pcs s t) g g'" "spec_run cfg es (gspec g) = Some (gspec g')"
      using thread_step_ok [OF I, of t] thread by (auto simp: step_ok_def)
    then show ?thesis
      using seen_thread [OF I B] past_thread [OF I B P] thread a by (auto simp: weak_rel_def)
  next
    case (stale t l i s0)
    note M = stale_moves_on [OF I B P stale(2), simplified]
    then obtain k g' where k: "pcs s0 = (pcs s)(t := k)" "es = []" "looks_again cfg t s g h y k"
      "inv cfg (goto t k s) g'" "kept g g'" "gspec g' = gspec g"
      by (auto simp: moved_on_def looks_again_def)
    have s: "s\<lparr>pcs := pcs s0\<rparr> = goto t k s" using k(1) by (simp add: goto_def)
    have "past_inv (goto t k s) g' (do_access t (Load l Relaxed) h) (has_read t l i y)"
      by (rule past_look [OF P k(5)]) (use k(3) do_access_seen in \<open>auto simp: looks_again_def has_read_def\<close>)
    then show ?thesis
      using k(2,4,6) a hb_look [OF B k(5,3) M(2)] stale(1) s by (auto simp: weak_rel_def)
  next
    case (spurious t)
    have "inv cfg (goto t FutexCheck s) g" using inv_wakeup [OF I] spurious by simp
    moreover have "hb_inv (goto t FutexCheck s) g h"
      using hb_nothing [OF B, of g "goto t FutexCheck s" t FutexCheck] spurious by simp
    moreover have "past_inv (goto t FutexCheck s) g h y"
    proof (rule past_look [OF P])
      have "word_past s h y t" using P by (simp add: past_inv_def)
      then show "\<forall>n. word_ok FutexCheck (heap s t) (past y (Word t)) (seen h t) n"
        using spurious(3) by (simp add: word_past_def)
    qed simp_all
    ultimately show ?thesis using spurious a by (auto simp: weak_rel_def)
  qed
qed

interpretation lock: refined_system "weak_step cfg" "spec_run cfg" "weak_rel cfg"
  by unfold_locales (auto simp: spec_run_append intro: weak_step_refines)

subsection \<open>Runs of the lock\<close>

abbreviation lock_world ::
    "feature \<Rightarrow> 'd \<Rightarrow> ('d, 'r, 'p) event list \<Rightarrow> ('d, 'r, 'p) sys \<times> hb \<times> history \<Rightarrow> bool" where
  "lock_world cfg d es x \<equiv> runs (weak_step cfg) (world_init d) es x"

text \<open>The states the lock can reach, by the events on the way.\<close>

definition lock_runs ::
    "feature \<Rightarrow> 'd \<Rightarrow> ('d, 'r, 'p) event list \<Rightarrow> ('d, 'r, 'p) sys \<Rightarrow> bool" where
  "lock_runs cfg d es s \<longleftrightarrow> (\<exists>h y. lock_world cfg d es (s, h, y))"

lemma lock_world_inv:
  assumes "lock_world cfg d es (s, h, y)"
  shows "\<exists>g. inv cfg s g \<and> hb_inv s g h \<and> past_inv s g h y \<and>
    spec_run cfg es (spec_init d) = Some (gspec g)"
  using lock.runs_refine [OF assms weak_rel_init] by (auto simp: weak_rel_def)

lemma lock_runs_inv:
  assumes "lock_runs cfg d es s"
  shows "\<exists>g. inv cfg s g \<and> spec_run cfg es (spec_init d) = Some (gspec g)"
proof -
  obtain h y where "lock_world cfg d es (s, h, y)" using assms by (auto simp: lock_runs_def)
  from lock_world_inv [OF this] show ?thesis by blast
qed

text \<open>What the steps do to the state of \<open>Lam_System\<close>.\<close>

lemma weak_step_cases:
  assumes "weak_rel cfg x a" and "weak_step cfg x es x'"
  obtains (call) t f where "pcs (fst x) t = Idle" "es = [Call t f]" "fst x' = goto t (TryRun f) (fst x)"
    | (thread) t where "thread_step cfg t (fst x) = Next (fst x') es"
    | (stale) t k where "looks (fst x) t k" "es = []" "fst x' = goto t k (fst x)"
    | (spurious) t where "pcs (fst x) t = FutexSleep" "es = []" "fst x' = goto t FutexCheck (fst x)"
proof -
  obtain s h y where x: "x = (s, h, y)" by (cases x)
  obtain g where I: "inv cfg s g" and B: "hb_inv s g h" and P: "past_inv s g h y"
    using assms(1) x by (auto simp: weak_rel_def)
  from assms(2) [unfolded x] show thesis
  proof cases
    case (stale t l i s0)
    obtain k where "pcs s0 = (pcs s)(t := k)" "es = []" "looks s t k"
      using stale_moves_on(1) [OF I B P stale(2)] by (auto simp: moved_on_def looks_again_def)
    then show thesis using that(3) [of t k] stale(1) x by (simp add: goto_def)
  qed (use that(1,2,4) x in simp_all)
qed

lemma looks_simps:
  assumes "looks s t k"
  shows "pcs s t \<noteq> Idle" and "k \<noteq> FutexSleep" and "\<forall>a j. pcs s t \<noteq> WakeSyscall a j"
    and "awaits k = Some c \<Longrightarrow> awaits (pcs s t) = Some c \<or> tail (raw s) \<noteq> Some c"
  using assms by (auto simp: looks_def)

end
