(* ===== verification/Lam_Sched.thy ===== *)
theory Lam_Sched
  imports Lam_Memory
begin

section \<open>Executable schedules\<close>

text \<open>
  A schedule says which thread moves next. Running one computes a run of the system, so concrete
  interleavings can be evaluated.
\<close>

datatype (dead 'd, dead 'r, dead 'p) move =
    Enter tid "('d, 'r, 'p) task"
  | Move tid
  | Wakeup tid

definition is_idle :: "('d, 'r, 'p) pc \<Rightarrow> bool" where
  "is_idle k = (case k of Idle \<Rightarrow> True | _ \<Rightarrow> False)"

definition is_asleep :: "('d, 'r, 'p) pc \<Rightarrow> bool" where
  "is_asleep k = (case k of FutexSleep \<Rightarrow> True | _ \<Rightarrow> False)"

lemma is_idle_iff: "is_idle k \<longleftrightarrow> k = Idle" and is_asleep_iff: "is_asleep k \<longleftrightarrow> k = FutexSleep"
  by (cases k; simp add: is_idle_def is_asleep_def)+

fun perform ::
    "feature \<Rightarrow> ('d, 'r, 'p) move \<Rightarrow> ('d, 'r, 'p) sys \<Rightarrow>
     (('d, 'r, 'p) event list \<times> ('d, 'r, 'p) sys) option" where
  "perform cfg (Enter t f) s =
     (if is_idle (pcs s t) then Some ([Call t f], goto t (TryRun f) s) else None)"
| "perform cfg (Move t) s =
     (case thread_step cfg t s of Next s' es \<Rightarrow> Some (es, s') | _ \<Rightarrow> None)"
| "perform cfg (Wakeup t) s =
     (if is_asleep (pcs s t) then Some ([], goto t FutexCheck s) else None)"

fun schedule ::
    "feature \<Rightarrow> ('d, 'r, 'p) move list \<Rightarrow> ('d, 'r, 'p) sys \<Rightarrow>
     (('d, 'r, 'p) event list \<times> ('d, 'r, 'p) sys) option" where
  "schedule cfg [] s = Some ([], s)"
| "schedule cfg (m # ms) s =
     (case perform cfg m s of
        None \<Rightarrow> None
      | Some (es, s') \<Rightarrow>
          (case schedule cfg ms s' of None \<Rightarrow> None | Some (fs, s'') \<Rightarrow> Some (es @ fs, s'')))"

text \<open>A move of a schedule finds the latest values.\<close>

fun latest ::
    "feature \<Rightarrow> ('d, 'r, 'p) move \<Rightarrow> ('d, 'r, 'p) sys \<Rightarrow> hb \<times> history \<Rightarrow> hb \<times> history" where
  "latest cfg (Move t) s (h, y) =
     (let as = accesses cfg t s (pcs s t) in (do_accesses t as h, keep_accesses t as s h y))"
| "latest cfg m s x = x"

lemma perform_step:
  assumes "perform cfg m s = Some (es, s')"
  shows "weak_step cfg (s, x) es (s', latest cfg m s x)"
proof (cases m)
  case (Enter t f)
  with assms show ?thesis
    by (cases x) (auto simp: is_idle_iff intro: weak_step.call split: if_splits)
next
  case (Move t)
  with assms show ?thesis
    by (cases x) (auto simp: Let_def intro: weak_step.thread split: step_result.splits)
next
  case (Wakeup t)
  with assms show ?thesis
    by (cases x) (auto simp: is_asleep_iff intro: weak_step.spurious split: if_splits)
qed

lemma schedule_runs:
  "schedule cfg ms s = Some (es, s') \<Longrightarrow> \<exists>x'. runs (weak_step cfg) (s, x) es (s', x')"
proof (induction ms arbitrary: s x es)
  case Nil
  then show ?case using runs.start [of "weak_step cfg" "(s, x)"] by (intro exI [of _ x]) simp
next
  case (Cons m ms)
  then obtain fs t gs where m: "perform cfg m s = Some (fs, t)" "schedule cfg ms t = Some (gs, s')"
    "es = fs @ gs"
    by (auto split: option.splits prod.splits)
  obtain x' where "runs (weak_step cfg) (t, latest cfg m s x) gs (s', x')"
    using Cons.IH [OF m(2)] by blast
  from runs_trans [OF this runs_one [of "weak_step cfg", OF perform_step [OF m(1)]]] show ?case
    using m(3) by blast
qed

lemma schedule_lock_runs:
  assumes "schedule cfg ms (sys_init d) = Some (es, s)"
  shows "lock_runs cfg d es s"
  using schedule_runs [OF assms, of "(hb_init, history_init)"]
  by (auto simp: lock_runs_def world_init_def)

lemmas schedule_eval = thread_step_def sys_init_def raw_new_def goto_def put_node_def free_node_def
  access_def wake_def cancel_def raw_defs node_defs SPIN_LIMIT_def
  is_idle_def is_asleep_def

subsection \<open>The uncontended call\<close>

lemma fast_path_schedule:
  assumes "pcs s t = Idle" and "tail (raw s) = None" and "status (raw s) = UNLOCKED"
  shows "schedule cfg (Enter t f # replicate 5 (Move t)) s =
    Some ([Call t f, Exec t, Ret t (ret_of (snd (f (data s))))], s\<lparr>data := fst (f (data s))\<rparr>)"
proof -
  obtain d out where f: "f (data s) = (d, out)" by fastforce
  have "(pcs s)(t := Idle) = pcs s" using assms(1) by auto
  moreover have "(raw s)\<lparr>status := UNLOCKED\<rparr> = raw s" using assms(3) by (cases "raw s") simp
  ultimately show ?thesis
    using assms f by (simp add: schedule_eval eval_nat_numeral)
qed

lemma schedule_append:
  assumes "schedule cfg ms s = Some (es, s')" and "schedule cfg ns s' = Some (fs, s'')"
  shows "schedule cfg (ms @ ns) s = Some (es @ fs, s'')"
  using assms
  by (induction ms arbitrary: s es) (auto split: option.splits prod.splits)

subsection \<open>Schedules with stale loads\<close>

datatype (dead 'd, dead 'r, dead 'p) weak_move = Now "('d, 'r, 'p) move" | Old tid loc nat

fun weak_perform ::
    "feature \<Rightarrow> ('d, 'r, 'p) weak_move \<Rightarrow> ('d, 'r, 'p) sys \<times> hb \<times> history \<Rightarrow>
     (('d, 'r, 'p) event list \<times> ('d, 'r, 'p) sys \<times> hb \<times> history) option" where
  "weak_perform cfg (Now m) (s, x) =
     (case perform cfg m s of None \<Rightarrow> None | Some (es, s') \<Rightarrow> Some (es, s', latest cfg m s x))"
| "weak_perform cfg (Old t l i) (s, h, y) =
     (case stale_step cfg t l i (s, h, y) of
        Next s0 es \<Rightarrow> Some (es, s\<lparr>pcs := pcs s0\<rparr>, do_access t (Load l Relaxed) h, has_read t l i y)
      | _ \<Rightarrow> None)"

fun weak_schedule ::
    "feature \<Rightarrow> ('d, 'r, 'p) weak_move list \<Rightarrow> ('d, 'r, 'p) sys \<times> hb \<times> history \<Rightarrow>
     (('d, 'r, 'p) event list \<times> ('d, 'r, 'p) sys \<times> hb \<times> history) option" where
  "weak_schedule cfg [] x = Some ([], x)"
| "weak_schedule cfg (m # ms) x =
     (case weak_perform cfg m x of
        None \<Rightarrow> None
      | Some (es, x') \<Rightarrow>
          (case weak_schedule cfg ms x' of None \<Rightarrow> None | Some (fs, x'') \<Rightarrow> Some (es @ fs, x'')))"

lemma weak_perform_step:
  assumes "weak_perform cfg m x = Some (es, x')"
  shows "weak_step cfg x es x'"
proof (cases m)
  case (Now n)
  with assms show ?thesis by (cases x) (auto intro: perform_step split: option.splits)
next
  case (Old t l i)
  with assms show ?thesis
    by (cases x) (auto simp del: do_access.simps intro: weak_step.stale split: step_result.splits)
qed

lemma weak_schedule_runs:
  "weak_schedule cfg ms x = Some (es, x') \<Longrightarrow> runs (weak_step cfg) x es x'"
proof (induction ms arbitrary: x es)
  case (Cons m ms)
  then obtain fs x1 gs where "weak_perform cfg m x = Some (fs, x1)"
    "weak_schedule cfg ms x1 = Some (gs, x')" "es = fs @ gs"
    by (auto split: option.splits)
  then show ?case
    using runs_trans [OF Cons.IH runs_one [of "weak_step cfg", OF weak_perform_step]] by blast
qed (auto intro: runs.start)

lemmas memory_eval = hb_init_def do_accesses_def touch_def tick_def synced_def Let_def
  has_tail_at_def swap_tail_at_def try_close_at_def try_acquire_at_def acquire_spin_at_def
  raw_poison_at_def raw_release_at_def load_next_at_def store_next_at_def attach_spin_at_def
  node_wait_at_def node_wait_reload_at_def futex_wait_check_at_def futex_wait_call_at_def
  notify_at_def run_slowly_node_at_def try_run_direct_at_def execute_take_at_def
  execute_run_at_def run_slowly_end_at_def
  history_init_def stale_step_def readable_def replaced_def has_read_def renewed_def value_at_def
  next_of_def world_init_def

subsection \<open>Tasks for the examples\<close>

definition add_task :: "nat \<Rightarrow> (nat, nat, nat) task" where
  "add_task n = (\<lambda>d. (d + n, Return d))"

definition boom_task :: "(nat, nat, nat) task" where
  "boom_task = (\<lambda>d. (d + 100, Panic 7))"

end
