(* ===== verification/Lam_Safety.thy ===== *)
theory Lam_Safety
  imports Lam_Sched
begin

section \<open>What the lock guarantees on every run\<close>

text \<open>
  Consequences of the invariant for the reachable states: exclusion, memory safety, sleeping and
  waking, progress, and what poisoning means.
\<close>

subsection \<open>Exclusion\<close>

definition in_task :: "('d, 'r, 'p) pc \<Rightarrow> bool" where
  "in_task k = (case k of FastRun f \<Rightarrow> True | Running c f \<Rightarrow> True | _ \<Rightarrow> False)"

lemma in_task_holds:
  assumes "inv cfg s g" and "in_task (pcs s t)"
  shows "gH g = Some t"
  using inv_parts(5) [OF assms(1), of t] assms(2) by (auto simp: in_task_def split: pc.splits)

subsection \<open>Sleeping and waking\<close>

text \<open>
  A thread asleep in the kernel on a word that no longer says \<open>SLEEPING\<close> is about to be woken:
  the thread that changed the word still has the system call to make.
\<close>

definition sleep_ok :: "('d, 'r, 'p) sys \<Rightarrow> bool" where
  "sleep_ok s \<longleftrightarrow>
     (\<forall>t. pcs s t = FutexSleep \<longrightarrow>
       (\<exists>nd. heap s t = Some nd \<and>
         (futex nd = SLEEPING \<or> (\<exists>u k. pcs s u = WakeSyscall t k))))"

lemma sleep_ok_step:
  assumes "sleep_ok s" and "pcs s' = (pcs s)(t := k)" and "\<forall>a k. pcs s t \<noteq> WakeSyscall a k"
    and "k = FutexSleep \<longrightarrow> (\<exists>nd. heap s' t = Some nd \<and> futex nd = SLEEPING)"
    and "\<forall>u nd. u \<noteq> t \<and> heap s u = Some nd \<longrightarrow>
      (\<exists>nd'. heap s' u = Some nd' \<and>
        (futex nd' = futex nd \<or> futex nd \<noteq> SLEEPING \<or> (\<exists>j. k = WakeSyscall u j)))"
  shows "sleep_ok s'"
  unfolding sleep_ok_def
proof (intro allI impI)
  fix u
  assume u: "pcs s' u = FutexSleep"
  show "\<exists>nd. heap s' u = Some nd \<and> (futex nd = SLEEPING \<or> (\<exists>v k. pcs s' v = WakeSyscall u k))"
  proof (cases "u = t")
    case True
    then show ?thesis using assms(2,4) u by auto
  next
    case False
    then obtain nd where nd: "heap s u = Some nd"
      "futex nd = SLEEPING \<or> (\<exists>v j. pcs s v = WakeSyscall u j)"
      using assms(1,2) u unfolding sleep_ok_def by (metis fun_upd_apply)
    obtain nd' where nd': "heap s' u = Some nd'"
      "futex nd' = futex nd \<or> futex nd \<noteq> SLEEPING \<or> (\<exists>j. k = WakeSyscall u j)"
      using assms(5) False nd(1) by blast
    have "futex nd' = SLEEPING \<or> (\<exists>v j. pcs s' v = WakeSyscall u j)"
    proof (cases "\<exists>v j. pcs s v = WakeSyscall u j")
      case True
      then obtain v j where "pcs s v = WakeSyscall u j" by blast
      moreover from this have "v \<noteq> t" using assms(3) by auto
      ultimately have "pcs s' v = WakeSyscall u j" using assms(2) by simp
      then show ?thesis by blast
    next
      case False
      with nd(2) nd'(2) have "futex nd' = SLEEPING \<or> (\<exists>j. k = WakeSyscall u j)" by auto
      moreover have "pcs s' t = k" using assms(2) by simp
      ultimately show ?thesis by blast
    qed
    with nd'(1) show ?thesis by blast
  qed
qed

lemma sleep_ok_wakeup: "sleep_ok s \<Longrightarrow> sleep_ok (goto t FutexCheck s)"
  if "pcs s t = FutexSleep"
  by (rule sleep_ok_step [where t = t and k = FutexCheck]) (use that in auto)

lemma sleep_ok_syscall:
  assumes "sleep_ok s" and "pcs s t = WakeSyscall a k" and "k \<noteq> FutexSleep"
  shows "sleep_ok (goto t k (if pcs s a = FutexSleep then goto a FutexCheck s else s))"
  unfolding sleep_ok_def
proof (intro allI impI)
  let ?s = "goto t k (if pcs s a = FutexSleep then goto a FutexCheck s else s)"
  fix u
  assume "pcs ?s u = FutexSleep"
  then have u: "u \<noteq> t" "u \<noteq> a" "pcs s u = FutexSleep"
    using assms(2,3) by (auto split: if_splits)
  then obtain nd where nd: "heap s u = Some nd"
    "futex nd = SLEEPING \<or> (\<exists>v j. pcs s v = WakeSyscall u j)"
    using assms(1) unfolding sleep_ok_def by blast
  have "\<exists>v j. pcs ?s v = WakeSyscall u j" if "pcs s v = WakeSyscall u j" for v j
  proof -
    have "v \<noteq> t" "pcs s a = FutexSleep \<longrightarrow> v \<noteq> a" using that u(2) assms(2) by auto
    then have "pcs ?s v = WakeSyscall u j" using that by simp
    then show ?thesis by blast
  qed
  moreover have "heap ?s = heap s" by simp
  ultimately show "\<exists>nd. heap ?s u = Some nd \<and> (futex nd = SLEEPING \<or> (\<exists>v k. pcs ?s v = WakeSyscall u k))"
    using nd by (metis (no_types, lifting))
qed

lemma sleep_ok_thread:
  assumes "sleep_ok s" and "thread_step cfg t s = Next s' es" and "inv cfg s g"
  shows "sleep_ok s'"
proof (cases "\<exists>a k. pcs s t = WakeSyscall a k")
  case True
  then obtain a k where k: "pcs s t = WakeSyscall a k" by blast
  have "k \<noteq> FutexSleep" using inv_parts(5) [OF assms(3), of t] k by auto
  then show ?thesis
    using sleep_ok_syscall [OF assms(1) k] assms(2) k by (simp add: thread_step_def)
next
  case False
  have [simp]: "bomb_end fin \<noteq> FutexSleep" for fin by (cases fin) simp_all
  have "pcs s' = (pcs s)(t := pcs s' t) \<and>
    (pcs s' t = FutexSleep \<longrightarrow> (\<exists>nd. heap s' t = Some nd \<and> futex nd = SLEEPING)) \<and>
    (\<forall>u nd. u \<noteq> t \<and> heap s u = Some nd \<longrightarrow>
      (\<exists>nd'. heap s' u = Some nd' \<and>
        (futex nd' = futex nd \<or> futex nd \<noteq> SLEEPING \<or> (\<exists>j. pcs s' t = WakeSyscall u j))))"
    using assms(2) False unfolding thread_step_def
    by (cases "pcs s t")
      (auto simp: access_def wake_def futex_swap_def futex_cas_def store_next_def
        split: option.splits if_splits prod.splits sum.splits bool.splits lock_poisoned.splits
          feature.splits outcome.splits)
  then show ?thesis using sleep_ok_step [OF assms(1)] False by blast
qed

lemma sleep_ok_look:
  assumes "sleep_ok s" and "looks s t k"
  shows "sleep_ok (goto t k s)"
  by (rule sleep_ok_step [OF assms(1), where t = t and k = k])
    (use looks_simps [OF assms(2)] in auto)

definition awake_inv :: "feature \<Rightarrow> ('d, 'r, 'p) sys \<Rightarrow> bool" where
  "awake_inv cfg s \<longleftrightarrow> sleep_ok s \<and> (\<exists>g. inv cfg s g)"

lemma awake_inv_thread:
  assumes "awake_inv cfg s" and "thread_step cfg t s = Next s' es"
  shows "awake_inv cfg s'"
proof -
  obtain g where g: "sleep_ok s" "inv cfg s g" using assms(1) by (auto simp: awake_inv_def)
  then show ?thesis
    using sleep_ok_thread [OF g(1) assms(2) g(2)] thread_step_ok [OF g(2), of t] assms(2)
    by (auto simp: awake_inv_def step_ok_def)
qed

text \<open>An invariant of the state that the lock keeps, on top of the refinement.\<close>

definition along :: "feature \<Rightarrow> (('d, 'r, 'p) sys \<Rightarrow> bool) \<Rightarrow> ('d, 'r, 'p) sys \<times> hb \<times> history \<Rightarrow> bool" where
  "along cfg J x \<longleftrightarrow> (\<exists>a. weak_rel cfg x a) \<and> J (fst x)"

lemma along_inv: "along cfg J x \<Longrightarrow> \<exists>g. inv cfg (fst x) g"
  by (cases x) (auto simp: along_def weak_rel_def)

lemma alongI: "weak_rel cfg x a \<Longrightarrow> weak_step cfg x es x' \<Longrightarrow> J (fst x') \<Longrightarrow> along cfg J x'"
  unfolding along_def using weak_step_refines by blast

interpretation sleepers: invariant_system "weak_step cfg" "along cfg sleep_ok"
proof
  fix x x' :: "('d, 'r, 'p) sys \<times> hb \<times> history" and es
  assume a: "along cfg sleep_ok x" and st: "weak_step cfg x es x'"
  obtain b where b: "weak_rel cfg x b" "sleep_ok (fst x)" using a by (auto simp: along_def)
  obtain g where g: "inv cfg (fst x) g" using along_inv [OF a] by blast
  from b(1) st have "sleep_ok (fst x')"
  proof (cases rule: weak_step_cases)
    case (call t f)
    then show ?thesis
      using sleep_ok_step [OF b(2), where t = t and s' = "fst x'" and k = "TryRun f"] by simp
  next
    case (thread t)
    then show ?thesis by (rule sleep_ok_thread [OF b(2) _ g])
  next
    case (stale t k)
    then show ?thesis using sleep_ok_look [OF b(2)] by simp
  next
    case (spurious t)
    then show ?thesis using sleep_ok_wakeup b(2) by simp
  qed
  then show "along cfg sleep_ok x'" by (rule alongI [OF b(1) st])
qed

lemma along_init: "J (sys_init d) \<Longrightarrow> along cfg J (world_init d)"
  using weak_rel_init by (fastforce simp: along_def world_init_def)

lemma lock_runs_awake:
  assumes "lock_runs cfg d es s"
  shows "awake_inv cfg s"
proof -
  obtain h y where r: "lock_world cfg d es (s, h, y)" using assms by (auto simp: lock_runs_def)
  have "along cfg sleep_ok (s, h, y)"
    by (rule sleepers.runs_good [OF r along_init]) (simp add: sleep_ok_def sys_init_def)
  then show ?thesis using along_inv by (fastforce simp: along_def awake_inv_def)
qed

subsection \<open>Progress\<close>

lemma sleeping_role:
  assumes "awake_inv cfg s" and "\<forall>t. pcs s t = Idle \<or> pcs s t = FutexSleep"
    and "inv cfg s g"
  shows "gD g t = None" and "gL g \<noteq> Some t"
    and "pcs s t = FutexSleep \<Longrightarrow> t \<in> set (gq g) \<or> gO g t \<noteq> None"
proof -
  have L: "local cfg t (view_of s g t) (pcs s t)" by (rule inv_parts(5) [OF assms(3)])
  have w: "\<exists>nd. heap s t = Some nd \<and> futex nd = SLEEPING" if "pcs s t = FutexSleep" for t
    using assms(1,2) that unfolding awake_inv_def sleep_ok_def by (metis pc.distinct)
  have "gD g t = None \<and> gL g \<noteq> Some t \<and>
      (pcs s t = FutexSleep \<longrightarrow> t \<in> set (gq g) \<or> gO g t \<noteq> None)"
  proof (cases "pcs s t = Idle")
    case True
    with L show ?thesis by (simp add: idle_def calm_def)
  next
    case False
    then have "pcs s t = FutexSleep" using assms(2) by blast
    with L w [of t] show ?thesis by (auto simp: waits_def settled_def unsettled_def)
  qed
  then show "gD g t = None" "gL g \<noteq> Some t"
    "pcs s t = FutexSleep \<Longrightarrow> t \<in> set (gq g) \<or> gO g t \<noteq> None" by auto
qed

lemma all_asleep_idle:
  assumes "awake_inv cfg s" and "\<forall>t. pcs s t = Idle \<or> pcs s t = FutexSleep"
  shows "pcs s t = Idle"
proof (rule ccontr)
  assume "pcs s t \<noteq> Idle"
  then have t: "pcs s t = FutexSleep" using assms(2) by blast
  obtain g where g: "inv cfg s g" using assms(1) by (auto simp: awake_inv_def)
  note R = sleeping_role [OF assms g]
  have "gL g = None" using R(2) [of "the (gL g)"] by (cases "gL g") auto
  then have "gq g = []"
    using inv_parts(1) [OF g] by (auto simp: queue_inv_def)
  then obtain w b where "gO g t = Some (w, b)" using R(3) [OF t] by auto
  then show False using inv_parts(3) [OF g] R(1) [of w] by (auto simp: debt_inv_def)
qed

lemma blocked_iff:
  assumes "inv cfg s g"
  shows "thread_step cfg t s = Blocked \<longleftrightarrow> pcs s t = Idle \<or> pcs s t = FutexSleep"
proof
  assume "pcs s t = Idle \<or> pcs s t = FutexSleep"
  then show "thread_step cfg t s = Blocked" by (auto simp: thread_step_def)
next
  assume b: "thread_step cfg t s = Blocked"
  then show "pcs s t = Idle \<or> pcs s t = FutexSleep"
    unfolding thread_step_def
    by (cases "pcs s t")
      (auto simp: access_def wake_def split: option.splits if_splits prod.splits sum.splits
        bool.splits lock_poisoned.splits feature.splits outcome.splits)
qed

subsection \<open>Poisoning\<close>

definition no_exec :: "('d, 'r, 'p) event list \<Rightarrow> bool" where
  "no_exec es \<longleftrightarrow> (\<forall>e \<in> set es. case e of Exec t \<Rightarrow> False | _ \<Rightarrow> True)"

definition silent :: "('d, 'r, 'p) event list \<Rightarrow> unit \<Rightarrow> unit option" where
  "silent es a = (if no_exec es then Some () else None)"

definition poisoned_at :: "feature \<Rightarrow> 'd \<Rightarrow> ('d, 'r, 'p) sys \<times> hb \<times> history \<Rightarrow> unit \<Rightarrow> bool" where
  "poisoned_at cfg d x a \<longleftrightarrow> along cfg (\<lambda>s. status (raw s) = RAW_POISONED \<and> data s = d) x"

lemma poisoned_step:
  assumes "inv cfg s g" and "status (raw s) = RAW_POISONED" and "thread_step cfg t s = Next s' es"
  shows "status (raw s') = RAW_POISONED \<and> data s' = data s \<and> no_exec es"
proof -
  have "gH g \<noteq> Some t" using inv_parts(2) [OF assms(1)] assms(2) by (auto simp: lock_inv_def)
  then show ?thesis
    using assms(2,3) inv_parts(5) [OF assms(1), of t] unfolding thread_step_def
    by (cases "pcs s t")
      (auto simp: access_def wake_def no_exec_def futex_swap_def futex_cas_def raw_defs cancel_def
        split: option.splits if_splits)
qed

lemma no_exec_append: "no_exec (es @ fs) \<longleftrightarrow> no_exec es \<and> no_exec fs"
  by (auto simp: no_exec_def)

interpretation poisoned: refined_system "weak_step cfg" silent "poisoned_at cfg d"
proof
  show "silent [] a = Some a" for a by (simp add: silent_def no_exec_def)
  show "silent (es @ fs) a = Option.bind (silent es a) (silent fs)" for es fs a
    by (simp add: silent_def no_exec_append)
  fix x x' :: "('a, 'b, 'c) sys \<times> hb \<times> history" and a es
  assume p: "poisoned_at cfg d x a" and st: "weak_step cfg x es x'"
  then obtain b where b: "weak_rel cfg x b" "status (raw (fst x)) = RAW_POISONED" "data (fst x) = d"
    by (auto simp: poisoned_at_def along_def)
  obtain g where g: "inv cfg (fst x) g" using along_inv p unfolding poisoned_at_def by blast
  from b(1) st have "status (raw (fst x')) = RAW_POISONED \<and> data (fst x') = d \<and> no_exec es"
  proof (cases rule: weak_step_cases)
    case (thread t)
    then show ?thesis using poisoned_step [OF g b(2)] b(3) by simp
  qed (use b in \<open>auto simp: no_exec_def\<close>)
  then show "\<exists>a'. silent es a = Some a' \<and> poisoned_at cfg d x' a'"
    using alongI [OF b(1) st] by (simp add: silent_def poisoned_at_def)
qed

text \<open>Once the raw lock is poisoned no task runs any more.\<close>

lemma disabled_runs:
  assumes "lock_world cfg d es x" and "status (raw (fst x)) = RAW_POISONED"
    and "runs (weak_step cfg) x fs x'"
  shows "status (raw (fst x')) = RAW_POISONED \<and> data (fst x') = data (fst x) \<and> (\<forall>t. Exec t \<notin> set fs)"
proof -
  have "poisoned_at cfg (data (fst x)) x ()"
    using lock.runs_refine [OF assms(1) weak_rel_init] assms(2) by (auto simp: poisoned_at_def along_def)
  from poisoned.runs_refine [OF assms(3) this] obtain u where
    "silent fs () = Some u" "poisoned_at cfg (data (fst x)) x' u" by blast
  then show ?thesis
    by (fastforce simp: silent_def no_exec_def poisoned_at_def along_def split: if_splits)
qed

end
