(* ===== verification/Lam_Trace.thy ===== *)
theory Lam_Trace
  imports Lam_Safety "HOL-Library.Sublist"
begin

section \<open>Reading a trace of the lock\<close>

text \<open>
  Three readings of the events of a run, none of which mentions the lock: how often a thread's
  task ran, what the tasks do when executed one after another, and the order in which queued
  tasks leave the queue. Each is related to the specification by induction on the trace.
\<close>

lemma spec_run_snoc:
  "spec_run cfg (es @ [e]) a = Some b \<longleftrightarrow>
     (\<exists>c. spec_run cfg es a = Some c \<and> spec_step cfg e c = Some b)"
  by (simp add: spec_run_append bind_eq_Some_conv)

subsection \<open>Counting\<close>

definition calls :: "tid \<Rightarrow> ('d, 'r, 'p) event list \<Rightarrow> nat" where
  "calls t es = length (filter (\<lambda>e. case e of Call u f \<Rightarrow> u = t | _ \<Rightarrow> False) es)"

definition execs :: "tid \<Rightarrow> ('d, 'r, 'p) event list \<Rightarrow> nat" where
  "execs t es = length (filter (\<lambda>e. case e of Exec u \<Rightarrow> u = t | _ \<Rightarrow> False) es)"

definition rets :: "tid \<Rightarrow> ('d, 'r, 'p) event list \<Rightarrow> nat" where
  "rets t es = length (filter (\<lambda>e. case e of Ret u r \<Rightarrow> u = t | _ \<Rightarrow> False) es)"

lemma spec_counts:
  assumes "spec_run cfg es (spec_init d) = Some a"
  shows "calls t es = rets t es + (case phase a t of Quiet \<Rightarrow> 0 | _ \<Rightarrow> 1)"
    and "execs t es + (case phase a t of Pending f \<Rightarrow> 1 | _ \<Rightarrow> 0) \<le> calls t es"
    and "cfg = Std \<Longrightarrow> execs t es + (case phase a t of Pending f \<Rightarrow> 1 | _ \<Rightarrow> 0) = calls t es"
  using assms
proof (induction es arbitrary: a rule: rev_induct)
  case Nil
  { case 1 then show ?case by (auto simp: calls_def rets_def spec_init_def) }
  { case 2 then show ?case by (auto simp: calls_def execs_def spec_init_def) }
  { case 3 then show ?case by (auto simp: calls_def execs_def spec_init_def) }
next
  case (snoc e es)
  { case 1
    then obtain c where c: "spec_run cfg es (spec_init d) = Some c" "spec_step cfg e c = Some a"
      by (auto simp: spec_run_snoc)
    show ?case using snoc(1) [OF c(1)] c(2)
      by (cases e) (auto simp: calls_def rets_def split: phase.splits if_splits prod.splits) }
  { case 2
    then obtain c where c: "spec_run cfg es (spec_init d) = Some c" "spec_step cfg e c = Some a"
      by (auto simp: spec_run_snoc)
    show ?case using snoc(2) [OF c(1)] c(2)
      by (cases e) (auto simp: calls_def execs_def split: phase.splits if_splits prod.splits) }
  { case 3
    then obtain c where c: "spec_run cfg es (spec_init d) = Some c" "spec_step cfg e c = Some a"
      by (auto simp: spec_run_snoc)
    show ?case using snoc(3) [OF 3(1) c(1)] c(2) 3(1)
      by (cases e) (auto simp: calls_def execs_def split: phase.splits if_splits prod.splits) }
qed

subsection \<open>Sequential execution\<close>

text \<open>
  Run the tasks one at a time in the order of their \<open>Exec\<close> events, remember what each gave, and
  check every return against it.
\<close>

record ('d, 'r, 'p) rstate =
  rdata :: 'd
  rtask :: "tid \<Rightarrow> ('d, 'r, 'p) task option"
  rres :: "tid \<Rightarrow> ('r, 'p) ret option"

fun replay_step ::
    "('d, 'r, 'p) event \<Rightarrow> ('d, 'r, 'p) rstate \<Rightarrow> ('d, 'r, 'p) rstate option" where
  "replay_step (Call t f) x = Some (x\<lparr>rtask := (rtask x)(t := Some f)\<rparr>)"
| "replay_step (Exec t) x =
     (case rtask x t of
        None \<Rightarrow> None
      | Some f \<Rightarrow> (case f (rdata x) of (d, out) \<Rightarrow>
          Some (x\<lparr>rdata := d, rtask := (rtask x)(t := None), rres := (rres x)(t := Some (ret_of out))\<rparr>)))"
| "replay_step (Ret t ret) x =
     (if rres x t = Some ret then Some (x\<lparr>rres := (rres x)(t := None)\<rparr>) else None)"
| "replay_step (Enq t) x = Some x"
| "replay_step (Cancel t) x = None"

fun replay ::
    "('d, 'r, 'p) event list \<Rightarrow> ('d, 'r, 'p) rstate \<Rightarrow> ('d, 'r, 'p) rstate option" where
  "replay [] x = Some x"
| "replay (e # es) x = Option.bind (replay_step e x) (replay es)"

definition replay_init :: "'d \<Rightarrow> ('d, 'r, 'p) rstate" where
  "replay_init d = \<lparr>rdata = d, rtask = (\<lambda>_. None), rres = (\<lambda>_. None)\<rparr>"

lemma replay_snoc: "replay (es @ [e]) x = Option.bind (replay es x) (replay_step e)"
  by (induction es arbitrary: x) (auto split: bind_splits)

fun expects ::
    "('d, 'r, 'p) phase \<Rightarrow> ('d, 'r, 'p) task option \<Rightarrow> ('r, 'p) ret option \<Rightarrow> bool" where
  "expects Quiet f r \<longleftrightarrow> f = None \<and> r = None"
| "expects (Pending g) f r \<longleftrightarrow> f = Some g \<and> r = None"
| "expects (Finished out) f r \<longleftrightarrow> f = None \<and> r = Some (ret_of out)"

definition replays :: "('d, 'r, 'p) spec \<Rightarrow> ('d, 'r, 'p) rstate \<Rightarrow> bool" where
  "replays a x \<longleftrightarrow> rdata x = sdata a \<and> (\<forall>t. expects (phase a t) (rtask x t) (rres x t))"

lemma replay_step_ok:
  assumes "replays a x" and "spec_step Std e a = Some b"
  shows "\<exists>y. replay_step e x = Some y \<and> replays b y"
proof -
  have d: "rdata x = sdata a" and E: "\<And>t. expects (phase a t) (rtask x t) (rres x t)"
    using assms(1) by (auto simp: replays_def)
  show ?thesis
  proof (cases e)
    case (Call t f)
    then have "phase a t = Quiet" "b = a\<lparr>phase := (phase a)(t := Pending f)\<rparr>"
      using assms(2) by (auto split: phase.splits)
    with Call d E E [of t] show ?thesis by (simp add: replays_def)
  next
    case (Exec t)
    then obtain f where f: "phase a t = Pending f"
      using assms(2) by (auto split: phase.splits)
    obtain v out where v: "f (sdata a) = (v, out)" by fastforce
    have b: "sdata b = v" "phase b = (phase a)(t := Finished out)"
      using assms(2) Exec f v by (auto split: if_splits)
    show ?thesis using Exec b f v d E E [of t] by (simp add: replays_def)
  next
    case (Ret t r)
    then have r: "allowed Std (phase a t) r" "b = a\<lparr>phase := (phase a)(t := Quiet)\<rparr>"
      using assms(2) by (auto split: if_splits)
    then obtain out where "phase a t = Finished out" "r = ret_of out"
      by (cases "phase a t") auto
    with Ret d r(2) E E [of t] show ?thesis by (simp add: replays_def)
  next
    case (Enq t)
    with assms(2) d E show ?thesis by (auto simp: replays_def split: phase.splits if_splits)
  next
    case (Cancel t)
    with assms(2) show ?thesis by simp
  qed
qed

lemma spec_replay:
  assumes "spec_run Std es (spec_init d) = Some a"
  shows "\<exists>x. replay es (replay_init d) = Some x \<and> replays a x"
  using assms
proof (induction es arbitrary: a rule: rev_induct)
  case Nil
  then show ?case by (auto simp: replays_def replay_init_def spec_init_def)
next
  case (snoc e es)
  then obtain c x where "spec_step Std e c = Some a" "replay es (replay_init d) = Some x"
    "replays c x"
    by (fastforce simp: spec_run_snoc)
  then show ?case using replay_step_ok by (simp add: replay_snoc)
qed

subsection \<open>The order of the queue\<close>

fun joined :: "('d, 'r, 'p) event list \<Rightarrow> tid list" where
  "joined [] = []"
| "joined (Enq t # es) = t # joined es"
| "joined (e # es) = joined es"

text \<open>The queued tasks that have been run or cancelled, given those queued at the start.\<close>

fun leaves :: "('d, 'r, 'p) event \<Rightarrow> tid option" where
  "leaves (Exec t) = Some t"
| "leaves (Cancel t) = Some t"
| "leaves e = None"

fun served :: "tid list \<Rightarrow> ('d, 'r, 'p) event list \<Rightarrow> tid list" where
  "served w [] = []"
| "served w (Enq t # es) = served (w @ [t]) es"
| "served w (e # es) =
     (case leaves e of
        Some t \<Rightarrow> if t \<in> set w then t # served (remove1 t w) es else served w es
      | None \<Rightarrow> served w es)"

lemma spec_order:
  "spec_run cfg es a = Some b \<Longrightarrow> await a @ joined es = served (await a) es @ await b"
proof (induction es arbitrary: a)
  case Nil
  then show ?case by simp
next
  case (Cons e es)
  then obtain c where c: "spec_step cfg e a = Some c" "spec_run cfg es c = Some b"
    by (auto simp: bind_eq_Some_conv)
  note IH = Cons.IH [OF c(2)]
  show ?case
  proof (cases e)
    case (Enq t)
    with c(1) IH show ?thesis by (auto split: phase.splits if_splits)
  next
    case (Exec t)
    with c(1) IH show ?thesis
      by (cases "await a") (auto simp: remove1_idem split: phase.splits if_splits prod.splits)
  next
    case (Cancel t)
    with c(1) IH show ?thesis by (cases "await a") (auto split: if_splits)
  qed (use c(1) IH in \<open>auto split: phase.splits if_splits\<close>)
qed

end
