(* ===== verification/Lam_Rank.thy ===== *)
theory Lam_Rank
  imports Lam_Safety
begin

section \<open>How far a thread is from the end of its call\<close>

text \<open>
  A natural number for each thread, from its program counter and what it can already see: whether
  its futex word is answered, and which nodes have a successor. The numbers fall along every path
  through \<open>try_run\<close>. An answered waiter is below 100 and an unanswered one above 200, and the
  gap pays for the combiner, whose own number starts again with each node it goes on to.
\<close>

subsection \<open>Ranks\<close>

definition answered :: "('d, 'r, 'p) sys \<Rightarrow> tid \<Rightarrow> bool" where
  "answered s t \<longleftrightarrow>
     (case heap s t of None \<Rightarrow> False | Some nd \<Rightarrow> futex nd \<noteq> WAITING \<and> futex nd \<noteq> SLEEPING)"

text \<open>While a thread still works on its own node, it has all the others before it.\<close>

definition behind :: "tid \<Rightarrow> tid \<Rightarrow> nat" where
  "behind t c = (if c = t then 50 else 0)"

primrec rank :: "tid \<Rightarrow> bool \<Rightarrow> (tid \<Rightarrow> bool) \<Rightarrow> ('d, 'r, 'p) pc \<Rightarrow> nat" where
  "rank t b nx Idle = 0"
| "rank t b nx (TryRun f) = 314"
| "rank t b nx (TryAcquire f) = 313"
| "rank t b nx (SlowNew f) = 312"
| "rank t b nx SwapTail = 311"
| "rank t b nx (StoreNext p) = 310"
| "rank t b nx (Spin k) = (if b then 80 else 204 + (SPIN_LIMIT - k))"
| "rank t b nx WaitCas = (if b then 78 else 203)"
| "rank t b nx FutexCheck = (if b then 78 else 202)"
| "rank t b nx FutexWait = (if b then 79 else 201)"
| "rank t b nx FutexSleep = (if b then 80 else 200)"
| "rank t b nx WaitReload = 77"
| "rank t b nx (Dispatch w) = 76"
| "rank t b nx Acquire = 75"
| "rank t b nx AcquireSpin = 75"
| "rank t b nx (Execute c) = 23 + behind t c"
| "rank t b nx (Running c f) = 22 + behind t c"
| "rank t b nx (LoadNext c) = 21 + behind t c"
| "rank t b nx (WakeDone c n) = 20 + behind t c"
| "rank t b nx (TryClose c) = 19 + behind t c"
| "rank t b nx (HandLoad c) = 17 + behind t c"
| "rank t b nx (HandAssert c) = 17 + behind t c"
| "rank t b nx (HandHead c n) = 16 + behind t c"
| "rank t b nx (CloseDone c) = 10 + behind t c"
| "rank t b nx (HandDone c) = 9 + behind t c"
| "rank t b nx (BombPoison c fin) = 15 + behind t c"
| "rank t b nx (BombLoad c fin) = (if nx c then 11 else 14) + behind t c"
| "rank t b nx (BombClose c fin) = 13 + behind t c"
| "rank t b nx (BombSpin c fin) = 12 + behind t c"
| "rank t b nx (BombWake c n fin) = 10 + behind t c"
| "rank t b nx (BombLast c fin) = 9 + behind t c"
| "rank t b nx (WakeSyscall a k) = 6 + rank t b nx k"
| "rank t b nx (FastRun f) = 3"
| "rank t b nx Release = 3"
| "rank t b nx (FastUnlock ret) = 2"
| "rank t b nx AttachOk = 2"
| "rank t b nx AttachErr = 2"
| "rank t b nx (Unwinding p) = 2"
| "rank t b nx (Returning ret) = 1"

definition rank_of :: "('d, 'r, 'p) sys \<Rightarrow> tid \<Rightarrow> nat" where
  "rank_of s t = rank t (answered s t) (\<lambda>c. next_of s c \<noteq> None) (pcs s t)"

definition total :: "tid set \<Rightarrow> ('d, 'r, 'p) sys \<Rightarrow> nat" where
  "total A s = sum (rank_of s) A"

lemma rank_0_iff: "rank_of s t = 0 \<longleftrightarrow> pcs s t = Idle"
  by (cases "pcs s t") (auto simp: rank_of_def)

lemma rank_le:
  assumes "local cfg t v k"
  shows "rank t b nx k \<le> 314"
proof (cases "\<exists>a j. k = WakeSyscall a j")
  case True
  then obtain a j where "k = WakeSyscall a j" "continues j" using assms by auto
  then show ?thesis by (cases j) (simp_all add: behind_def)
next
  case False
  then show ?thesis by (cases k) (auto simp: behind_def SPIN_LIMIT_def)
qed

lemma total_le:
  assumes "inv cfg s g"
  shows "total A s \<le> 314 * card A"
proof -
  have "rank_of s t \<le> 314" for t
    unfolding rank_of_def by (rule rank_le [OF inv_parts(5) [OF assms]])
  then show ?thesis
    using sum_bounded_above [of A "rank_of s" 314] by (simp add: total_def mult.commute)
qed

lemma total_0_iff: "finite A \<Longrightarrow> total A s = 0 \<longleftrightarrow> (\<forall>t \<in> A. pcs s t = Idle)"
  by (simp add: total_def rank_0_iff)

lemma total_fall:
  fixes s s' :: "('d, 'r, 'p) sys"
  assumes "finite A" and "\<forall>u. u \<notin> A \<longrightarrow> pcs s u = Idle"
    and "\<forall>u. u \<noteq> t \<and> u \<noteq> c \<longrightarrow> rank_of s' u \<le> rank_of s u"
    and "if c = t then rank_of s' t < rank_of s t
      else rank_of s' t + rank_of s' c < rank_of s t + rank_of s c"
    and "t \<in> A"
  shows "total A s' < total A s"
proof -
  let ?B = "A - {t, c}"
  have B: "sum (rank_of s') ?B \<le> sum (rank_of s) ?B"
    using assms(3) by (intro sum_mono) auto
  have fin: "finite (A - {t})" using assms(1) by simp
  have split: "total A x = rank_of x t + (if c \<in> A \<and> c \<noteq> t then rank_of x c else 0) + sum (rank_of x) ?B"
    for x :: "('d, 'r, 'p) sys"
    using sum.remove [OF assms(1,5), of "rank_of x"] sum.remove [OF fin, of c "rank_of x"]
    by (cases "c \<in> A \<and> c \<noteq> t") (auto simp: total_def Diff_insert2 [symmetric] insert_commute intro!: sum.cong)
  have "c \<notin> A \<Longrightarrow> rank_of s c = 0" using assms(2) by (simp add: rank_0_iff)
  with assms(4,5) B show ?thesis unfolding split by (auto split: if_splits)
qed


subsection \<open>The other threads\<close>

lemma rank_mono:
  assumes "local cfg t v k" and "\<And>c. vld v \<Longrightarrow> c = vtop v \<Longrightarrow> nx c \<Longrightarrow> nx' c"
  shows "rank t b nx' k \<le> rank t b nx k"
  using assms by (induction k) (auto simp: bombing_def leads_def)

text \<open>What a step leaves of the threads that it does not wake.\<close>

definition untouched :: "('d, 'r, 'p) sys \<Rightarrow> ('d, 'r, 'p) sys \<Rightarrow> tid \<Rightarrow> bool" where
  "untouched s s' u \<longleftrightarrow>
     pcs s' u = pcs s u \<and> map_option futex (heap s' u) = map_option futex (heap s u)"

definition keeps_links ::
    "('d, 'r, 'p) ghost \<Rightarrow> ('d, 'r, 'p) sys \<Rightarrow> ('d, 'r, 'p) sys \<Rightarrow> bool" where
  "keeps_links g s s' \<longleftrightarrow> (\<forall>c \<in> set (gq g). next_of s c \<noteq> None \<longrightarrow> next_of s' c \<noteq> None)"

lemma answered_cong:
  "map_option futex (heap s' t) = map_option futex (heap s t) \<Longrightarrow> answered s' t = answered s t"
  by (cases "heap s t") (auto simp: answered_def)

lemma rank_untouched:
  assumes "inv cfg s g" and "untouched s s' u" and "keeps_links g s s'"
  shows "rank_of s' u \<le> rank_of s u"
proof -
  have "hd (gq g) \<in> set (gq g)" if "gL g = Some u"
    using inv_parts(1) [OF assms(1)] that by (auto simp: queue_inv_def)
  then have "rank u b (\<lambda>c. next_of s' c \<noteq> None) (pcs s u) \<le>
      rank u b (\<lambda>c. next_of s c \<noteq> None) (pcs s u)" for b
    by (intro rank_mono [OF inv_parts(5) [OF assms(1), of u]])
      (use assms(3) in \<open>auto simp: keeps_links_def\<close>)
  then show ?thesis
    using assms(2) answered_cong [of s' u s] by (simp add: rank_of_def untouched_def)
qed

text \<open>A step that is a thread's own affair.\<close>

definition own_fall ::
    "('d, 'r, 'p) ghost \<Rightarrow> tid \<Rightarrow> ('d, 'r, 'p) sys \<Rightarrow> ('d, 'r, 'p) sys \<Rightarrow> bool" where
  "own_fall g t s s' \<longleftrightarrow>
     (\<forall>u. u \<noteq> t \<longrightarrow> untouched s s' u) \<and> keeps_links g s s' \<and> rank_of s' t < rank_of s t"

lemma own_fall_total:
  assumes "inv cfg s g" and "own_fall g t s s'"
    and "finite A" and "\<forall>u. u \<notin> A \<longrightarrow> pcs s u = Idle" and "t \<in> A"
  shows "total A s' < total A s"
  using assms rank_untouched [OF assms(1)]
  by (intro total_fall [where t = t and c = t]) (auto simp: own_fall_def)

subsection \<open>A thread's own steps\<close>

lemma fall_enter:
  assumes "inv cfg s g" and "thread_step cfg t s = Next s' es"
    and "pcs s t \<in> {SwapTail, Release, AttachOk, AttachErr} \<or>
      (\<exists>f r p q. pcs s t \<in> {TryRun f, TryAcquire f, FastRun f, SlowNew f, FastUnlock r, StoreNext q,
        Unwinding p, Returning r})"
  shows "own_fall g t s s'"
  using inv_parts(5) [OF assms(1), of t] assms(2,3)
  by (auto simp: own_fall_def untouched_def keeps_links_def thread_step_def access_def rank_of_def
      store_next_def next_of_def node_new_def idle_def calm_def SPIN_LIMIT_def split: step_splits)

lemma fall_wait:
  assumes "inv cfg s g" and "thread_step cfg t s = Next s' es"
    and "pcs s t \<in> {WaitCas, FutexCheck, FutexWait, WaitReload} \<or>
      (\<exists>k w. pcs s t \<in> {Spin k, Dispatch w})"
  shows "own_fall g t s s'"
  using inv_parts(5) [OF assms(1), of t] assms(2,3)
  by (auto simp: own_fall_def untouched_def keeps_links_def thread_step_def access_def rank_of_def
      answered_def waits_def settled_def futex_cas_def behind_def next_of_def split: step_splits)

lemma fall_combine:
  assumes "inv cfg s g" and "thread_step cfg t s = Next s' es"
    and "\<exists>c f fin. pcs s t \<in> {Execute c, Running c f, LoadNext c, TryClose c, BombPoison c fin,
        BombLoad c fin, BombClose c fin}"
  shows "own_fall g t s s'"
  using inv_parts(5) [OF assms(1), of t] assms(2,3)
  by (auto simp: own_fall_def untouched_def keeps_links_def thread_step_def access_def rank_of_def
      next_of_def split: step_splits)

text \<open>The steps of the loops that wait for another thread, when they do not go round.\<close>

lemma fall_loop:
  assumes "inv cfg s g" and "thread_step cfg t s = Next s' es"
    and "pcs s t = Acquire \<and> status (raw s) \<noteq> LOCKED \<or>
      (\<exists>c fin. pcs s t \<in> {HandLoad c, BombSpin c fin} \<and> next_of s c \<noteq> None)"
  shows "own_fall g t s s'"
  using inv_parts(5) [OF assms(1), of t] inv_parts(2) [OF assms(1)] assms(2,3)
  by (auto simp: own_fall_def untouched_def keeps_links_def thread_step_def access_def rank_of_def
      next_of_def try_acquire_def lock_inv_def behind_def split: step_splits; cases cfg; simp)

subsection \<open>Waking another thread\<close>

lemma rank_dormant:
  assumes "local cfg t v k" and "dormant t v" and "\<forall>p. k \<noteq> StoreNext p"
  shows "200 \<le> rank t False nx k" and "rank t True nx' k \<le> 80"
    and "vN v = Some nd \<Longrightarrow> futex nd = WAITING \<or> futex nd = SLEEPING"
proof -
  have "200 \<le> rank t False nx k \<and> rank t True nx' k \<le> 80 \<and>
      (vN v = Some nd \<longrightarrow> futex nd = WAITING \<or> futex nd = SLEEPING)"
    using assms
  proof (induction k)
    case (WakeSyscall a k)
    then show ?case by (cases k) (auto simp: dormant_def role_defs split: if_splits)
  qed (auto simp: dormant_def role_defs split: if_splits)
  then show "200 \<le> rank t False nx k" "rank t True nx' k \<le> 80"
    "vN v = Some nd \<Longrightarrow> futex nd = WAITING \<or> futex nd = SLEEPING" by auto
qed

lemma fall_wake:
  assumes "inv cfg s g" and "wake t s c m fs k = Next s' es"
    and "m \<noteq> WAITING" and "m \<noteq> SLEEPING"
    and "c \<noteq> t \<Longrightarrow> dormant c (view_of s g c) \<and> (\<forall>p. pcs s c \<noteq> StoreNext p)"
    and "\<And>b b'. rank t b (\<lambda>c. next_of s c \<noteq> None) k + 6 <
      rank t b' (\<lambda>c. next_of s c \<noteq> None) (pcs s t) + (if c = t then 0 else 120)"
    and A: "finite A" "\<forall>u. u \<notin> A \<longrightarrow> pcs s u = Idle" "t \<in> A"
  shows "total A s' < total A s"
proof -
  obtain nd where nd: "heap s c = Some nd"
    using assms(2) by (auto simp: wake_def access_def split: option.splits)
  let ?k = "if futex nd = SLEEPING then WakeSyscall c k else k"
  have s': "s' = goto t ?k (put_node c (nd\<lparr>futex := m\<rparr>) s)"
    using assms(2) nd by (auto simp: wake_def access_def futex_swap_def)
  have nx: "next_of s' = next_of s" using nd by (auto simp: s' next_of_def)
  have pc: "pcs s' t = ?k" by (simp add: s')
  have own: "rank_of s' t < rank_of s t + (if c = t then 0 else 120)"
    using assms(6) [of "answered s' t" "answered s t"] by (auto simp: rank_of_def nx pc)
  have other: "rank_of s' u \<le> rank_of s u" if "u \<noteq> t" "u \<noteq> c" for u
    by (rule rank_untouched [OF assms(1)])
      (use that nd in \<open>auto simp: untouched_def keeps_links_def next_of_def s'\<close>)
  have woken: "rank_of s' c + 120 \<le> rank_of s c" if "c \<noteq> t"
  proof -
    note D = assms(5) [OF that]
    note R = rank_dormant [OF inv_parts(5) [OF assms(1), of c] conjunct1 [OF D] conjunct2 [OF D]]
    have "pcs s' c = pcs s c" "answered s' c" "\<not> answered s c"
      using that R(3) [of nd] nd assms(3,4) by (auto simp: answered_def s')
    then show ?thesis
      using R(1) [of "\<lambda>c. next_of s c \<noteq> None"] R(2) [of "\<lambda>c. next_of s c \<noteq> None"]
      by (simp add: rank_of_def nx)
  qed
  show ?thesis
    by (rule total_fall [OF A(1,2) _ _ A(3), where c = c])
      (use own other woken in \<open>auto split: if_splits\<close>)
qed

lemma fall_waker:
  assumes "inv cfg s g" and "thread_step cfg t s = Next s' es"
    and "\<exists>c n fin. pcs s t \<in> {WakeDone c n, HandHead c n, CloseDone c, HandDone c, BombWake c n fin,
      BombLast c fin}"
    and A: "finite A" "\<forall>u. u \<notin> A \<longrightarrow> pcs s u = Idle" "t \<in> A"
  shows "total A s' < total A s"
proof -
  note I = assms(1)
  note L = inv_parts(5) [OF I, of t]
  note W = fall_wake [OF I _ _ _ _ _ A]
  obtain c n fin where "pcs s t = WakeDone c n \<or> pcs s t = HandHead c n \<or> pcs s t = CloseDone c \<or>
      pcs s t = HandDone c \<or> pcs s t = BombWake c n fin \<or> pcs s t = BombLast c fin"
    using assms(3) by auto
  then show ?thesis
  proof (elim disjE)
    { assume p: "pcs s t = WakeDone c n"
      with L have "gL g = Some t" "hd (gq g) = c" "own cfg t (view_of s g t) c"
        "next_of s (hd (gq g)) = Some n" by (auto simp: leads_def)
      from p dormant_head [OF I this(1,2)] dormant_second(1) [OF I this(1,2,4,3)] assms(2)
      show ?thesis
        by (intro W [where c = c and m = DONE and k = "Execute n"])
          (auto simp: thread_step_def behind_def) }
    { assume p: "pcs s t = HandHead c n"
      with L have "gL g = Some t" "hd (gq g) = c" "own cfg t (view_of s g t) c"
        "next_of s (hd (gq g)) = Some n" by (auto simp: leads_def)
      from p dormant_second [OF I this(1,2,4,3)] assms(2) show ?thesis
        by (intro W [where c = n and m = HEAD and k = "HandDone c"])
          (auto simp: thread_step_def behind_def) }
    { assume p: "pcs s t = CloseDone c"
      with L have "gD g t = Some (c, True)" by (auto simp: owing_def)
      from p dormant_owed [OF I this] assms(2) show ?thesis
        by (intro W [where c = c and m = DONE and k = Release])
          (auto simp: thread_step_def behind_def) }
    { assume p: "pcs s t = HandDone c"
      with L have "gD g t = Some (c, True)" by (auto simp: owing_def)
      from p dormant_owed [OF I this] assms(2) show ?thesis
        by (intro W [where c = c and m = DONE and k = AttachOk])
          (auto simp: thread_step_def behind_def) }
    { assume p: "pcs s t = BombWake c n fin"
      with L have B: "gL g = Some t" "hd (gq g) = c" "next_of s (hd (gq g)) = Some n"
        "t \<in> set (gq g) \<longleftrightarrow> c = t" by (auto simp: bombing_def leads_def)
      have "n \<noteq> t"
        using leader_facts(7) [OF I B(1-3)] B(4) inv_parts(1) [OF I] by (auto simp: queue_inv_def)
      with p dormant_head [OF I B(1,2)] assms(2) show ?thesis
        by (intro W [where c = c and m = NODE_POISONED and k = "BombLoad n fin"])
          (auto simp: thread_step_def behind_def) }
    { assume p: "pcs s t = BombLast c fin"
      with L have "gD g t = Some (c, False)" by (auto simp: owing_def)
      from p dormant_owed [OF I this] assms(2) show ?thesis
        by (intro W [where c = c and m = NODE_POISONED and k = "bomb_end fin"])
          (cases fin; auto simp: thread_step_def behind_def)+ }
  qed
qed

lemma fall_syscall:
  assumes "inv cfg s g" and "thread_step cfg t s = Next s' es" and "pcs s t = WakeSyscall a k"
    and A: "finite A" "\<forall>u. u \<notin> A \<longrightarrow> pcs s u = Idle" "t \<in> A"
  shows "total A s' < total A s"
proof -
  have s': "s' = goto t k (if pcs s a = FutexSleep then goto a FutexCheck s else s)"
    using assms(2,3) by (simp add: thread_step_def)
  have h: "heap s' = heap s" "next_of s' = next_of s" by (simp_all add: s')
  have an: "answered s' u = answered s u" for u by (rule answered_cong) (simp add: h)
  have pc: "pcs s' t = k" by (simp add: s')
  have own: "rank_of s' t + 6 = rank_of s t"
    using assms(3) pc by (simp add: rank_of_def h an)
  have other: "rank_of s' u \<le> rank_of s u + (if u = a then 2 else 0)" if "u \<noteq> t" for u
  proof -
    have "pcs s' u = (if u = a \<and> pcs s a = FutexSleep then FutexCheck else pcs s u)"
      using that by (simp add: s')
    then show ?thesis by (simp add: rank_of_def an h)
  qed
  have "rank_of s' u \<le> rank_of s u" if "u \<noteq> t" "u \<noteq> a" for u
    using other [of u] that by simp
  then show ?thesis
    by (intro total_fall [OF A(1,2) _ _ A(3), where c = a])
      (use own other [of a] in auto)
qed

end
