(* ===== verification/Lam_Finish.thy ===== *)
theory Lam_Finish
  imports Lam_Rank
begin

section \<open>Every call ends under a fair scheduler\<close>

text \<open>
  A scheduler gives turns to threads. In a turn the thread takes its next step, or nothing happens
  because it sleeps or is in no call. Once every thread that is in a call has had enough turns,
  and nobody has called anew, all calls have returned.
\<close>

subsection \<open>Turns\<close>

definition turn ::
    "feature \<Rightarrow> tid \<Rightarrow> ('d, 'r, 'p) sys \<Rightarrow> ('d, 'r, 'p) event list \<times> ('d, 'r, 'p) sys" where
  "turn cfg t s = (case thread_step cfg t s of Next s' es \<Rightarrow> (es, s') | _ \<Rightarrow> ([], s))"

fun turns ::
    "feature \<Rightarrow> tid list \<Rightarrow> ('d, 'r, 'p) sys \<Rightarrow> ('d, 'r, 'p) event list \<times> ('d, 'r, 'p) sys" where
  "turns cfg [] s = ([], s)"
| "turns cfg (t # ts) s =
     (case turn cfg t s of (es, s') \<Rightarrow>
        (case turns cfg ts s' of (fs, s'') \<Rightarrow> (es @ fs, s'')))"

abbreviation after :: "feature \<Rightarrow> tid list \<Rightarrow> ('d, 'r, 'p) sys \<Rightarrow> ('d, 'r, 'p) sys" where
  "after cfg ts s \<equiv> snd (turns cfg ts s)"

lemma turn_cases:
  obtains (moves) es s' where "thread_step cfg t s = Next s' es" "turn cfg t s = (es, s')"
    | (stays) "turn cfg t s = ([], s)"
  by (cases "thread_step cfg t s") (auto simp: turn_def)

lemma after_Cons: "after cfg (t # ts) s = after cfg ts (snd (turn cfg t s))"
  by (simp split: prod.split)

lemma after_append: "after cfg (ts @ us) s = after cfg us (after cfg ts s)"
  by (induction ts arbitrary: s) (simp_all add: after_Cons del: turns.simps(2))

subsection \<open>The waiting loops\<close>

text \<open>
  Three loops wait for another thread and change nothing as they go round: the raw lock held by
  somebody else, the successor of the last node done, and the same in the bomb. States that differ
  only in where such a loop is are alike.
\<close>

fun loop_head :: "('d, 'r, 'p) pc \<Rightarrow> ('d, 'r, 'p) pc" where
  "loop_head AcquireSpin = Acquire"
| "loop_head (HandAssert c) = HandLoad c"
| "loop_head k = k"

definition alike :: "('d, 'r, 'p) sys \<Rightarrow> ('d, 'r, 'p) sys \<Rightarrow> bool" where
  "alike s s' \<longleftrightarrow> raw s' = raw s \<and> heap s' = heap s \<and>
     (\<forall>u. loop_head (pcs s' u) = loop_head (pcs s u))"

definition able :: "('d, 'r, 'p) sys \<Rightarrow> tid \<Rightarrow> bool" where
  "able s t \<longleftrightarrow>
     (case loop_head (pcs s t) of
        Idle \<Rightarrow> False
      | FutexSleep \<Rightarrow> False
      | Acquire \<Rightarrow> status (raw s) \<noteq> LOCKED
      | HandLoad c \<Rightarrow> next_of s c \<noteq> None
      | BombSpin c fin \<Rightarrow> next_of s c \<noteq> None
      | _ \<Rightarrow> True)"

definition eager :: "('d, 'r, 'p) sys \<Rightarrow> tid \<Rightarrow> bool" where
  "eager s t \<longleftrightarrow> able s t \<and> loop_head (pcs s t) = pcs s t"

lemma able_alike: "alike s s' \<Longrightarrow> able s' t = able s t"
proof -
  assume a: "alike s s'"
  then have "next_of s' = next_of s" by (auto simp: alike_def next_of_def)
  with a show ?thesis by (simp add: alike_def able_def cong: pc.case_cong)
qed

lemma alike_goto: "loop_head k = loop_head (pcs s t) \<Longrightarrow> alike s (goto t k s)"
  by (simp add: alike_def)

lemma total_alike: "alike s s' \<Longrightarrow> total A s' = total A s"
proof -
  assume a: "alike s s'"
  have "rank t b nx (loop_head k) = rank t b nx k" for t b nx and k :: "('a, 'b, 'c) pc"
    by (cases k) simp_all
  then have "rank t b nx (pcs s' t) = rank t b nx (pcs s t)" for t b nx
    using a unfolding alike_def by metis
  moreover have "next_of s' = next_of s" "answered s' = answered s"
    using a by (auto simp: alike_def next_of_def answered_def)
  ultimately show ?thesis by (simp add: total_def rank_of_def)
qed

text \<open>A turn that brings nobody nearer to the end.\<close>

definition idles :: "tid \<Rightarrow> ('d, 'r, 'p) sys \<Rightarrow> ('d, 'r, 'p) sys \<Rightarrow> bool" where
  "idles t s s' \<longleftrightarrow> alike s s' \<and> (\<forall>u. u \<noteq> t \<longrightarrow> pcs s' u = pcs s u) \<and> \<not> eager s t \<and>
     (able s t \<longrightarrow> eager s' t)"

lemma step_idles:
  assumes "inv cfg s g" and "thread_step cfg t s = Next s' es"
    and "pcs s t \<in> {Acquire, AcquireSpin} \<or> (\<exists>c fin. pcs s t \<in> {HandLoad c, HandAssert c, BombSpin c fin})"
    and "\<not> (pcs s t = Acquire \<and> status (raw s) \<noteq> LOCKED \<or>
      (\<exists>c fin. pcs s t \<in> {HandLoad c, BombSpin c fin} \<and> next_of s c \<noteq> None))"
  shows "idles t s s'"
proof -
  let ?k = "pcs s' t"
  have k: "s' = goto t ?k s \<and> loop_head ?k = loop_head (pcs s t) \<and> \<not> eager s t \<and>
      (able s t \<longrightarrow> loop_head ?k = ?k)"
    using inv_parts(5) [OF assms(1), of t] assms(2-4)
    by (auto simp: eager_def able_def thread_step_def access_def try_acquire_def
        next_of_def split: step_splits)
  then have "alike s s'" using alike_goto by metis
  moreover have "pcs s' u = pcs s u" if "u \<noteq> t" for u
    using arg_cong [OF conjunct1 [OF k], of pcs] that by (metis fun_upd_other state_simps(4))
  ultimately show ?thesis using k able_alike [of s s' t] by (auto simp: idles_def eager_def)
qed

lemma turn_falls:
  assumes "inv cfg s g" and A: "finite A" "\<forall>u. u \<notin> A \<longrightarrow> pcs s u = Idle"
  shows "total A (snd (turn cfg t s)) < total A s \<or> idles t s (snd (turn cfg t s))"
proof (cases "pcs s t = Idle \<or> pcs s t = FutexSleep")
  case True
  then have "turn cfg t s = ([], s)" by (auto simp: turn_def thread_step_def)
  moreover have "idles t s s" using True by (auto simp: idles_def alike_def eager_def able_def)
  ultimately show ?thesis by simp
next
  case False
  then have t: "t \<in> A" using A(2) by blast
  obtain s' es where n: "thread_step cfg t s = Next s' es"
    using thread_step_ok [OF assms(1), of t] blocked_iff [OF assms(1), of t] False
    by (cases "thread_step cfg t s") (auto simp: step_ok_def)
  then have s': "snd (turn cfg t s) = s'" by (simp add: turn_def)
  note F = own_fall_total [OF assms(1) _ A t]
  note fall_waker [OF assms(1) n _ A t] fall_syscall [OF assms(1) n _ A t]
    fall_enter [OF assms(1) n, THEN F] fall_wait [OF assms(1) n, THEN F]
    fall_combine [OF assms(1) n, THEN F] fall_loop [OF assms(1) n, THEN F]
    step_idles [OF assms(1) n]
  then show ?thesis unfolding s' using False by (cases "pcs s t") blast+
qed

subsection \<open>When nobody is able to move\<close>

text \<open>A thread that waits for the successor of the last node done knows that there is one: the
  tail is another node.\<close>

definition tail_ok :: "('d, 'r, 'p) sys \<Rightarrow> bool" where
  "tail_ok s \<longleftrightarrow> (\<forall>t c. awaits (pcs s t) = Some c \<longrightarrow> tail (raw s) \<noteq> Some c)"

definition sound :: "feature \<Rightarrow> ('d, 'r, 'p) sys \<Rightarrow> bool" where
  "sound cfg s \<longleftrightarrow> awake_inv cfg s \<and> tail_ok s"

lemma awaits_head:
  assumes "inv cfg s g" and "awaits (pcs s t) = Some c"
  shows "gL g = Some t" and "gq g = c # List.tl (gq g)" and "c \<in> set (gq g)"
proof -
  show "gL g = Some t"
    using inv_parts(5) [OF assms(1), of t] assms(2)
    by (cases "pcs s t") (auto simp: leads_def bombing_def)
  moreover have "hd (gq g) = c"
    using inv_parts(5) [OF assms(1), of t] assms(2)
    by (cases "pcs s t") (auto simp: leads_def bombing_def)
  ultimately show q: "gq g = c # List.tl (gq g)" by (rule leader_facts(1) [OF assms(1)])
  show "c \<in> set (gq g)" by (subst q) simp
qed

text \<open>The tail of another thread's step: a thread that joins is not the one waited for.\<close>

lemma thread_step_other:
  assumes "thread_step cfg t s = Next s' es" and "u \<noteq> t"
  shows "pcs s' u = pcs s u \<or> pcs s' u = FutexCheck"
  using assms unfolding thread_step_def
  by (cases "pcs s t")
    (auto simp: access_def wake_def futex_swap_def futex_cas_def split: step_splits)

lemma thread_step_awaits:
  fixes s :: "('d, 'r, 'p) sys"
  assumes "local cfg t v (pcs s t)" and "thread_step cfg t s = Next s' es"
    and "awaits (pcs s' t) = Some c"
  shows "pcs s t \<noteq> SwapTail \<and> (awaits (pcs s t) = Some c \<or> tail (raw s) \<noteq> Some c)"
proof -
  have [simp]: "awaits (bomb_end fin) = None" for fin
    by (cases fin) simp_all
  have [simp]: "continues k \<Longrightarrow> awaits k = None" for k :: "('d, 'r, 'p) pc"
    by (cases k) simp_all
  show ?thesis
    using assms unfolding thread_step_def
    by (cases "pcs s t")
      (auto simp: access_def wake_def futex_swap_def futex_cas_def raw_defs
        split: step_splits)
qed

lemma tail_ok_thread:
  assumes "inv cfg s g" and "tail_ok s" and "thread_step cfg t s = Next s' es"
  shows "tail_ok s'"
  unfolding tail_ok_def
proof (intro allI impI notI)
  fix u c
  assume u: "awaits (pcs s' u) = Some c" and c: "tail (raw s') = Some c"
  have "awaits (pcs s u) = Some c \<or> tail (raw s) \<noteq> Some c \<and> pcs s t \<noteq> SwapTail"
  proof (cases "u = t")
    case True
    then show ?thesis
      using thread_step_awaits [OF inv_parts(5) [OF assms(1), of t] assms(3)] u by blast
  next
    case False
    then show ?thesis using thread_step_other [OF assms(3), of u] u by auto
  qed
  moreover have "tail (raw s') = tail (raw s) \<or> tail (raw s') = None \<or>
      pcs s t = SwapTail \<and> tail (raw s') = Some t"
    using assms(3) unfolding thread_step_def
    by (cases "pcs s t")
      (auto simp: access_def wake_def futex_swap_def futex_cas_def raw_defs split: step_splits)
  then have "tail (raw s) = Some c \<or> pcs s t = SwapTail \<and> t = c" unfolding c by force
  ultimately have a: "awaits (pcs s u) = Some c" and "pcs s t = SwapTail" and "t = c"
    using assms(2) unfolding tail_ok_def by blast+
  then have "idle (view_of s g c)" using inv_parts(5) [OF assms(1), of t] by simp
  then show False using awaits_head(3) [OF assms(1) a] by (simp add: idle_def calm_def)
qed

lemma sound_thread:
  assumes "sound cfg s" and "thread_step cfg t s = Next s' es"
  shows "sound cfg s'"
proof -
  obtain g where "inv cfg s g" using assms(1) by (auto simp: sound_def awake_inv_def)
  then show ?thesis
    using assms awake_inv_thread tail_ok_thread unfolding sound_def by blast
qed

interpretation tails: invariant_system "weak_step cfg" "along cfg tail_ok"
proof
  fix x x' :: "('d, 'r, 'p) sys \<times> hb \<times> history" and es
  assume a: "along cfg tail_ok x" and st: "weak_step cfg x es x'"
  obtain b where b: "weak_rel cfg x b" "tail_ok (fst x)" using a by (auto simp: along_def)
  obtain g where g: "inv cfg (fst x) g" using along_inv [OF a] by blast
  from b(1) st have "tail_ok (fst x')"
  proof (cases rule: weak_step_cases)
    case (thread t)
    then show ?thesis by (rule tail_ok_thread [OF g b(2)])
  next
    case (stale t k)
    then show ?thesis using looks_simps(4) [OF stale(1)] b(2) by (auto simp: tail_ok_def)
  qed (use b(2) in \<open>auto simp: tail_ok_def\<close>)
  then show "along cfg tail_ok x'" by (rule alongI [OF b(1) st])
qed

lemma lock_runs_sound:
  assumes "lock_runs cfg d es s"
  shows "sound cfg s"
proof -
  obtain h y where r: "lock_world cfg d es (s, h, y)" using assms by (auto simp: lock_runs_def)
  have "along cfg tail_ok (s, h, y)"
    by (rule tails.runs_good [OF r along_init]) (simp add: tail_ok_def sys_init_def)
  then show ?thesis using lock_runs_awake [OF assms] by (simp add: along_def sound_def)
qed

lemma able_linking:
  assumes "inv cfg s g" and "tail_ok s" and "awaits (pcs s t) = Some c" and "next_of s c = None"
  shows "\<exists>u. able s u"
proof -
  note Q = inv_parts(1) [OF assms(1), unfolded queue_inv_def]
  note H = awaits_head [OF assms(1,3)]
  obtain q where q: "gq g = c # q" using H(2) by blast
  have "tail (raw s) \<noteq> Some c" using assms(2,3) by (auto simp: tail_ok_def)
  then have "last (c # q) \<noteq> c" using Q q by auto
  then obtain y ys where "q = y # ys" by (cases q) auto
  then have "linking s y = Some c" using Q q assms(4) by auto
  then have "pcs s y = StoreNext c" by (auto simp: linking_def split: pc.splits)
  then have "able s y" by (simp add: able_def)
  then show ?thesis by blast
qed

lemma unable_idle:
  assumes "sound cfg s" and none: "\<And>u. \<not> able s u"
  shows "pcs s t = Idle"
proof -
  obtain g where g: "inv cfg s g" using assms(1) by (auto simp: sound_def awake_inv_def)
  note L = inv_parts(5) [OF g]
  have loop: "awaits (pcs s u) = None" for u
    using able_linking [OF g, of u] none [of u] none assms(1)
    by (cases "pcs s u") (auto simp: able_def sound_def)
  have pc: "pcs s u = Idle \<or> pcs s u = FutexSleep \<or>
      (pcs s u = Acquire \<or> pcs s u = AcquireSpin) \<and> status (raw s) = LOCKED" for u
    using none [of u] loop [of u] by (cases "pcs s u") (auto simp: able_def)
  have asleep: "\<exists>nd. heap s u = Some nd \<and> futex nd = SLEEPING" if "pcs s u = FutexSleep" for u
  proof -
    have "pcs s v \<noteq> WakeSyscall a k" for v a k using none [of v] by (auto simp: able_def)
    then show ?thesis using assms(1) that unfolding sound_def awake_inv_def sleep_ok_def by blast
  qed
  have "gH g \<noteq> Some u" for u
    using pc [of u] L [of u] asleep [of u] by (auto simp: idle_def waits_def settled_def unsettled_def)
  then have "status (raw s) \<noteq> LOCKED"
    using inv_parts(2) [OF g] by (cases "gH g") (auto simp: lock_inv_def)
  then have "\<forall>u. pcs s u = Idle \<or> pcs s u = FutexSleep" using pc by blast
  with assms(1) show ?thesis by (intro all_asleep_idle) (auto simp: sound_def)
qed

subsection \<open>Rounds\<close>

text \<open>A stretch of turns brings the total down, or the threads that had a turn were not ready to
  move before it; those that were able to are ready after it.\<close>

definition stalls :: "tid list \<Rightarrow> ('d, 'r, 'p) sys \<Rightarrow> ('d, 'r, 'p) sys \<Rightarrow> bool" where
  "stalls ts s s' \<longleftrightarrow> alike s s' \<and> (\<forall>u. eager s u \<longrightarrow> eager s' u) \<and>
     (\<forall>t \<in> set ts. \<not> eager s t \<and> (able s t \<longrightarrow> eager s' t))"

lemma stalls_Cons:
  assumes "idles t s s1" and "stalls ts s1 s2"
  shows "stalls (t # ts) s s2"
proof -
  have a: "alike s s1" "\<not> eager s t" "able s t \<longrightarrow> eager s1 t"
    "u \<noteq> t \<Longrightarrow> pcs s1 u = pcs s u" for u
    using assms(1) by (auto simp: idles_def)
  have e: "eager s1 u" if "eager s u" for u
    using that a(2) a(4) [of u] able_alike [OF a(1), of u] by (cases "u = t") (auto simp: eager_def)
  have "alike s s2" using a(1) assms(2) by (auto simp: alike_def stalls_def)
  moreover have "able s1 u = able s u" for u by (rule able_alike [OF a(1)])
  ultimately show ?thesis using a(2,3) e assms(2) by (auto simp: stalls_def)
qed

lemma turn_sound:
  assumes "sound cfg s"
  shows "sound cfg (snd (turn cfg t s))"
  by (cases rule: turn_cases [of cfg t s])
    (use assms sound_thread [OF assms] in auto)

lemma idle_stays:
  assumes "thread_step cfg t s = Next s' es" and "pcs s u = Idle"
  shows "pcs s' u = Idle"
proof -
  have "u \<noteq> t" using assms by (auto simp: thread_step_def)
  then show ?thesis
    using assms unfolding thread_step_def
    by (cases "pcs s t")
      (auto simp: access_def wake_def futex_swap_def futex_cas_def split: step_splits)
qed

lemma turn_members:
  "\<forall>u. u \<notin> A \<longrightarrow> pcs s u = Idle \<Longrightarrow> \<forall>u. u \<notin> A \<longrightarrow> pcs (snd (turn cfg t s)) u = Idle"
  by (cases rule: turn_cases [of cfg t s]) (auto intro: idle_stays)

lemma turns_fall:
  assumes "sound cfg s" and "finite A" and "\<forall>u. u \<notin> A \<longrightarrow> pcs s u = Idle"
  shows "total A (after cfg ts s) < total A s \<or>
    total A (after cfg ts s) = total A s \<and> stalls ts s (after cfg ts s)"
  using assms(1,3)
proof (induction ts arbitrary: s)
  case Nil
  then show ?case by (simp add: stalls_def alike_def)
next
  case (Cons t ts)
  let ?s = "snd (turn cfg t s)"
  obtain g where "inv cfg s g" using Cons.prems(1) by (auto simp: sound_def awake_inv_def)
  then have "total A ?s < total A s \<or> idles t s ?s" by (rule turn_falls [OF _ assms(2) Cons.prems(2)])
  moreover have "total A (after cfg ts ?s) < total A ?s \<or>
      total A (after cfg ts ?s) = total A ?s \<and> stalls ts ?s (after cfg ts ?s)"
    by (rule Cons.IH [OF turn_sound [OF Cons.prems(1)] turn_members [OF Cons.prems(2)]])
  moreover have "total A ?s = total A s" if "idles t s ?s"
    using that by (intro total_alike) (simp add: idles_def)
  ultimately show ?case unfolding after_Cons by (auto intro: stalls_Cons)
qed

lemma turns_sound: "sound cfg s \<Longrightarrow> sound cfg (after cfg ts s)"
  by (induction ts arbitrary: s) (simp_all add: after_Cons turn_sound del: turns.simps(2))

lemma turns_members:
  "\<forall>u. u \<notin> A \<longrightarrow> pcs s u = Idle \<Longrightarrow> \<forall>u. u \<notin> A \<longrightarrow> pcs (after cfg ts s) u = Idle"
  by (induction ts arbitrary: s) (simp_all add: after_Cons turn_members del: turns.simps(2))

text \<open>Two rounds in which all threads of a call have a turn bring the total down.\<close>

lemma two_rounds_fall:
  assumes "sound cfg s" and "finite A" and "\<forall>u. u \<notin> A \<longrightarrow> pcs s u = Idle"
    and "A \<subseteq> set ts" and "A \<subseteq> set us" and "pcs s t \<noteq> Idle"
  shows "total A (after cfg us (after cfg ts s)) < total A s"
proof (rule ccontr)
  let ?s = "after cfg ts s"
  note F = turns_fall [OF assms(1-3), of ts]
    turns_fall [OF turns_sound [OF assms(1), of ts] assms(2) turns_members [OF assms(3), of cfg ts], of us]
  assume "\<not> total A (after cfg us ?s) < total A s"
  then have st: "stalls ts s ?s" "stalls us ?s (after cfg us ?s)" using F by auto
  obtain u where u: "able s u" using unable_idle [OF assms(1)] assms(6) by blast
  then have "pcs s u \<noteq> Idle" by (auto simp: able_def)
  then have "u \<in> A" using assms(3) by blast
  then have "eager ?s u" "\<not> eager ?s u" using st u assms(4,5) by (auto simp: stalls_def)
  then show False by simp
qed

lemma rounds_finish:
  assumes "sound cfg s" and "finite A" and "\<forall>u. u \<notin> A \<longrightarrow> pcs s u = Idle"
    and "\<forall>r \<in> set rounds. A \<subseteq> set r" and "2 * total A s \<le> length rounds"
  shows "pcs (after cfg (concat rounds) s) t = Idle"
  using assms(1,3-5)
proof (induction "total A s" arbitrary: s rounds rule: less_induct)
  case less
  show ?case
  proof (cases "\<exists>u. pcs s u \<noteq> Idle")
    case False
    then have "turn cfg u s = ([], s)" for u by (auto simp: turn_def thread_step_def)
    then have "after cfg ts s = s" for ts by (induction ts) (simp_all add: after_Cons del: turns.simps(2))
    with False show ?thesis by simp
  next
    case True
    then obtain u where u: "pcs s u \<noteq> Idle" by blast
    then have "total A s \<noteq> 0" using total_0_iff [OF assms(2), of s] less.prems(2) by blast
    then have "2 \<le> length rounds" using less.prems(4) by simp
    then obtain p q rs where r: "rounds = p # q # rs" by (cases rounds; cases "List.tl rounds") auto
    let ?s = "after cfg q (after cfg p s)"
    have f: "total A ?s < total A s"
      using two_rounds_fall [OF less.prems(1) assms(2) less.prems(2) _ _ u] less.prems(3) r by simp
    note k = turns_sound [OF turns_sound [OF less.prems(1)]]
      turns_members [OF turns_members [OF less.prems(2)]]
    have "pcs (after cfg (concat rs) ?s) t = Idle"
      by (rule less.hyps [OF f k]) (use less.prems(3,4) r f in auto)
    then show ?thesis by (simp add: r after_append)
  qed
qed

subsection \<open>Finitely many threads are in a call\<close>

interpretation members: invariant_system "weak_step cfg" "along cfg (\<lambda>s. finite {t. pcs s t \<noteq> Idle})"
proof
  fix x x' :: "('d, 'r, 'p) sys \<times> hb \<times> history" and es
  assume a: "along cfg (\<lambda>s. finite {t. pcs s t \<noteq> Idle}) x" and st: "weak_step cfg x es x'"
  obtain b where b: "weak_rel cfg x b" "finite {t. pcs (fst x) t \<noteq> Idle}"
    using a by (auto simp: along_def)
  from b(1) st have "\<exists>t. {u. pcs (fst x') u \<noteq> Idle} \<subseteq> insert t {u. pcs (fst x) u \<noteq> Idle}"
  proof (cases rule: weak_step_cases)
    case (thread t)
    then show ?thesis by (intro exI [of _ t]) (auto dest: idle_stays)
  qed (auto split: if_splits)
  then have "finite {t. pcs (fst x') t \<noteq> Idle}" using b(2) by (meson finite.insertI finite_subset)
  then show "along cfg (\<lambda>s. finite {t. pcs s t \<noteq> Idle}) x'" by (rule alongI [OF b(1) st])
qed

lemma active_finite:
  assumes "lock_runs cfg d es s"
  shows "finite {t. pcs s t \<noteq> Idle}"
proof -
  obtain h y where r: "lock_world cfg d es (s, h, y)" using assms by (auto simp: lock_runs_def)
  have "along cfg (\<lambda>s. finite {t. pcs s t \<noteq> Idle}) (s, h, y)"
    by (rule members.runs_good [OF r along_init]) (simp add: sys_init_def)
  then show ?thesis by (simp add: along_def)
qed

lemma fair_finish:
  assumes "lock_runs cfg d es s" and "\<forall>r \<in> set rounds. {t. pcs s t \<noteq> Idle} \<subseteq> set r"
    and "628 * card {t. pcs s t \<noteq> Idle} \<le> length rounds"
  shows "pcs (after cfg (concat rounds) s) t = Idle"
proof -
  obtain g where g: "inv cfg s g" using lock_runs_inv [OF assms(1)] by blast
  show ?thesis
    by (rule rounds_finish [OF lock_runs_sound [OF assms(1)] active_finite [OF assms(1)] _ assms(2)])
      (use total_le [OF g, of "{t. pcs s t \<noteq> Idle}"] assms(3) in auto)
qed

end
