(* ===== verification/Lam_Fair.thy ===== *)
theory Lam_Fair
  imports Lam_Finish
begin

section \<open>Every call ends when stale loads do\<close>

text \<open>
  The C11 memory model asks that a write becomes visible to every thread in finite time: a thread
  that goes on loading does not find the earlier value for ever. So a fair schedule has finitely many
  turns in which a load is stale, and how many rounds it takes depends on that number.
\<close>

datatype weak_turn = Latest tid | Stale tid loc nat

fun turn_of :: "weak_turn \<Rightarrow> tid" where
  "turn_of (Latest t) = t"
| "turn_of (Stale t l i) = t"

fun is_stale :: "weak_turn \<Rightarrow> bool" where
  "is_stale (Latest t) = False"
| "is_stale (Stale t l i) = True"

definition stale_turns :: "weak_turn list \<Rightarrow> nat" where
  "stale_turns us = length (filter is_stale us)"

text \<open>In a stale turn the thread makes no other step; it makes none at all if it may not find that value.\<close>

fun take_turn ::
    "feature \<Rightarrow> weak_turn \<Rightarrow> ('d, 'r, 'p) sys \<times> hb \<times> history \<Rightarrow>
     ('d, 'r, 'p) event list \<times> ('d, 'r, 'p) sys \<times> hb \<times> history" where
  "take_turn cfg (Latest t) (s, h, y) =
     (case thread_step cfg t s of
        Next s' es \<Rightarrow>
          (let as = accesses cfg t s (pcs s t) in (es, s', do_accesses t as h, keep_accesses t as s h y))
      | _ \<Rightarrow> ([], s, h, y))"
| "take_turn cfg (Stale t l i) (s, h, y) =
     (case stale_step cfg t l i (s, h, y) of
        Next s0 es \<Rightarrow> (es, s\<lparr>pcs := pcs s0\<rparr>, do_access t (Load l Relaxed) h, has_read t l i y)
      | _ \<Rightarrow> ([], s, h, y))"

fun take_turns ::
    "feature \<Rightarrow> weak_turn list \<Rightarrow> ('d, 'r, 'p) sys \<times> hb \<times> history \<Rightarrow>
     ('d, 'r, 'p) event list \<times> ('d, 'r, 'p) sys \<times> hb \<times> history" where
  "take_turns cfg [] x = ([], x)"
| "take_turns cfg (u # us) x =
     (case take_turn cfg u x of (es, x') \<Rightarrow>
        (case take_turns cfg us x' of (fs, x'') \<Rightarrow> (es @ fs, x'')))"

lemma take_turn_runs: "take_turn cfg u x = (es, x') \<Longrightarrow> runs (weak_step cfg) x es x'"
proof -
  assume t: "take_turn cfg u x = (es, x')"
  obtain s h y where x: "x = (s, h, y)" by (cases x)
  show ?thesis
  proof (cases "es = [] \<and> x' = x")
    case True
    then show ?thesis by (auto intro: runs.start)
  next
    case False
    then have "weak_step cfg x es x'"
      using t unfolding x
      by (cases u) (auto simp: Let_def simp del: do_access.simps
          intro: weak_step.thread weak_step.stale split: step_result.splits)
    then show ?thesis by (rule runs_one)
  qed
qed

lemma take_turns_runs: "take_turns cfg us x = (es, x') \<Longrightarrow> runs (weak_step cfg) x es x'"
proof (induction us arbitrary: x es)
  case Nil
  then show ?case by (auto intro: runs.start)
next
  case (Cons u us)
  obtain fs x1 gs where m: "take_turn cfg u x = (fs, x1)" "take_turns cfg us x1 = (gs, x')" "es = fs @ gs"
    using Cons.prems by (auto split: prod.splits)
  show ?case using runs_trans [OF Cons.IH [OF m(2)] take_turn_runs [OF m(1)]] m(3) by simp
qed

lemma take_turns_append:
  "snd (take_turns cfg (us @ vs) x) = snd (take_turns cfg vs (snd (take_turns cfg us x)))"
  by (induction us arbitrary: x) (simp_all add: case_prod_beta)

lemma take_turns_latest:
  "\<forall>u \<in> set us. \<not> is_stale u \<Longrightarrow>
     fst (snd (take_turns cfg us x)) = after cfg (map turn_of us) (fst x)"
proof (induction us arbitrary: x)
  case (Cons u us)
  obtain s h y where x: "x = (s, h, y)" by (cases x)
  obtain t where u: "u = Latest t" using Cons.prems by (cases u) auto
  have "fst (snd (take_turn cfg u x)) = snd (turn cfg t s)"
    by (simp add: u x turn_def Let_def split: step_result.splits)
  then show ?case
    using Cons.IH [of "snd (take_turn cfg u x)"] Cons.prems u x
    by (simp add: after_Cons case_prod_beta del: turns.simps(2))
qed simp

subsection \<open>A thread outside a call stays outside\<close>

lemma take_turn_idle:
  assumes "pcs (fst x) t = Idle"
  shows "pcs (fst (snd (take_turn cfg u x))) t = Idle"
proof -
  obtain s h y where x: "x = (s, h, y)" by (cases x)
  have s: "pcs s t = Idle" using assms x by simp
  show ?thesis
  proof (cases u)
    case (Latest v)
    then show ?thesis using s idle_stays [of cfg v s _ _ t] by (auto simp: x Let_def split: step_result.split)
  next
    case (Stale v l i)
    have "pcs s0 t = Idle" if "stale_step cfg v l i (s, h, y) = Next s0 es" for s0 es
    proof -
      have "thread_step cfg v (with_value l (fst (past y l ! i)) s) = Next s0 es"
        using that by (simp add: stale_step_def Let_def split: if_splits)
      then show ?thesis by (rule idle_stays) (simp add: s)
    qed
    then show ?thesis using s by (auto simp: Stale x split: step_result.split)
  qed
qed

lemma take_turns_idle:
  "pcs (fst x) t = Idle \<Longrightarrow> pcs (fst (snd (take_turns cfg us x))) t = Idle"
proof (induction us arbitrary: x)
  case (Cons u us)
  show ?case
    using Cons.IH [of "snd (take_turn cfg u x)"] take_turn_idle [OF Cons.prems, of cfg u]
    by (simp add: case_prod_beta)
qed simp

subsection \<open>Rounds\<close>

lemma weak_finish:
  fixes x :: "('d, 'r, 'p) sys \<times> hb \<times> history"
  assumes "lock_world cfg d es x" and "finite A" and "{t. pcs (fst x) t \<noteq> Idle} \<subseteq> A"
    and "\<forall>r \<in> set rounds. A \<subseteq> turn_of ` set r"
    and "628 * (1 + stale_turns (concat rounds)) * card A \<le> length rounds"
  shows "pcs (fst (snd (take_turns cfg (concat rounds) x))) t = Idle"
  using assms(1,3-5)
proof (induction "stale_turns (concat rounds)" arbitrary: x es rounds rule: less_induct)
  case less
  let ?n = "628 * card A"
  let ?p = "take ?n rounds" and ?q = "drop ?n rounds"
  have r: "concat rounds = concat ?p @ concat ?q" by (metis append_take_drop_id concat_append)
  define x1 where "x1 = snd (take_turns cfg (concat ?p) x)"
  obtain fs where fs: "take_turns cfg (concat ?p) x = (fs, x1)" unfolding x1_def by (metis prod.collapse)
  have x': "snd (take_turns cfg (concat rounds) x) = snd (take_turns cfg (concat ?q) x1)"
    unfolding r take_turns_append x1_def ..
  have len: "?n \<le> length rounds" using less.prems(4) by (simp add: algebra_simps)
  have sub: "{t. pcs (fst x1) t \<noteq> Idle} \<subseteq> {t. pcs (fst x) t \<noteq> Idle}"
    using take_turns_idle [of x _ cfg "concat ?p"] unfolding x1_def by blast
  show ?case
  proof (cases "stale_turns (concat ?p) = 0")
    case True
    then have latest: "\<forall>u \<in> set (concat ?p). \<not> is_stale u"
      by (auto simp: stale_turns_def filter_empty_conv)
    obtain s h y where x: "x = (s, h, y)" by (cases x)
    have lr: "lock_runs cfg d es s" using less.prems(1) x by (auto simp: lock_runs_def)
    let ?ts = "map (map turn_of) ?p"
    have "pcs (after cfg (concat ?ts) s) t = Idle"
    proof (rule fair_finish [OF lr])
      show "\<forall>r \<in> set ?ts. {t. pcs s t \<noteq> Idle} \<subseteq> set r"
        using less.prems(2,3) x by (auto dest!: in_set_takeD)
      have "card {t. pcs s t \<noteq> Idle} \<le> card A" using less.prems(2) x by (auto intro: card_mono [OF assms(2)])
      then show "628 * card {t. pcs s t \<noteq> Idle} \<le> length ?ts" using len by simp
    qed
    then have "pcs (fst x1) t = Idle"
      using take_turns_latest [OF latest, of cfg x] x by (simp add: x1_def map_concat)
    then show ?thesis unfolding x' by (rule take_turns_idle)
  next
    case False
    have st: "stale_turns (concat rounds) = stale_turns (concat ?p) + stale_turns (concat ?q)"
      by (simp add: r stale_turns_def)
    have "lock_world cfg d (es @ fs) x1" by (rule runs_trans [OF take_turns_runs [OF fs] less.prems(1)])
    moreover have "628 * (1 + stale_turns (concat ?q)) * card A \<le> length ?q"
    proof -
      have "1 + stale_turns (concat ?q) \<le> stale_turns (concat rounds)" using st False by simp
      then have "628 * card A * (1 + stale_turns (concat ?q)) \<le> 628 * card A * stale_turns (concat rounds)"
        by (rule mult_le_mono2)
      then show ?thesis using less.prems(4) by (simp add: algebra_simps)
    qed
    ultimately show ?thesis
      unfolding x' using less.prems(2,3) sub st False
      by (intro less.hyps [of ?q]) (auto dest: in_set_dropD)
  qed
qed

subsection \<open>The calls that are open return\<close>

lemma thread_step_returns:
  assumes "thread_step cfg u s = Next s' es" and "pcs s t \<noteq> Idle" and "pcs s' t = Idle"
    and "\<forall>a. pcs s u \<noteq> WakeSyscall a Idle"
  shows "\<exists>ret. Ret t ret \<in> set es"
proof -
  have [simp]: "bomb_end fin \<noteq> Idle" for fin by (cases fin) simp_all
  show ?thesis
    using assms unfolding thread_step_def
    by (cases "u = t"; cases "pcs s u")
      (auto simp: access_def wake_def futex_swap_def futex_cas_def split: step_splits)
qed

lemma weak_step_returns:
  assumes "weak_rel cfg x a" and "weak_step cfg x es x'" and "pcs (fst x) t \<noteq> Idle" and "pcs (fst x') t = Idle"
  shows "\<exists>ret. Ret t ret \<in> set es"
proof -
  obtain s h y where x: "x = (s, h, y)" by (cases x)
  obtain g where I: "inv cfg s g" using assms(1) x by (auto simp: weak_rel_def)
  have k: "pcs s u \<noteq> WakeSyscall a Idle" for u a using inv_parts(5) [OF I, of u] by auto
  from assms(2) [unfolded x] show ?thesis
  proof cases
    case (thread v s' as)
    then show ?thesis using thread_step_returns [OF thread(2)] k assms(3,4) x by auto
  next
    case (stale v l i s0)
    then have "thread_step cfg v (with_value l (fst (past y l ! i)) s) = Next s0 es"
      by (simp add: stale_step_def Let_def split: if_splits)
    then show ?thesis by (rule thread_step_returns) (use stale(1) k assms(3,4) x in auto)
  qed (use assms(3,4) x in \<open>auto split: if_splits\<close>)
qed

lemma runs_return:
  assumes "runs (weak_step cfg) x es x'" and "weak_rel cfg x a"
    and "pcs (fst x) t \<noteq> Idle" and "pcs (fst x') t = Idle"
  shows "\<exists>ret. Ret t ret \<in> set es"
  using assms
proof (induction rule: runs.induct)
  case (more x es x' fs x'')
  show ?case
  proof (cases "pcs (fst x') t = Idle")
    case True
    then show ?thesis using more by auto
  next
    case False
    obtain b where "weak_rel cfg x' b" using lock.runs_refine [OF more(1) more.prems(1)] by blast
    then show ?thesis using weak_step_returns [OF _ more(2) False] more.prems(3) by auto
  qed
qed simp

end
