(* ===== verification/Lam_Theorems.thy ===== *)
theory Lam_Theorems
  imports Lam_Trace Lam_Fair
begin

section \<open>The properties of the lock\<close>

text \<open>
  Each property speaks of every run of any number of threads from the initial state, loads being
  stale wherever the memory model lets them; the witnesses evaluate concrete schedules: a fast path
  against a queued combiner (\<open>demo_std\<close>), a combiner whose task unwinds without \<open>std\<close>,
  with a second task cancelled behind it (\<open>demo_boom\<close>), and a thread that queues up on a free
  lock after a stale load (\<open>demo_stale\<close>).
\<close>

subsection \<open>Concrete runs\<close>

abbreviation demo_moves :: "(nat, nat, nat) move list" where
  "demo_moves \<equiv> [Enter 0 (add_task 1)] @ replicate 2 (Move 0) @ [Enter 1 (add_task 5)] @
     replicate 6 (Move 1) @ replicate 3 (Move 0) @ replicate 10 (Move 1)"

abbreviation demo_trace :: "(nat, nat, nat) event list" where
  "demo_trace \<equiv> [Call 0 (add_task 1), Call 1 (add_task 5), Enq 1, Exec 0, Ret 0 (Ok 10), Exec 1,
     Ret 1 (Ok 11)]"

lemma demo_std:
  "\<exists>s. lock_runs Std 10 demo_trace s \<and> pcs s 1 = Idle \<and> data s = 16"
proof -
  have "\<exists>s. schedule Std demo_moves (sys_init 10) = Some (demo_trace, s) \<and> pcs s 1 = Idle \<and> data s = 16"
    by (simp add: schedule_eval add_task_def eval_nat_numeral)
  then show ?thesis by (blast intro: schedule_lock_runs)
qed

text \<open>Thread 1 sleeps in the kernel; the combiner 2 has changed its word and owes it the system
  call.\<close>

abbreviation sleep_moves :: "(nat, nat, nat) move list" where
  "sleep_moves \<equiv> [Enter 0 (add_task 1), Move 0, Move 0, Enter 2 (add_task 2)] @
     replicate 5 (Move 2) @ [Enter 1 (add_task 5)] @ replicate 108 (Move 1)"

lemma demo_asleep:
  "\<exists>s es. lock_runs Std 10 es s \<and> pcs s 0 = FastRun (add_task 1) \<and> pcs s 1 = FutexSleep"
proof -
  have "\<exists>s es. schedule Std sleep_moves (sys_init 10) = Some (es, s) \<and>
      pcs s 0 = FastRun (add_task 1) \<and> pcs s 1 = FutexSleep"
    by (simp add: schedule_eval eval_nat_numeral)
  then show ?thesis by (blast intro: schedule_lock_runs)
qed

lemma demo_waking:
  "\<exists>(s :: (nat, nat, nat) sys) es nd. lock_runs Std 10 es s \<and> pcs s 1 = FutexSleep \<and> heap s 1 = Some nd \<and> futex nd = DONE"
proof -
  have "\<exists>(s :: (nat, nat, nat) sys) es nd. schedule Std (sleep_moves @ replicate 3 (Move 0) @ replicate 11 (Move 2)) (sys_init 10) =
      Some (es, s) \<and> pcs s 1 = FutexSleep \<and> heap s 1 = Some nd \<and> futex nd = DONE"
    by (simp add: schedule_eval add_task_def eval_nat_numeral)
  then show ?thesis by (blast intro: schedule_lock_runs)
qed

text \<open>Without \<open>std\<close>: the combiner 2 runs a task that panics; task 1, queued behind it, is
  cancelled.\<close>

abbreviation boom_trace :: "(nat, nat, nat) event list" where
  "boom_trace \<equiv> [Call 0 (add_task 1), Call 2 boom_task, Enq 2, Call 1 (add_task 5), Enq 1,
     Exec 0, Ret 0 (Ok 10), Exec 2, Cancel 1, Ret 2 (Unwind 7), Ret 1 Err]"

lemma demo_boom:
  "\<exists>s. lock_runs NoStd 10 boom_trace s \<and> status (raw s) = RAW_POISONED \<and> data s = 111 \<and>
     (\<forall>t. pcs s t = Idle)"
proof -
  have "\<exists>s. schedule NoStd ([Enter 0 (add_task 1), Move 0, Move 0, Enter 2 boom_task] @
      replicate 5 (Move 2) @ [Enter 1 (add_task 5)] @ replicate 5 (Move 1) @ replicate 3 (Move 0) @
      replicate 12 (Move 2) @ replicate 4 (Move 1)) (sys_init 10) = Some (boom_trace, s) \<and>
      status (raw s) = RAW_POISONED \<and> data s = 111 \<and> (\<forall>t. pcs s t = Idle)"
    by (simp add: schedule_eval add_task_def boom_task_def eval_nat_numeral)
  then show ?thesis by (blast intro: schedule_lock_runs)
qed

text \<open>
  Thread 1 comes when thread 0 has gone, but does not know it: it finds the raw lock taken twice over,
  queues up behind nobody and is its own combiner.
\<close>

abbreviation stale_moves :: "(nat, nat, nat) weak_move list" where
  "stale_moves \<equiv> map Now (Enter 0 (add_task 1) # replicate 5 (Move 0)) @
     [Now (Enter 1 (add_task 5)), Now (Move 1), Old 1 Status 1, Now (Move 1), Now (Move 1),
      Old 1 Status 1] @ map Now (replicate 10 (Move 1))"

abbreviation stale_trace :: "(nat, nat, nat) event list" where
  "stale_trace \<equiv> [Call 0 (add_task 1), Exec 0, Ret 0 (Ok 10), Call 1 (add_task 5), Enq 1, Exec 1,
     Ret 1 (Ok 11)]"

lemma demo_stale:
  "\<exists>s h y. lock_world Std 10 stale_trace (s, h, y) \<and> data s = 16 \<and> plain h Data = {2, 13}"
proof -
  have "\<exists>s h y. weak_schedule Std stale_moves (world_init 10) = Some (stale_trace, s, h, y) \<and>
      data s = 16 \<and> plain h Data = {2, 13}"
    by (simp add: schedule_eval memory_eval add_task_def eval_nat_numeral insert_commute)
  then show ?thesis by (blast intro: weak_schedule_runs)
qed


subsection \<open>Refinement\<close>

text \<open>C1. Whatever the interleaving, and whichever of the values that the memory model allows the
  loads find, the events of a run are a behaviour of the atomic first-in-first-out executor of
  \<open>Lam_Spec\<close>, which arrives at the same data; a thread that is not in a call has none pending
  there.\<close>

theorem lock_refines:
  assumes "lock_runs cfg d es s"
  shows "\<exists>a. spec_run cfg es (spec_init d) = Some a \<and> data s = sdata a \<and>
    (\<forall>t. pcs s t = Idle \<longrightarrow> phase a t = Quiet)"
proof -
  obtain g where g: "inv cfg s g" "spec_run cfg es (spec_init d) = Some (gspec g)"
    using lock_runs_inv [OF assms] by blast
  have "pcs s t = Idle \<longrightarrow> phase (gspec g) t = Quiet" for t
    using inv_parts(5) [OF g(1), of t] by auto
  moreover have "data s = sdata (gspec g)"
    using inv_parts(4) [OF g(1)] by (simp add: spec_inv_def)
  ultimately show ?thesis using g(2) by blast
qed

theorem lock_refines_witness:
  "\<exists>a. spec_run Std demo_trace (spec_init 10) = Some a \<and> sdata a = 16"
proof -
  obtain s where s: "lock_runs Std 10 demo_trace s" "data s = 16" using demo_std by blast
  from lock_refines [OF s(1)] s(2) show ?thesis by auto
qed

text \<open>C13. Without the queue's detail: with \<open>std\<close>, executing the tasks one after another in the
  order of their \<open>Exec\<close> events gives the data, and every call returns what its own task gave in
  that sequential execution, a panic included.\<close>

theorem lock_sequential:
  assumes "lock_runs Std d es s"
  shows "\<exists>x. replay es (replay_init d) = Some x \<and> rdata x = data s"
proof -
  obtain g where g: "inv Std s g" "spec_run Std es (spec_init d) = Some (gspec g)"
    using lock_runs_inv [OF assms] by blast
  show ?thesis
    using spec_replay [OF g(2)] inv_parts(4) [OF g(1)] by (auto simp: replays_def spec_inv_def)
qed

theorem lock_sequential_witness:
  "\<exists>x. replay demo_trace (replay_init 10) = Some x \<and> rdata x = 16"
proof -
  obtain s where s: "lock_runs Std 10 demo_trace s" "data s = 16" using demo_std by blast
  from lock_sequential [OF s(1)] s(2) show ?thesis by auto
qed

subsection \<open>Safety\<close>

text \<open>C6. While one thread runs a task on the data (its own on the fast path, or anybody's as a
  combiner), no other thread does.\<close>

theorem lock_exclusion:
  assumes "lock_runs cfg d es s" and "in_task (pcs s t)" and "u \<noteq> t"
  shows "\<not> in_task (pcs s u)"
  using lock_runs_inv [OF assms(1)] in_task_holds assms(2,3) by (metis option.inject)

theorem lock_exclusion_witness:
  "\<exists>s es. lock_runs Std 10 es s \<and> pcs s 0 = FastRun (add_task 1) \<and> \<not> in_task (pcs s 1)"
proof -
  obtain s es where s: "lock_runs Std 10 es s" "pcs s 0 = FastRun (add_task 1)"
    using demo_asleep by blast
  have "in_task (pcs s 0)" by (simp add: s(2) in_task_def)
  from lock_exclusion [OF s(1) this, of 1] s show ?thesis by auto
qed

text \<open>C7. No step ever touches a node whose owner has returned, reads a closure or result slot that
  holds no value, or fails a \<open>debug_assert!\<close>, whatever its loads find.\<close>

theorem lock_no_fault:
  assumes "lock_world cfg d es x"
  shows "thread_step cfg t (fst x) \<noteq> Fault \<and> stale_step cfg t l i x \<noteq> Fault"
proof -
  obtain s h y where x: "x = (s, h, y)" by (cases x)
  obtain g where g: "inv cfg s g" "hb_inv s g h" "past_inv s g h y"
    using lock_world_inv [OF assms [unfolded x]] by blast
  have "thread_step cfg t s \<noteq> Fault" using thread_step_ok [OF g(1), of t] by (auto simp: step_ok_def)
  moreover have "stale_step cfg t l i x \<noteq> Fault"
    using stale_moves_on(1) [OF g, of t l i Fault] x by (auto simp: moved_on_def)
  ultimately show ?thesis using x by simp
qed

theorem lock_no_fault_witness:
  "\<exists>(x :: (nat, nat, nat) sys \<times> hb \<times> history) es. lock_world Std 10 es x \<and>
     pcs (fst x) 1 = FutexSleep \<and> thread_step Std 2 (fst x) \<noteq> Fault \<and>
     stale_step Std 2 Tail 0 x \<noteq> Fault"
proof -
  obtain s :: "(nat, nat, nat) sys" and es where s: "lock_runs Std 10 es s" "pcs s 1 = FutexSleep"
    using demo_waking by blast
  then obtain h y where r: "lock_world Std 10 es (s, h, y)" by (auto simp: lock_runs_def)
  from lock_no_fault [OF r] r s(2) show ?thesis by (intro exI [of _ "(s, h, y)"] exI [of _ es]) simp
qed

text \<open>C8. With the memory orderings the source writes there is no data race: accesses to the data, to
  the slots of a node and to the memory of a node, from its making to the end of
  \<open>run_slowly\<close>, are ordered by happens-before wherever they conflict; and all the accesses to
  the data so far happen before a task that is about to run.\<close>

theorem lock_race_free:
  assumes "lock_world cfg d es (s, h, y)"
  shows "\<not> raced h \<and> (\<forall>t. in_task (pcs s t) \<longrightarrow> plain h Data \<subseteq> seen h t)"
proof -
  obtain g where g: "inv cfg s g" "hb_inv s g h" using lock_world_inv [OF assms] by blast
  have "plain h Data \<subseteq> seen h t" if "in_task (pcs s t)" for t
    using holder_sees_data [OF g(2) in_task_holds [OF g(1) that]] that
    by (auto simp: in_task_def split: pc.splits)
  then show ?thesis using hb_parts(1) [OF g(2)] by blast
qed

theorem lock_race_free_witness:
  "\<exists>s h y. lock_world Std 10 stale_trace (s, h, y) \<and> plain h Data = {2, 13} \<and> \<not> raced h"
proof -
  obtain s h y where r: "lock_world Std 10 stale_trace (s, h, y)" "plain h Data = {2, 13}"
    using demo_stale by blast
  from lock_race_free [OF r(1)] r show ?thesis by blast
qed

text \<open>C14. A task runs at most once per call; with \<open>std\<close>, when a thread is outside a call each
  of its calls has run its task exactly once and returned exactly once.\<close>

theorem lock_exactly_once:
  assumes "lock_runs cfg d es s"
  shows "execs t es \<le> calls t es \<and>
    (cfg = Std \<and> pcs s t = Idle \<longrightarrow> execs t es = calls t es \<and> rets t es = calls t es)"
proof -
  obtain g where g: "inv cfg s g" "spec_run cfg es (spec_init d) = Some (gspec g)"
    using lock_runs_inv [OF assms] by blast
  have "pcs s t = Idle \<longrightarrow> phase (gspec g) t = Quiet"
    using inv_parts(5) [OF g(1), of t] by auto
  then show ?thesis using spec_counts [OF g(2), of t] by auto
qed

theorem lock_exactly_once_witness:
  "calls 1 demo_trace = 1 \<and> execs 1 demo_trace = calls 1 demo_trace \<and>
     rets 1 demo_trace = calls 1 demo_trace"
proof -
  obtain s where s: "lock_runs Std 10 demo_trace s" "pcs s 1 = Idle" using demo_std by blast
  have "calls 1 demo_trace = 1" by (simp add: calls_def)
  with lock_exactly_once [OF s(1), of 1] s(2) show ?thesis by blast
qed

text \<open>C18. Queued tasks leave the queue, run or cancelled, in the order in which their threads
  joined it.\<close>

theorem lock_fifo:
  assumes "lock_runs cfg d es s"
  shows "prefix (served [] es) (joined es)"
proof -
  obtain a where "spec_run cfg es (spec_init d) = Some a"
    using lock_runs_inv [OF assms] by blast
  from spec_order [OF this] show ?thesis by (simp add: spec_init_def prefix_def)
qed

theorem lock_fifo_witness:
  "served [] boom_trace = [2, 1] \<and> prefix (served [] boom_trace) (joined boom_trace)"
proof -
  obtain s where "lock_runs NoStd 10 boom_trace s" using demo_boom by blast
  from lock_fifo [OF this] show ?thesis by simp
qed

subsection \<open>Waking and progress\<close>

text \<open>C17. No lost wake-up: a thread asleep in the kernel still has its node, and if the word no
  longer says \<open>SLEEPING\<close>, the thread that changed it is about to make the wake system call.\<close>

theorem lock_no_lost_wakeup:
  assumes "lock_runs cfg d es s" and "pcs s t = FutexSleep"
  shows "\<exists>nd. heap s t = Some nd \<and>
    (futex nd \<noteq> SLEEPING \<longrightarrow> (\<exists>u k. pcs s u = WakeSyscall t k))"
  using lock_runs_awake [OF assms(1)] assms(2) unfolding awake_inv_def sleep_ok_def by blast

theorem lock_no_lost_wakeup_witness:
  "\<exists>(s :: (nat, nat, nat) sys) es u k. lock_runs Std 10 es s \<and> pcs s 1 = FutexSleep \<and>
     pcs s u = WakeSyscall 1 k"
proof -
  obtain s :: "(nat, nat, nat) sys" and es nd where s: "lock_runs Std 10 es s" "pcs s 1 = FutexSleep"
    "heap s 1 = Some nd" "futex nd = DONE"
    using demo_waking by blast
  from lock_no_lost_wakeup [OF s(1,2)] s show ?thesis by auto
qed

text \<open>C9. Every call returns under a fair scheduler, from every reachable state. The scheduler gives
  turns in rounds; in each round every thread that is in a call has a turn, in any order and any
  number of times. In a turn the thread takes its next step, and the load of that step may be stale
  wherever the memory model lets it be. With 628 rounds for each such thread and each stretch
  between two stale turns, and no new calls, all the calls return. A write becomes visible to
  every thread in finite time, so a fair schedule has finitely many stale turns. So no wake-up is
  lost, no thread spins for ever, and no successor or raw lock is waited for in vain, poisoned or
  not.\<close>

theorem lock_calls_return:
  assumes "lock_world cfg d es x"
    and "\<forall>r \<in> set rounds. {t. pcs (fst x) t \<noteq> Idle} \<subseteq> turn_of ` set r"
    and "628 * (1 + stale_turns (concat rounds)) * card {t. pcs (fst x) t \<noteq> Idle} \<le> length rounds"
    and "take_turns cfg (concat rounds) x = (fs, x')"
  shows "(\<forall>t. pcs (fst x') t = Idle) \<and>
    (\<forall>t. pcs (fst x) t \<noteq> Idle \<longrightarrow> (\<exists>ret. Ret t ret \<in> set fs)) \<and> lock_world cfg d (es @ fs) x'"
proof -
  have "lock_runs cfg d es (fst x)" using assms(1) by (cases x) (auto simp: lock_runs_def)
  from weak_finish [OF assms(1) active_finite [OF this] order.refl assms(2,3)]
  have idle: "pcs (fst x') t = Idle" for t using assms(4) by simp
  note r = take_turns_runs [OF assms(4)]
  obtain a where "weak_rel cfg x a" using lock.runs_refine [OF assms(1) weak_rel_init] by blast
  then have "\<exists>ret. Ret t ret \<in> set fs" if "pcs (fst x) t \<noteq> Idle" for t
    by (rule runs_return [OF r _ that idle])
  then show ?thesis using idle runs_trans [OF r assms(1)] by blast
qed

theorem lock_calls_return_witness:
  "\<exists>x x' :: (nat, nat, nat) sys \<times> hb \<times> history. \<exists>es us fs. lock_world Std 10 es x \<and>
     pcs (fst x) 1 = FutexSleep \<and> stale_turns us = 1 \<and> take_turns Std us x = (fs, x') \<and>
     (\<exists>ret. Ret 1 ret \<in> set fs) \<and> pcs (fst x') 1 = Idle"
proof -
  obtain s :: "(nat, nat, nat) sys" and es where s: "lock_runs Std 10 es s" "pcs s 1 = FutexSleep"
    using demo_waking by blast
  then obtain h y where w: "lock_world Std 10 es (s, h, y)" by (auto simp: lock_runs_def)
  obtain xs where xs: "set xs = {t. pcs s t \<noteq> Idle}"
    using finite_list [OF active_finite [OF s(1)]] by blast
  let ?r = "map Latest xs"
  let ?rs = "(Stale 0 Tail 0 # ?r) # replicate (1256 * card {t. pcs s t \<noteq> Idle}) ?r"
  have st: "stale_turns (concat ?rs) = 1"
    by (auto simp: stale_turns_def filter_empty_conv split: if_splits)
  obtain fs x' where m: "take_turns Std (concat ?rs) (s, h, y) = (fs, x')"
    by (cases "take_turns Std (concat ?rs) (s, h, y)") (simp only:)
  let ?A = "{t. pcs (fst (s, h, y)) t \<noteq> Idle}"
  have "\<forall>r \<in> set ?rs. ?A \<subseteq> turn_of ` set r" by (auto simp: xs image_image)
  moreover have "628 * (1 + stale_turns (concat ?rs)) * card ?A \<le> length ?rs" unfolding st by simp
  ultimately have "pcs (fst x') 1 = Idle" "\<exists>ret. Ret 1 ret \<in> set fs"
    using lock_calls_return [OF w _ _ m] s(2) by simp_all
  moreover have "pcs (fst (s, h, y)) 1 = FutexSleep" using s(2) by simp
  ultimately show ?thesis using w m st by blast
qed

text \<open>In particular there is no deadlock: while some thread is in a call, some thread in a call can
  take a step (it is not asleep, and its step does not fault).\<close>

theorem lock_no_deadlock:
  assumes "lock_runs cfg d es s" and "pcs s t \<noteq> Idle"
  shows "\<exists>u s' fs. pcs s u \<noteq> Idle \<and> thread_step cfg u s = Next s' fs"
proof -
  obtain g where g: "inv cfg s g" using lock_runs_inv [OF assms(1)] by blast
  have "\<not> (\<forall>u. pcs s u = Idle \<or> pcs s u = FutexSleep)"
    using all_asleep_idle [OF lock_runs_awake [OF assms(1)], of t] assms(2) by auto
  then obtain u where u: "pcs s u \<noteq> Idle" "pcs s u \<noteq> FutexSleep" by blast
  have "thread_step cfg u s \<noteq> Blocked" by (simp add: blocked_iff [OF g] u)
  moreover have "thread_step cfg u s \<noteq> Fault"
    using thread_step_ok [OF g, of u] by (auto simp: step_ok_def)
  ultimately obtain s' fs where "thread_step cfg u s = Next s' fs" by (cases "thread_step cfg u s") auto
  with u(1) show ?thesis by blast
qed

theorem lock_no_deadlock_witness:
  "\<exists>(s :: (nat, nat, nat) sys) es. lock_runs Std 10 es s \<and> pcs s 1 = FutexSleep \<and>
     (\<exists>u s' fs. pcs s u \<noteq> Idle \<and> thread_step Std u s = Next s' fs)"
proof -
  obtain s :: "(nat, nat, nat) sys" and es where s: "lock_runs Std 10 es s" "pcs s 1 = FutexSleep"
    using demo_waking by blast
  then have "pcs s 1 \<noteq> Idle" by simp
  from lock_no_deadlock [OF s(1) this] s show ?thesis by blast
qed

text \<open>C30. When no thread is in a call the lock is free: the queue is closed, no node is left, and
  the raw lock is not held.\<close>

theorem lock_quiescent:
  assumes "lock_runs cfg d es s" and "\<forall>t. pcs s t = Idle"
  shows "tail (raw s) = None \<and> (\<forall>t. heap s t = None) \<and> status (raw s) \<noteq> LOCKED"
proof -
  obtain g where g: "inv cfg s g" using lock_runs_inv [OF assms(1)] by blast
  have l: "idle (view_of s g t)" "heap s t = None" for t
    using inv_parts(5) [OF g, of t] assms(2) by auto
  have "gL g = None" using l(1) [of "the (gL g)"] by (cases "gL g") (auto simp: idle_def calm_def)
  moreover have "gH g = None" using l(1) [of "the (gH g)"] by (cases "gH g") (auto simp: idle_def)
  ultimately show ?thesis
    using l(2) inv_parts(1,2) [OF g] by (auto simp: queue_inv_def lock_inv_def)
qed

theorem lock_quiescent_witness:
  "\<exists>s. lock_runs NoStd 10 boom_trace s \<and> tail (raw s) = None \<and> status (raw s) \<noteq> LOCKED"
proof -
  obtain s where s: "lock_runs NoStd 10 boom_trace s" "\<forall>t. pcs s t = Idle"
    using demo_boom by blast
  from lock_quiescent [OF this] s show ?thesis by blast
qed

text \<open>The uncontended call: on a free lock a thread that runs alone goes through the fast path
  in exactly five steps, runs its task once, returns its outcome, and leaves the lock as it
  was.\<close>

theorem lock_fast_path:
  assumes "pcs s t = Idle" and "tail (raw s) = None" and "status (raw s) = UNLOCKED"
  shows "schedule cfg (Enter t f # replicate 5 (Move t)) s =
    Some ([Call t f, Exec t, Ret t (ret_of (snd (f (data s))))], s\<lparr>data := fst (f (data s))\<rparr>)"
  using assms by (rule fast_path_schedule)

theorem lock_fast_path_witness:
  "\<exists>s. schedule NoStd (Enter 3 (add_task 4) # replicate 5 (Move 3)) (sys_init 10) =
     Some ([Call 3 (add_task 4), Exec 3, Ret 3 (Ok 10)], s) \<and> data s = 14"
  using lock_fast_path [of "sys_init 10" 3 NoStd "add_task 4"]
  by (simp add: sys_init_def raw_new_def add_task_def)

subsection \<open>Poisoning\<close>

text \<open>C27. Once the raw lock is poisoned it stays so, no task runs any more, and the data never
  changes again.\<close>

theorem lock_poison_permanent:
  assumes "lock_world cfg d es x" and "status (raw (fst x)) = RAW_POISONED"
    and "runs (weak_step cfg) x fs x'"
  shows "status (raw (fst x')) = RAW_POISONED \<and> data (fst x') = data (fst x) \<and> (\<forall>t. Exec t \<notin> set fs)"
  using assms by (rule disabled_runs)

theorem lock_poison_permanent_witness:
  "\<exists>x x' fs. lock_world NoStd 10 boom_trace x \<and> runs (weak_step NoStd) x fs x' \<and>
     fs \<noteq> [] \<and> data (fst x') = 111 \<and> Exec 3 \<notin> set fs"
proof -
  obtain s where s: "lock_runs NoStd 10 boom_trace s" "status (raw s) = RAW_POISONED"
    "data s = 111" "\<forall>t. pcs s t = Idle"
    using demo_boom by blast
  then obtain h y where w: "lock_world NoStd 10 boom_trace (s, h, y)" by (auto simp: lock_runs_def)
  have r: "runs (weak_step NoStd) (s, h, y) [Call 3 (add_task 1)] (goto 3 (TryRun (add_task 1)) s, h, y)"
    using s(4) by (intro runs_one weak_step.call) simp
  from lock_poison_permanent [OF w _ r] s(2,3) w r show ?thesis
    by (intro exI conjI) (assumption | simp)+
qed

text \<open>C28. With \<open>std\<close> the lock never becomes poisoned and no call returns \<open>Err\<close>.\<close>

theorem lock_std_never_poisoned:
  fixes s :: "('d, 'r, 'p) sys"
  assumes "lock_runs Std d es s"
  shows "status (raw s) \<noteq> RAW_POISONED \<and> Ret t Err \<notin> set es"
proof -
  obtain g where g: "inv Std s g" "spec_run Std es (spec_init d) = Some (gspec g)"
    using lock_runs_inv [OF assms] by blast
  have "Ret t Err \<notin> set es"
  proof
    assume "Ret t Err \<in> set es"
    then obtain xs ys where es: "es = xs @ Ret t Err # ys" by (meson split_list)
    then obtain a b :: "('d, 'r, 'p) spec" where "spec_step Std (Ret t Err) a = Some b"
      using g(2) by (auto simp: spec_run_append bind_eq_Some_conv simp del: spec_step.simps)
    then have "allowed Std (phase a t) Err" by (auto split: if_splits)
    then obtain out :: "('r, 'p) outcome" where "Err = ret_of out" by (cases "phase a t") auto
    then show False by (cases out) auto
  qed
  then show ?thesis using inv_parts(2) [OF g(1)] by (auto simp: lock_inv_def)
qed

theorem lock_std_never_poisoned_witness:
  "\<exists>s. lock_runs Std 10 demo_trace s \<and> status (raw s) \<noteq> RAW_POISONED"
proof -
  obtain s where s: "lock_runs Std 10 demo_trace s" using demo_std by blast
  from lock_std_never_poisoned [OF s] s show ?thesis by blast
qed

end
