(* ===== verification/Lam_Poison.thy ===== *)
theory Lam_Poison
  imports Lam_Trace
begin

section \<open>The poisonable lock (\<open>poison.rs\<close>) and \<open>nonpoison::Lock::run\<close>\<close>

text \<open>
  \<open>poison::Lock\<close> wraps the lock of \<open>nonpoison.rs\<close> and keeps a flag that only the tasks
  it submits read or write. The flag is therefore part of the data the inner lock protects: the
  inner data is a pair of the user's data and the flag. Each operation is the task it submits and
  what it makes of the inner call's result; the three operations share one lock, so their results
  share one type.
\<close>

type_synonym 'd pdata = "'d \<times> bool"

datatype 'r pres = RanOk "lock_poisoned + 'r" | PoisonedOk "lock_poisoned + unit" | Unpoisoned bool

type_synonym ('d, 'r, 'p) ptask = "('d pdata, 'r pres, 'p) task"

text \<open>An operation of the lock, with the closure the caller gives.\<close>

datatype (dead 'd, dead 'r, dead 'p) pop =
    PRun "('d, 'r, 'p) task"
  | PPoison
  | PTryUnpoison "('d, bool, 'p) task"

definition plock_new :: "'d \<Rightarrow> 'd pdata" where
  "plock_new d = (d, False)"

definition run_task :: "('d, 'r, 'p) task \<Rightarrow> ('d, 'r, 'p) ptask" where
  "run_task f = (\<lambda>(d, poisoned).
     if poisoned then ((d, poisoned), Return (RanOk (Inl LockPoisoned)))
     else (case f d of
         (d', Return r) \<Rightarrow> ((d', False), Return (RanOk (Inr r)))
       | (d', Panic p) \<Rightarrow> ((d', True), Panic p)))"

definition poison_task :: "('d, 'r, 'p) ptask" where
  "poison_task = (\<lambda>(d, poisoned).
     if poisoned then ((d, poisoned), Return (PoisonedOk (Inl LockPoisoned)))
     else ((d, True), Return (PoisonedOk (Inr ()))))"

definition unpoison_task :: "('d, bool, 'p) task \<Rightarrow> ('d, 'r, 'p) ptask" where
  "unpoison_task f = (\<lambda>(d, poisoned).
     if \<not> poisoned then ((d, poisoned), Return (Unpoisoned False))
     else (case f d of
         (d', Return b) \<Rightarrow> ((d', \<not> b), Return (Unpoisoned b))
       | (d', Panic p) \<Rightarrow> ((d', poisoned), Panic p)))"

fun ptask :: "('d, 'r, 'p) pop \<Rightarrow> ('d, 'r, 'p) ptask" where
  "ptask (PRun f) = run_task f"
| "ptask PPoison = poison_task"
| "ptask (PTryUnpoison f) = unpoison_task f"

text \<open>\<open>map_err(|_| LockPoisoned)?\<close> flattens the inner result; a panic of the task goes on.\<close>

fun run_answer :: "('r pres, 'p) ret \<Rightarrow> (lock_poisoned + 'r) option" where
  "run_answer (Ok (RanOk res)) = Some res"
| "run_answer Err = Some (Inl LockPoisoned)"
| "run_answer _ = None"

fun poison_answer :: "('r pres, 'p) ret \<Rightarrow> (lock_poisoned + unit) option" where
  "poison_answer (Ok (PoisonedOk res)) = Some res"
| "poison_answer Err = Some (Inl LockPoisoned)"
| "poison_answer _ = None"

fun unpoison_answer :: "('r pres, 'p) ret \<Rightarrow> (lock_poisoned + bool) option" where
  "unpoison_answer (Ok (Unpoisoned b)) = Some (Inr b)"
| "unpoison_answer Err = Some (Inl LockPoisoned)"
| "unpoison_answer _ = None"

text \<open>\<open>nonpoison::Lock::run\<close> turns a refused call into a panic of the caller.\<close>

fun nonpoison_run :: "'p \<Rightarrow> ('r, 'p) ret \<Rightarrow> ('r, 'p) outcome" where
  "nonpoison_run message (Ok r) = Return r"
| "nonpoison_run message Err = Panic message"
| "nonpoison_run message (Unwind p) = Panic p"

subsection \<open>The tasks\<close>

lemma ptask_poisoned:
  assumes "\<forall>f. k \<noteq> PTryUnpoison f"
  shows "fst (ptask k (d, True)) = (d, True)"
  using assms by (cases k) (simp_all add: run_task_def poison_task_def)

text \<open>What a closure owes to an invariant of the data: \<open>run\<close> may rely on it and must restore it
  before returning (not before unwinding); recovery may not rely on it, and must have restored it
  when it answers \<open>true\<close>.\<close>

definition honours :: "('d \<Rightarrow> bool) \<Rightarrow> ('d, 'r, 'p) pop \<Rightarrow> bool" where
  "honours I k =
     (case k of
        PRun f \<Rightarrow> (\<forall>d d' r. I d \<longrightarrow> f d = (d', Return r) \<longrightarrow> I d')
      | PPoison \<Rightarrow> True
      | PTryUnpoison f \<Rightarrow> (\<forall>d d'. f d = (d', Return True) \<longrightarrow> I d'))"

definition guarded :: "('d \<Rightarrow> bool) \<Rightarrow> 'd pdata \<Rightarrow> bool" where
  "guarded I x \<longleftrightarrow> snd x \<or> I (fst x)"

lemma guarded_ptask:
  assumes "honours I k" and "guarded I x"
  shows "guarded I (fst (ptask k x))"
  using assms
  by (cases k; cases x)
    (auto simp: honours_def guarded_def run_task_def poison_task_def unpoison_task_def
      split: prod.splits outcome.splits)

subsection \<open>An invariant of the data is an invariant of the system\<close>

text \<open>
  From a state in which no call is open: if every submitted task keeps \<open>J\<close> and leaves results
  in \<open>Q\<close>, then \<open>J\<close> holds of the data throughout, and with \<open>std\<close> every returned
  value is in \<open>Q\<close>.
\<close>

definition task_keeps ::
    "('d \<Rightarrow> bool) \<Rightarrow> (('r, 'p) ret \<Rightarrow> bool) \<Rightarrow> ('d, 'r, 'p) task \<Rightarrow> bool" where
  "task_keeps J Q f \<longleftrightarrow> (\<forall>x. J x \<longrightarrow> J (fst (f x)) \<and> Q (ret_of (snd (f x))))"

definition phase_keeps ::
    "('d \<Rightarrow> bool) \<Rightarrow> (('r, 'p) ret \<Rightarrow> bool) \<Rightarrow> ('d, 'r, 'p) phase \<Rightarrow> bool" where
  "phase_keeps J Q ph =
     (case ph of Quiet \<Rightarrow> True | Pending f \<Rightarrow> task_keeps J Q f | Finished out \<Rightarrow> Q (ret_of out))"

lemma phase_keeps_simps [simp]:
  "phase_keeps J Q Quiet" "phase_keeps J Q (Pending f) = task_keeps J Q f"
  "phase_keeps J Q (Finished out) = Q (ret_of out)"
  by (simp_all add: phase_keeps_def)

lemma spec_keeps_step:
  assumes "J (sdata c)" and "\<forall>t. phase_keeps J Q (phase c t)"
    and "\<forall>t f. e = Call t f \<longrightarrow> task_keeps J Q f" and "spec_step cfg e c = Some a"
  shows "J (sdata a) \<and> (\<forall>t. phase_keeps J Q (phase a t)) \<and>
    (cfg = Std \<longrightarrow> (\<forall>t ret. e = Ret t ret \<longrightarrow> Q ret))"
proof (cases e)
  case (Exec t)
  then obtain f where f: "phase c t = Pending f" using assms(4) by (auto split: phase.splits)
  obtain d out where fd: "f (sdata c) = (d, out)" by fastforce
  have "task_keeps J Q f" using spec [OF assms(2), of t] f by simp
  then have "J d" "Q (ret_of out)" using assms(1) fd by (auto simp: task_keeps_def)
  then show ?thesis
    using Exec assms(2,4) f fd by (auto split: if_splits)
next
  case (Ret t r)
  then have r: "allowed cfg (phase c t) r" "a = c\<lparr>phase := (phase c)(t := Quiet)\<rparr>"
    using assms(4) by (auto split: if_splits)
  have "Q r" if std: "cfg = Std"
  proof -
    obtain out where "phase c t = Finished out" "r = ret_of out"
      using r(1) std by (cases "phase c t") auto
    then show ?thesis using spec [OF assms(2), of t] by simp
  qed
  then show ?thesis using Ret r(2) assms(1,2) by auto
qed (use assms in \<open>auto split: phase.splits if_splits\<close>)

lemma spec_keeps:
  assumes "spec_run cfg es c = Some a" and "J (sdata c)" and "\<forall>t. phase_keeps J Q (phase c t)"
    and "\<forall>t f. Call t f \<in> set es \<longrightarrow> task_keeps J Q f"
  shows "J (sdata a) \<and> (cfg = Std \<longrightarrow> (\<forall>t ret. Ret t ret \<in> set es \<longrightarrow> Q ret))"
  using assms
proof (induction es arbitrary: c)
  case Nil
  then show ?case by simp
next
  case (Cons e es)
  obtain b where b: "spec_step cfg e c = Some b" "spec_run cfg es b = Some a"
    using Cons.prems(1) by (auto simp: bind_eq_Some_conv)
  have "\<forall>t f. e = Call t f \<longrightarrow> task_keeps J Q f" using Cons.prems(4) by auto
  note k = spec_keeps_step [OF Cons.prems(2,3) this b(1)]
  then show ?case using Cons.IH [OF b(2)] Cons.prems(4) by auto
qed

lemma lock_keeps_from:
  assumes "lock_world cfg d es x" and "\<forall>t. pcs (fst x) t = Idle" and "runs (weak_step cfg) x fs x'"
    and "J (data (fst x))" and "\<forall>t f. Call t f \<in> set fs \<longrightarrow> task_keeps J Q f"
  shows "J (data (fst x')) \<and> (cfg = Std \<longrightarrow> (\<forall>t ret. Ret t ret \<in> set fs \<longrightarrow> Q ret))"
proof -
  have data: "\<exists>g. inv cfg (fst z) g \<and> gspec g = a \<and> data (fst z) = sdata a" if "weak_rel cfg z a" for z a
    using that inv_parts(4) by (cases z) (fastforce simp: weak_rel_def spec_inv_def)
  obtain a where a: "weak_rel cfg x a"
    using lock.runs_refine [OF assms(1) weak_rel_init] by blast
  from lock.runs_refine [OF assms(3) a] obtain b where
    b: "spec_run cfg fs a = Some b" "weak_rel cfg x' b" by blast
  obtain g where g: "inv cfg (fst x) g" "gspec g = a" "data (fst x) = sdata a" using data [OF a] by blast
  have "phase a t = Quiet" for t
    using inv_parts(5) [OF g(1), of t] assms(2) g(2) by simp
  moreover have "data (fst x') = sdata b" using data [OF b(2)] by blast
  ultimately show ?thesis
    using spec_keeps [OF b(1), of J Q] assms(4,5) g(3) by simp
qed

lemma lock_keeps:
  assumes "lock_runs cfg d es s" and "J d" and "\<forall>t f. Call t f \<in> set es \<longrightarrow> task_keeps J Q f"
  shows "J (data s) \<and> (cfg = Std \<longrightarrow> (\<forall>t ret. Ret t ret \<in> set es \<longrightarrow> Q ret))"
proof -
  obtain h y where r: "lock_world cfg d es (s, h, y)" using assms(1) by (auto simp: lock_runs_def)
  show ?thesis
    using lock_keeps_from [OF runs.start _ r, of J Q] assms(2,3)
    by (simp add: world_init_def sys_init_def)
qed

end
