(* ===== verification/Lam_Healthy.thy ===== *)
theory Lam_Healthy
  imports Lam_Poison
begin

section \<open>Without a panic nothing is cancelled\<close>

text \<open>
  The bomb goes off only when a task unwinds. As long as no task does, the raw lock is not poisoned,
  no thread cancels or is cancelled, and no call unwinds or returns \<open>Err\<close>, with either feature.
\<close>

fun returns :: "('r, 'p) outcome \<Rightarrow> bool" where
  "returns (Return r) = True"
| "returns (Panic p) = False"

fun ret_ok :: "('r, 'p) ret \<Rightarrow> bool" where
  "ret_ok (Ok r) = True"
| "ret_ok ret = False"

lemma ret_ok_of [simp]: "ret_ok (ret_of out) = returns out"
  by (cases out) simp_all

primrec healthy_pc :: "('d, 'r, 'p) pc \<Rightarrow> bool" where
  "healthy_pc Idle = True"
| "healthy_pc (TryRun f) = True"
| "healthy_pc (TryAcquire f) = True"
| "healthy_pc (FastRun f) = True"
| "healthy_pc (FastUnlock ret) = ret_ok ret"
| "healthy_pc (SlowNew f) = True"
| "healthy_pc SwapTail = True"
| "healthy_pc (StoreNext p) = True"
| "healthy_pc (Spin k) = True"
| "healthy_pc WaitCas = True"
| "healthy_pc FutexCheck = True"
| "healthy_pc FutexWait = True"
| "healthy_pc FutexSleep = True"
| "healthy_pc WaitReload = True"
| "healthy_pc (Dispatch w) = (w \<noteq> NODE_POISONED)"
| "healthy_pc Acquire = True"
| "healthy_pc AcquireSpin = True"
| "healthy_pc (Execute c) = True"
| "healthy_pc (Running c f) = True"
| "healthy_pc (LoadNext c) = True"
| "healthy_pc (WakeDone c n) = True"
| "healthy_pc (TryClose c) = True"
| "healthy_pc (CloseDone c) = True"
| "healthy_pc Release = True"
| "healthy_pc (HandLoad c) = True"
| "healthy_pc (HandAssert c) = True"
| "healthy_pc (HandHead c n) = True"
| "healthy_pc (HandDone c) = True"
| "healthy_pc (WakeSyscall a k) = healthy_pc k"
| "healthy_pc (BombPoison c fin) = False"
| "healthy_pc (BombLoad c fin) = False"
| "healthy_pc (BombWake c n fin) = False"
| "healthy_pc (BombClose c fin) = False"
| "healthy_pc (BombSpin c fin) = False"
| "healthy_pc (BombLast c fin) = False"
| "healthy_pc AttachOk = True"
| "healthy_pc AttachErr = False"
| "healthy_pc (Unwinding p) = False"
| "healthy_pc (Returning ret) = ret_ok ret"

definition healthy :: "('d, 'r, 'p) sys \<Rightarrow> bool" where
  "healthy s \<longleftrightarrow> status (raw s) \<noteq> RAW_POISONED \<and> (\<forall>t. healthy_pc (pcs s t)) \<and>
     (\<forall>c nd. heap s c = Some nd \<longrightarrow> futex nd \<noteq> NODE_POISONED \<and> (\<forall>out. result nd = Some out \<longrightarrow> returns out))"

lemma healthy_init: "healthy (sys_init d)"
  by (simp add: healthy_def sys_init_def raw_new_def)

lemma healthy_thread:
  assumes "healthy s" and "thread_step cfg t s = Next s' es"
    and "\<forall>c f. pcs s t = FastRun f \<or> pcs s t = Running c f \<longrightarrow> returns (snd (f (data s)))"
  shows "healthy s'"
proof -
  have t: "healthy_pc (pcs s t)" "status (raw s) \<noteq> RAW_POISONED" using assms(1) by (auto simp: healthy_def)
  have h: "heap s c = Some nd \<Longrightarrow> futex nd \<noteq> NODE_POISONED"
    "heap s c = Some nd \<Longrightarrow> result nd = Some out \<Longrightarrow> returns out" for c nd out
    using assms(1) by (auto simp: healthy_def)
  show ?thesis
    using t h assms(1-3) unfolding thread_step_def
    by (cases "pcs s t")
      (auto simp: healthy_def access_def wake_def node_defs raw_defs split: step_splits)
qed

lemma healthy_stale:
  assumes "healthy s" and I: "inv cfg s g" and B: "hb_inv s g h" and P: "past_inv s g h y"
    and st: "stale_step cfg t l i (s, h, y) = Next s0 es"
  shows "healthy_pc (pcs s0 t)"
proof -
  let ?v = "fst (past y l ! i)" and ?s = "with_value l (fst (past y l ! i)) s"
  have r: "readable t l i h y" "only_loads l (accesses cfg t ?s (pcs s t))"
    "pcs s t \<noteq> FutexWait" "thread_step cfg t ?s = Next s0 es"
    using st by (auto simp: stale_step_def Let_def split: if_splits)
  note F = stale_finds [OF I B P r(1) refl]
  have k: "pcs s t = FastRun f \<or> pcs s t = Running c f \<Longrightarrow> \<not> only_loads l (accesses cfg t ?s (pcs s t))" for c f
    by (auto simp: at_defs split: step_splits)
  have "healthy ?s"
  proof (cases l)
    case Status
    then show ?thesis using assms(1) F(1) by (auto simp: healthy_def)
  next
    case Tail
    then show ?thesis using assms(1) F(2) by (auto simp: healthy_def)
  next
    case (Word c)
    have c: "c = t \<and> (\<exists>k. pcs s t \<in> {Spin k, WaitCas, FutexCheck, WaitReload})"
      using r(2,3) by (cases "pcs s t"; auto simp: Word at_defs split: step_splits)+
    then have "?v = Num WAITING \<or> ?v = Num SLEEPING" using F(4-6) Word by blast
    then obtain n where n: "?v = Num n" "n \<noteq> NODE_POISONED" by auto
    have "healthy (put_node c (nd\<lparr>futex := n\<rparr>) s)" if "heap s c = Some nd" for nd
      using assms(1) that n(2) by (auto simp: healthy_def)
    then show ?thesis using n(1) assms(1) by (auto simp: Word split: option.split)
  next
    case (Link c)
    then obtain p where p: "?v = Ptr p" using F(3) by blast
    have "healthy (put_node c (nd\<lparr>nxt := p\<rparr>) s)" if "heap s c = Some nd" for nd
      using assms(1) that by (auto simp: healthy_def)
    then show ?thesis using p assms(1) by (auto simp: Link split: option.split)
  qed
  then have "healthy s0" using healthy_thread [OF _ r(4)] k r(2) by (metis pcs_with_value)
  then show ?thesis by (simp add: healthy_def)
qed

text \<open>The step that runs a task.\<close>

definition executes :: "('d, 'r, 'p) sys \<Rightarrow> tid \<Rightarrow> tid \<Rightarrow> ('d, 'r, 'p) task \<Rightarrow> bool" where
  "executes s u c f \<longleftrightarrow> pcs s u = FastRun f \<and> u = c \<or> pcs s u = Running c f"

lemma executes_pending:
  assumes "inv cfg s g" and "executes s u c f"
  shows "phase (gspec g) c = Pending f" and "gH g = Some u"
proof -
  note L = inv_parts(5) [OF assms(1), of u]
  show "gH g = Some u" using assms(2) L by (auto simp: executes_def)
  show "phase (gspec g) c = Pending f"
  proof (cases "pcs s u = FastRun f \<and> u = c")
    case True
    then show ?thesis using L by auto
  next
    case False
    then have "gL g = Some u" "hd (gq g) = c" "gZ g = Run f"
      using assms(2) L by (auto simp: executes_def leads_def)
    then show ?thesis
      using inv_parts(1) [OF assms(1)] by (auto simp: queue_inv_def running_def)
  qed
qed

lemma executes_event:
  assumes "executes s u c f" and "thread_step cfg u s = Next s' es"
  shows "es = [Exec c]" and "data s' = fst (f (data s))"
  using assms by (auto simp: executes_def thread_step_def access_def split: step_splits)

lemma thread_step_awake:
  assumes "thread_step cfg t s = Next s' es" and "u \<noteq> t" and "pcs s u \<noteq> FutexSleep"
  shows "pcs s' u = pcs s u"
  using assms unfolding thread_step_def
  by (cases "pcs s t")
    (auto simp: access_def wake_def futex_swap_def futex_cas_def split: step_splits)

lemma healthy_step:
  assumes "weak_rel cfg x a" and "healthy (fst x)" and "weak_step cfg x es x'"
    and "\<forall>c f. Exec c \<in> set es \<and> phase a c = Pending f \<longrightarrow> returns (snd (f (data (fst x))))"
  shows "healthy (fst x')"
proof -
  obtain s h y where x: "x = (s, h, y)" by (cases x)
  obtain g where I: "inv cfg s g" and B: "hb_inv s g h" and P: "past_inv s g h y" and a: "gspec g = a"
    using assms(1) x by (auto simp: weak_rel_def)
  from assms(3) [unfolded x] show ?thesis
  proof cases
    case (thread t s' as)
    have "returns (snd (f (data s)))" if f: "pcs s t = FastRun f \<or> pcs s t = Running c f" for c f
    proof -
      obtain b where b: "executes s t b f" using f by (auto simp: executes_def)
      show ?thesis
        using executes_pending(1) [OF I b] executes_event(1) [OF b thread(2)] assms(4) x a by auto
    qed
    then show ?thesis using healthy_thread [OF _ thread(2)] assms(2) x thread by auto
  next
    case (stale t l i s0)
    have "healthy_pc (pcs s0 t)" using healthy_stale [OF _ I B P stale(2)] assms(2) x by simp
    then show ?thesis
      using stale(1) stale_moves_on(1) [OF I B P stale(2)] assms(2) x
      by (auto simp: healthy_def moved_on_def)
  qed (use assms(2) x in \<open>auto simp: healthy_def\<close>)
qed

subsection \<open>Both features give the same guarantee\<close>

lemma healthy_events:
  assumes "weak_rel cfg x a" and "healthy (fst x)" and "weak_step cfg x es x'"
  shows "Cancel t \<notin> set es" and "Ret t ret \<in> set es \<Longrightarrow> ret_ok ret"
proof -
  have "Cancel t \<notin> set es \<and> (Ret t ret \<in> set es \<longrightarrow> ret_ok ret)"
    using assms(1,3)
  proof (cases rule: weak_step_cases)
    case (thread u)
    have "healthy_pc (pcs (fst x) u)" using assms(2) by (simp add: healthy_def)
    then show ?thesis
      using thread unfolding thread_step_def
      by (cases "pcs (fst x) u") (auto simp: access_def wake_def split: step_splits)
  qed auto
  then show "Cancel t \<notin> set es" "Ret t ret \<in> set es \<Longrightarrow> ret_ok ret" by auto
qed

lemma spec_std:
  assumes "spec_run cfg es a = Some b" and "\<forall>t. Cancel t \<notin> set es"
    and "\<forall>t ret. Ret t ret \<in> set es \<longrightarrow> ret_ok ret"
  shows "spec_run Std es a = Some b"
  using assms
proof (induction es arbitrary: a)
  case (Cons e es)
  then obtain c where c: "spec_step cfg e a = Some c" "spec_run cfg es c = Some b"
    by (auto simp: bind_eq_Some_conv)
  have "spec_step Std e a = Some c"
  proof (cases e)
    case (Ret t ret)
    then have "ret_ok ret" using Cons.prems(3) by auto
    then obtain v where "ret = Ok v" by (cases ret) auto
    with c(1) Ret show ?thesis by (cases "phase a t") (auto split: if_splits outcome.splits)
  qed (use c(1) Cons.prems(2) in auto)
  then show ?case using Cons.IH [OF c(2)] Cons.prems(2,3) by (simp del: spec_step.simps)
qed simp

lemma spec_keeps_all:
  assumes "spec_run cfg es c = Some a" and "J (sdata c)" and "\<forall>t. phase_keeps J Q (phase c t)"
    and "\<forall>t f. Call t f \<in> set es \<longrightarrow> task_keeps J Q f"
  shows "J (sdata a) \<and> (\<forall>t. phase_keeps J Q (phase a t)) \<and>
    (cfg = Std \<longrightarrow> (\<forall>t ret. Ret t ret \<in> set es \<longrightarrow> Q ret))"
  using assms
proof (induction es arbitrary: c)
  case (Cons e es)
  obtain b where b: "spec_step cfg e c = Some b" "spec_run cfg es b = Some a"
    using Cons.prems(1) by (auto simp: bind_eq_Some_conv)
  have "\<forall>t f. e = Call t f \<longrightarrow> task_keeps J Q f" using Cons.prems(4) by auto
  note k = spec_keeps_step [OF Cons.prems(2,3) this b(1)]
  then show ?case using Cons.IH [OF b(2)] Cons.prems(4) by auto
qed simp

lemma rel_data: "weak_rel cfg x a \<Longrightarrow> data (fst x) = sdata a"
  using inv_parts(4) by (cases x) (fastforce simp: weak_rel_def spec_inv_def)

lemma rel_quiet: "weak_rel cfg x a \<Longrightarrow> pcs (fst x) t = Idle \<Longrightarrow> phase a t = Quiet"
  using inv_parts(5) [of cfg "fst x" _ t] by (cases x) (fastforce simp: weak_rel_def)

lemma panic_free_run:
  assumes "runs (weak_step cfg) w es x" and "weak_rel cfg w c" and "healthy (fst w)" and "J (sdata c)"
    and "\<forall>t. phase_keeps J Q (phase c t)" and "\<forall>t f. Call t f \<in> set es \<longrightarrow> task_keeps J Q f"
    and "\<And>ret. Q ret \<Longrightarrow> ret_ok ret"
  shows "\<exists>a. weak_rel cfg x a \<and> healthy (fst x) \<and> J (sdata a) \<and>
    (\<forall>t. phase_keeps J Q (phase a t)) \<and> spec_run Std es c = Some a \<and> (\<forall>t ret. Ret t ret \<in> set es \<longrightarrow> Q ret)"
  using assms(1-6)
proof (induction rule: runs.induct)
  case (start w)
  then show ?case by auto
next
  case (more w es x fs x')
  then obtain a where a: "weak_rel cfg x a" "healthy (fst x)" "J (sdata a)"
    "\<forall>t. phase_keeps J Q (phase a t)" "spec_run Std es c = Some a"
    "\<forall>t ret. Ret t ret \<in> set es \<longrightarrow> Q ret" by auto
  obtain b where b: "spec_run cfg fs a = Some b" "weak_rel cfg x' b"
    using weak_step_refines [OF a(1) more(2)] by blast
  have "returns (snd (f (data (fst x))))" if "phase a c = Pending f" for c f
    using spec [OF a(4), of c] a(3) that assms(7) [of "ret_of (snd (f (sdata a)))"]
    by (simp add: task_keeps_def rel_data [OF a(1)])
  then have "healthy (fst x')" using healthy_step [OF a(1,2) more(2)] by blast
  moreover have s: "spec_run Std fs a = Some b"
    using spec_std [OF b(1)] healthy_events [OF a(1,2) more(2)] by blast
  moreover have "J (sdata b) \<and> (\<forall>t. phase_keeps J Q (phase b t)) \<and> (\<forall>t ret. Ret t ret \<in> set fs \<longrightarrow> Q ret)"
    using spec_keeps_all [OF s a(3,4)] more.prems(5) by auto
  moreover have "spec_run Std (es @ fs) c = spec_run Std fs a"
    using a(5) by (simp add: spec_run_append)
  ultimately show ?case using b(2) a(6) by (intro exI [of _ b]) auto
qed

text \<open>
  It is enough that the executor with \<open>std\<close> never runs a task that panics, whatever the tasks would
  do on data they do not meet.
\<close>

lemma panic_free_spec:
  assumes "runs (weak_step cfg) w es x" and "weak_rel cfg w c" and "healthy (fst w)"
    and "\<And>fs gs a t f. es = fs @ gs \<Longrightarrow> spec_run Std fs c = Some a \<Longrightarrow> phase a t = Pending f \<Longrightarrow>
      returns (snd (f (sdata a)))"
  shows "\<exists>a. weak_rel cfg x a \<and> healthy (fst x) \<and> spec_run Std es c = Some a"
  using assms
proof (induction rule: runs.induct)
  case (start w)
  then show ?case by auto
next
  case (more w es x fs x')
  have "\<exists>a. weak_rel cfg x a \<and> healthy (fst x) \<and> spec_run Std es c = Some a"
  proof (rule more.IH [OF more.prems(1,2)])
    fix gs hs a t f
    assume "es = gs @ hs" "spec_run Std gs c = Some a" "phase a t = Pending f"
    then show "returns (snd (f (sdata a)))" using more.prems(3) [of gs "hs @ fs" a t f] by simp
  qed
  then obtain a where a: "weak_rel cfg x a" "healthy (fst x)" "spec_run Std es c = Some a" by blast
  obtain b where b: "spec_run cfg fs a = Some b" "weak_rel cfg x' b"
    using weak_step_refines [OF a(1) more(2)] by blast
  have "returns (snd (f (data (fst x))))" if "phase a c = Pending f" for c f
    using more.prems(3) [OF refl a(3) that] by (simp add: rel_data [OF a(1)])
  then have "healthy (fst x')" using healthy_step [OF a(1,2) more(2)] by blast
  moreover have "spec_run Std fs a = Some b"
    using spec_std [OF b(1)] healthy_events [OF a(1,2) more(2)] by blast
  then have "spec_run Std (es @ fs) c = Some b" using a(3) by (simp add: spec_run_append)
  ultimately show ?case using b(2) by blast
qed

lemma panic_free:
  assumes "lock_runs cfg d es s" and "J d" and "\<forall>t f. Call t f \<in> set es \<longrightarrow> task_keeps J Q f"
    and "\<And>ret. Q ret \<Longrightarrow> ret_ok ret"
  shows "\<exists>a. spec_run Std es (spec_init d) = Some a \<and> data s = sdata a \<and>
      (\<forall>t. pcs s t = Idle \<longrightarrow> phase a t = Quiet)" and "J (data s)"
    and "\<forall>t ret. Ret t ret \<in> set es \<longrightarrow> Q ret"
proof -
  obtain h y where "lock_world cfg d es (s, h, y)" using assms(1) by (auto simp: lock_runs_def)
  from panic_free_run [OF this weak_rel_init, of J Q] assms(2-4) obtain a where
    a: "weak_rel cfg (s, h, y) a" "J (sdata a)" "spec_run Std es (spec_init d) = Some a"
    "\<forall>t ret. Ret t ret \<in> set es \<longrightarrow> Q ret"
    using healthy_init [of d] by (auto simp: world_init_def spec_init_def)
  have d: "data s = sdata a" using rel_data [OF a(1)] by simp
  have q: "pcs s t = Idle \<longrightarrow> phase a t = Quiet" for t using rel_quiet [OF a(1), of t] by simp
  show "\<exists>a. spec_run Std es (spec_init d) = Some a \<and> data s = sdata a \<and>
      (\<forall>t. pcs s t = Idle \<longrightarrow> phase a t = Quiet)" using a(3) d q by blast
  show "J (data s)" "\<forall>t ret. Ret t ret \<in> set es \<longrightarrow> Q ret" using a(2,4) d by auto
qed

text \<open>A lock that is at rest and not poisoned is healthy.\<close>

lemma healthy_rest:
  assumes "weak_rel cfg (s, z) a" and "\<forall>t. pcs s t = Idle" and "status (raw s) \<noteq> RAW_POISONED"
  shows "healthy s"
proof -
  obtain g where "inv cfg s g" using assms(1) by (cases z) (auto simp: weak_rel_def)
  then have "heap s t = None" for t using inv_parts(5) [of cfg s g t] assms(2) by auto
  then show ?thesis using assms(2,3) by (simp add: healthy_def)
qed

text \<open>When no task runs any more, every call that was not open is refused.\<close>

lemma spec_refused:
  assumes "spec_run cfg es c = Some a" and "\<forall>t. phase c t = Quiet" and "\<forall>t. Exec t \<notin> set es"
  shows "Ret t ret \<in> set es \<Longrightarrow> ret = Err"
proof -
  have "\<forall>t. (\<forall>out. phase a t \<noteq> Finished out) \<and> (\<forall>ret. Ret t ret \<in> set es \<longrightarrow> ret = Err)"
    using assms
  proof (induction es arbitrary: a rule: rev_induct)
    case (snoc e es)
    then obtain b where b: "spec_run cfg es c = Some b" "spec_step cfg e b = Some a"
      by (auto simp: spec_run_snoc)
    have "\<forall>t. (\<forall>out. phase b t \<noteq> Finished out) \<and> (\<forall>ret. Ret t ret \<in> set es \<longrightarrow> ret = Err)"
      using snoc.IH [OF b(1) snoc.prems(2)] snoc.prems(3) by auto
    with b(2) snoc.prems(3) show ?case
      by (cases e; auto split: phase.splits if_splits) (metis allowed.simps(1,2) phase.exhaust)+
  qed simp
  then show "Ret t ret \<in> set es \<Longrightarrow> ret = Err" by blast
qed

end
