(* ===== verification/Poison_Theorems.thy ===== *)
theory Poison_Theorems
  imports Lam_Healthy
begin

section \<open>The properties of the poisonable lock\<close>

text \<open>
  What poisoning gives the user of \<open>poison::Lock\<close> on every run of any number of threads. The
  witnesses use a counter whose invariant is to be even: \<open>tear\<close> panics half way, leaving it odd,
  \<open>mend\<close> repairs it.
\<close>

definition tear :: "(nat, nat, nat) task" where
  "tear = (\<lambda>d. (d + 1, Panic 7))"

definition mend :: "(nat, bool, nat) task" where
  "mend = (\<lambda>d. (2 * d, Return True))"

definition bump :: "(nat, nat, nat) task" where
  "bump = (\<lambda>d. (d + 2, Return d))"

abbreviation solo :: "('d, 'r, 'p) pop \<Rightarrow> ('d pdata, 'r pres, 'p) move list" where
  "solo k \<equiv> Enter 0 (ptask k) # replicate 5 (Move 0)"

lemmas poison_eval = schedule_eval run_task_def poison_task_def unpoison_task_def plock_new_def
  tear_def mend_def bump_def eval_nat_numeral

text \<open>Torn, rejected, mended and used again.\<close>

lemma demo_poison:
  "\<exists>(s :: (nat pdata, nat pres, nat) sys) es. lock_runs Std (plock_new 4) es s \<and> (\<forall>t. pcs s t = Idle) \<and> data s = (5, True) \<and>
     tail (raw s) = None \<and> status (raw s) = UNLOCKED"
proof -
  have "\<exists>(s :: (nat pdata, nat pres, nat) sys) es. schedule Std (solo (PRun tear)) (sys_init (plock_new 4)) = Some (es, s) \<and>
    (\<forall>t. pcs s t = Idle) \<and> data s = (5, True) \<and>
    tail (raw s) = None \<and> status (raw s) = UNLOCKED"
    by (simp add: poison_eval)
  then show ?thesis by (blast intro: schedule_lock_runs)
qed

lemma demo_mended:
  "\<exists>s. lock_runs Std (plock_new 4) [Call 0 (ptask (PRun tear)), Exec 0, Ret 0 (Unwind 7),
      Call 0 (ptask (PTryUnpoison mend)), Exec 0, Ret 0 (Ok (Unpoisoned True))] s \<and>
     data s = (10, False)"
proof -
  have "\<exists>s. schedule Std (solo (PRun tear) @ solo (PTryUnpoison mend)) (sys_init (plock_new 4)) =
    Some ([Call 0 (ptask (PRun tear)), Exec 0, Ret 0 (Unwind 7),
      Call 0 (ptask (PTryUnpoison mend)), Exec 0, Ret 0 (Ok (Unpoisoned True))], s) \<and>
     data s = (10, False)"
    by (simp add: poison_eval)
  then show ?thesis by (blast intro: schedule_lock_runs)
qed

lemma guarded_keeps:
  assumes "honours I k"
  shows "task_keeps (guarded I) (\<lambda>_. True) (ptask k)"
  using guarded_ptask [OF assms] by (simp add: task_keeps_def)

text \<open>C3. Poisoning protects an invariant of the data: if every closure given to \<open>run\<close> restores it
  before returning (it may break it and unwind), and recovery answers \<open>true\<close> only after
  restoring it, then the data satisfies it whenever the lock is not poisoned, whoever ran the
  closures. So no closure of \<open>run\<close> ever sees data that a panic left broken.\<close>

theorem poison_protects:
  assumes "lock_runs cfg (plock_new d) es s" and "I d"
    and "\<forall>t f. Call t f \<in> set es \<longrightarrow> (\<exists>k. f = ptask k \<and> honours I k)"
  shows "snd (data s) \<or> I (fst (data s))"
proof -
  have "\<forall>t f. Call t f \<in> set es \<longrightarrow> task_keeps (guarded I) (\<lambda>_. True) f"
    using assms(3) guarded_keeps by blast
  moreover have "guarded I (plock_new d)" using assms(2) by (simp add: guarded_def plock_new_def)
  ultimately have "guarded I (data s)" using lock_keeps [OF assms(1)] by blast
  then show ?thesis by (simp add: guarded_def)
qed

theorem poison_protects_witness:
  "\<exists>(s :: (nat pdata, nat pres, nat) sys) es. lock_runs Std (plock_new 4) es s \<and> \<not> snd (data s) \<and>
     even (fst (data s))"
proof -
  let ?es = "[Call 0 (ptask (PRun tear)), Exec 0, Ret 0 (Unwind 7),
      Call 0 (ptask (PTryUnpoison mend)), Exec 0, Ret 0 (Ok (Unpoisoned True))]"
  obtain s where s: "lock_runs Std (plock_new 4) ?es s" "data s = (10, False)"
    using demo_mended by blast
  have "honours even (PRun tear)" "honours even (PTryUnpoison mend)"
    by (auto simp: honours_def tear_def mend_def)
  then have "\<forall>t f. Call t f \<in> set ?es \<longrightarrow> (\<exists>k. f = ptask k \<and> honours even k)"
    by (simp del: ptask.simps) blast
  from poison_protects [OF s(1) _ this] s(2) have "even (fst (data s))" by simp
  with s show ?thesis by (intro exI [of _ s] exI [of _ ?es]) simp
qed

lemma poisoned_keeps:
  fixes d :: 'd
  defines "Q \<equiv> \<lambda>ret :: ('r pres, 'p) ret. run_answer ret = Some (Inl LockPoisoned) \<or>
    poison_answer ret = Some (Inl LockPoisoned)"
  shows "task_keeps (\<lambda>z. z = (d, True)) (\<lambda>ret. ret_ok ret \<and> Q ret) (ptask (PRun g))"
    and "task_keeps (\<lambda>z. z = (d, True)) (\<lambda>ret. ret_ok ret \<and> Q ret) (ptask PPoison)"
  by (simp_all add: Q_def task_keeps_def run_task_def poison_task_def)

lemma poisoned_runs:
  assumes "lock_world cfg d es x" and "\<forall>t. pcs (fst x) t = Idle" and "snd (data (fst x))"
    and "runs (weak_step cfg) x fs x'"
    and "\<forall>t f. Call t f \<in> set fs \<longrightarrow> (\<exists>g. f = ptask (PRun g)) \<or> f = ptask PPoison"
  shows "data (fst x') = data (fst x) \<and>
    (\<forall>t ret. Ret t ret \<in> set fs \<longrightarrow>
      run_answer ret = Some (Inl LockPoisoned) \<or> poison_answer ret = Some (Inl LockPoisoned))"
proof -
  let ?J = "\<lambda>z. z = (fst (data (fst x)), True)"
  let ?Q = "\<lambda>ret. run_answer ret = Some (Inl LockPoisoned) \<or>
    poison_answer ret = Some (Inl LockPoisoned)"
  have keeps: "task_keeps ?J (\<lambda>ret. ret_ok ret \<and> ?Q ret) f" if "Call t f \<in> set fs" for t f
  proof -
    have "(\<exists>g. f = ptask (PRun g)) \<or> f = ptask PPoison" using assms(5) that by blast
    then show ?thesis by (elim disjE exE; simp only: poisoned_keeps)
  qed
  obtain a where a: "weak_rel cfg x a" using lock.runs_refine [OF assms(1) weak_rel_init] by blast
  have q: "\<forall>t. phase a t = Quiet" using rel_quiet [OF a] assms(2) by blast
  have J: "?J (data (fst x))" using assms(3) by (simp add: prod_eq_iff)
  show ?thesis
  proof (cases "status (raw (fst x)) = RAW_POISONED")
    case True
    note D = disabled_runs [OF assms(1) True assms(4)]
    obtain b where b: "spec_run cfg fs a = Some b" using lock.runs_refine [OF assms(4) a] by blast
    have "run_answer ret = Some (Inl LockPoisoned)" if "Ret t ret \<in> set fs" for t ret
      using spec_refused [OF b q _ that] D by simp
    then show ?thesis using D by blast
  next
    case False
    then have "healthy (fst x)" using healthy_rest [of cfg "fst x" "snd x" a] a assms(2) by simp
    from panic_free_run [OF assms(4) a this, of ?J "\<lambda>ret. ret_ok ret \<and> ?Q ret"] keeps J q rel_data [OF a]
    obtain b where b: "weak_rel cfg x' b" "?J (sdata b)" "\<forall>t ret. Ret t ret \<in> set fs \<longrightarrow> ?Q ret" by auto
    then show ?thesis using J rel_data [OF b(1)] by simp
  qed
qed

text \<open>C24. Poison is sticky: from a moment with no call open at which the lock is poisoned, as long as
  nobody submits a recovery, the data and the flag never change, and every \<open>run\<close> and \<open>poison\<close> call
  returns \<open>LockPoisoned\<close>, with either feature, even if an earlier panic has disabled the raw lock.\<close>

theorem poison_sticky:
  assumes "lock_world cfg d es x" and "\<forall>t. pcs (fst x) t = Idle" and "snd (data (fst x))"
    and "runs (weak_step cfg) x fs x'"
    and "\<forall>t f. Call t f \<in> set fs \<longrightarrow> (\<exists>g. f = ptask (PRun g)) \<or> f = ptask PPoison"
  shows "data (fst x') = data (fst x) \<and>
    (\<forall>t ret. Ret t ret \<in> set fs \<longrightarrow>
      run_answer ret = Some (Inl LockPoisoned) \<or> poison_answer ret = Some (Inl LockPoisoned))"
  using assms by (rule poisoned_runs)

theorem poison_sticky_witness:
  "\<exists>(x :: (nat pdata, nat pres, nat) sys \<times> hb \<times> history) x' fs. runs (weak_step Std) x fs x' \<and>
     data (fst x') = (5, True) \<and> Ret 0 (Ok (RanOk (Inl LockPoisoned))) \<in> set fs"
proof -
  obtain s :: "(nat pdata, nat pres, nat) sys" and es where s:
    "lock_runs Std (plock_new 4) es s" "\<forall>t. pcs s t = Idle" "data s = (5, True)"
    "tail (raw s) = None" "status (raw s) = UNLOCKED"
    using demo_poison by blast
  then obtain h y where w: "lock_world Std (plock_new 4) es (s, h, y)" by (auto simp: lock_runs_def)
  let ?fs = "[Call 0 (ptask (PRun bump)), Exec 0, Ret 0 (Ok (RanOk (Inl LockPoisoned)))]"
  have "\<exists>s'. schedule Std (solo (PRun bump)) s = Some (?fs, s')"
    using fast_path_schedule [of s 0 Std "ptask (PRun bump)"] s by (simp add: run_task_def)
  then obtain s' z where r: "runs (weak_step Std) (s, h, y) ?fs (s', z)" using schedule_runs by blast
  have "\<forall>t f. Call t f \<in> set ?fs \<longrightarrow> (\<exists>g. f = ptask (PRun g)) \<or> f = ptask PPoison"
    by (simp del: ptask.simps) blast
  from poison_sticky [OF w _ _ r this] s(2,3) have "data s' = (5, True)" by simp
  with r show ?thesis
    by (intro exI [of _ "(s, h, y)"] exI [of _ "(s', z)"] exI [of _ ?fs]) simp
qed

text \<open>C25. A closure that unwinds on a free, unpoisoned lock leaves the flag set and gives its panic to
  its caller; the next \<open>run\<close>, by whichever thread, returns \<open>LockPoisoned\<close>, and its closure
  does not touch the data. The raw lock is free again after both calls, in both features.\<close>

theorem poison_after_panic:
  assumes "pcs s t = Idle" and "pcs s u = Idle" and "tail (raw s) = None"
    and "status (raw s) = UNLOCKED" and "data s = (d, False)" and "f d = (d', Panic p)"
  shows "schedule cfg ((Enter t (ptask (PRun f)) # replicate 5 (Move t)) @
      (Enter u (ptask (PRun g)) # replicate 5 (Move u))) s =
    Some ([Call t (ptask (PRun f)), Exec t, Ret t (Unwind p)] @
      [Call u (ptask (PRun g)), Exec u, Ret u (Ok (RanOk (Inl LockPoisoned)))],
      s\<lparr>data := (d', True)\<rparr>)"
proof (rule schedule_append)
  show "schedule cfg (Enter t (ptask (PRun f)) # replicate 5 (Move t)) s =
      Some ([Call t (ptask (PRun f)), Exec t, Ret t (Unwind p)], s\<lparr>data := (d', True)\<rparr>)"
    using assms by (subst fast_path_schedule) (simp_all add: run_task_def)
  show "schedule cfg (Enter u (ptask (PRun g)) # replicate 5 (Move u)) (s\<lparr>data := (d', True)\<rparr>) =
      Some ([Call u (ptask (PRun g)), Exec u, Ret u (Ok (RanOk (Inl LockPoisoned)))],
        s\<lparr>data := (d', True)\<rparr>)"
    using assms by (subst fast_path_schedule) (simp_all add: run_task_def)
qed

theorem poison_after_panic_witness:
  "\<exists>es s. schedule NoStd ((Enter 0 (ptask (PRun tear)) # replicate 5 (Move 0)) @
      (Enter 1 (ptask (PRun bump)) # replicate 5 (Move 1))) (sys_init (plock_new 4)) = Some (es, s) \<and>
     Ret 1 (Ok (RanOk (Inl LockPoisoned))) \<in> set es \<and> data s = (5, True)"
  using poison_after_panic [of "sys_init (plock_new 4)" 0 1 4 tear 5 7 NoStd bump]
  by (simp add: sys_init_def raw_new_def plock_new_def tear_def)

text \<open>
  Recovery by a thread that finds the lock at rest and poisoned and runs on its own. While the raw lock
  is usable, the closure runs on the data as the panic left it; the call returns what the closure
  answered and clears the poison exactly if that is \<open>true\<close>; if the closure panics the lock stays
  poisoned. When an earlier panic has disabled the raw lock, which
  happens without \<open>std\<close> only, the closure does not run, nothing changes,
  and the call returns \<open>LockPoisoned\<close>.
\<close>

theorem unpoison_result:
  assumes "pcs s t = Idle" and "tail (raw s) = None" and "data s = (d, True)" and "g d = (d', out)"
  shows "status (raw s) = UNLOCKED \<Longrightarrow>
      \<exists>ret. schedule cfg (Enter t (ptask (PTryUnpoison g)) # replicate 5 (Move t)) s =
        Some ([Call t (ptask (PTryUnpoison g)), Exec t, Ret t ret],
          s\<lparr>data := (d', out \<noteq> Return True)\<rparr>) \<and>
      (case out of Return b \<Rightarrow> unpoison_answer ret = Some (Inr b) | Panic p \<Rightarrow> ret = Unwind p)"
    and "status (raw s) = RAW_POISONED \<Longrightarrow>
      schedule NoStd (Enter t (ptask (PTryUnpoison g)) # replicate 3 (Move t)) s =
        Some ([Call t (ptask (PTryUnpoison g)), Ret t Err], s) \<and>
      unpoison_answer (Err :: ('c pres, 'd) ret) = Some (Inl LockPoisoned)"
proof -
  assume "status (raw s) = UNLOCKED"
  then show "\<exists>ret. schedule cfg (Enter t (ptask (PTryUnpoison g)) # replicate 5 (Move t)) s =
        Some ([Call t (ptask (PTryUnpoison g)), Exec t, Ret t ret],
          s\<lparr>data := (d', out \<noteq> Return True)\<rparr>) \<and>
      (case out of Return b \<Rightarrow> unpoison_answer ret = Some (Inr b) | Panic p \<Rightarrow> ret = Unwind p)"
    using fast_path_schedule [OF assms(1,2), of cfg "ptask (PTryUnpoison g)"] assms(3,4)
    by (cases out) (simp_all add: unpoison_task_def)
next
  assume "status (raw s) = RAW_POISONED"
  then show "schedule NoStd (Enter t (ptask (PTryUnpoison g)) # replicate 3 (Move t)) s =
        Some ([Call t (ptask (PTryUnpoison g)), Ret t Err], s) \<and>
      unpoison_answer (Err :: ('c pres, 'd) ret) = Some (Inl LockPoisoned)"
    using assms(1,2) by (simp add: schedule_eval raw_defs eval_nat_numeral fun_upd_idem)
qed

theorem unpoison_result_witness:
  "\<exists>(ret :: (nat pres, nat) ret) s. schedule Std (Enter 2 (ptask (PTryUnpoison mend)) # replicate 5 (Move 2))
      (sys_init (5, True)) = Some ([Call 2 (ptask (PTryUnpoison mend)), Exec 2, Ret 2 ret], s) \<and>
     unpoison_answer ret = Some (Inr True) \<and> data s = (10, False)"
proof -
  let ?s = "sys_init (5, True) :: (nat pdata, nat pres, nat) sys"
  have h: "pcs ?s 2 = Idle" "tail (raw ?s) = None" "data ?s = (5, True)" "mend 5 = (10, Return True)"
    and free: "status (raw ?s) = UNLOCKED"
    by (simp_all add: sys_init_def raw_new_def mend_def)
  from unpoison_result(1) [where s = ?s and t = 2 and d = 5 and g = mend and d' = 10 and
      out = "Return True" and cfg = Std, OF h free] obtain ret where
    "schedule Std (Enter 2 (ptask (PTryUnpoison mend)) # replicate 5 (Move 2)) ?s =
      Some ([Call 2 (ptask (PTryUnpoison mend)), Exec 2, Ret 2 ret], ?s\<lparr>data := (10, False)\<rparr>)"
    "unpoison_answer ret = Some (Inr True)" by auto
  then show ?thesis
    by (intro exI [of _ ret] exI [of _ "?s\<lparr>data := (10, False)\<rparr>"]) simp
qed

text \<open>With \<open>std\<close>, \<open>nonpoison::Lock::run\<close> never panics on its own account: what a call
  gives, value or panic, is what its task gave, whatever the lock's panic message.\<close>

theorem nonpoison_run_transparent:
  assumes "lock_runs Std d es s" and "Ret t ret \<in> set es"
  shows "\<exists>out. ret = ret_of out \<and> nonpoison_run message ret = out"
proof -
  let ?Q = "\<lambda>ret. \<exists>out. ret = ret_of out \<and> nonpoison_run message ret = out"
  have "nonpoison_run message (ret_of out) = out" for out by (cases out) simp_all
  then have "?Q (ret_of out)" for out by blast
  then have "\<forall>t f. Call t f \<in> set es \<longrightarrow> task_keeps (\<lambda>_. True) ?Q f"
    unfolding task_keeps_def by blast
  then show ?thesis using lock_keeps [OF assms(1), of "\<lambda>_. True" ?Q] assms(2) by blast
qed

theorem nonpoison_run_transparent_witness:
  "\<exists>(s :: (nat pdata, nat pres, nat) sys) es. lock_runs Std (plock_new 4) es s \<and> nonpoison_run 0 (Unwind 7 :: (nat pres, nat) ret) = Panic 7"
proof -
  obtain s where s: "lock_runs Std (plock_new 4) [Call 0 (ptask (PRun tear)), Exec 0, Ret 0 (Unwind 7),
      Call 0 (ptask (PTryUnpoison mend)), Exec 0, Ret 0 (Ok (Unpoisoned True))] s"
    using demo_mended by blast
  have "\<exists>out. (Unwind 7 :: (nat pres, nat) ret) = ret_of out \<and> nonpoison_run 0 (Unwind 7) = out"
    by (rule nonpoison_run_transparent [OF s]) simp
  with s show ?thesis by auto
qed

end
