(* ===== verification/Lam_Clients.thy ===== *)
theory Lam_Clients
  imports Lam_Healthy
begin

section \<open>Clients whose tasks do not panic\<close>

subsection \<open>The test of many threads (\<open>multi_thread_test\<close> of \<open>poison.rs\<close>)\<close>

text \<open>
  The tests keep an \<open>i32\<close>: an \<open>int\<close> whose overflow panics in the debug profile and wraps without
  checks. A task that only changes the data answers \<open>Inl ()\<close>, one that reads them \<open>Inr\<close> what it has
  read; a panic message is a string.
\<close>

definition i32_value :: "profile \<Rightarrow> int \<Rightarrow> int option" where
  "i32_value p x =
     (if - (2 ^ 31) \<le> x \<and> x < 2 ^ 31 then Some x
      else if p = Debug then None
      else Some ((x + 2 ^ 31) mod 2 ^ 32 - 2 ^ 31))"

definition add_assign :: "profile \<Rightarrow> int \<Rightarrow> (int, unit + int, string) task" where
  "add_assign p d = (\<lambda>data.
     case i32_value p (data + d) of
       None \<Rightarrow> (data, Panic ''attempt to add with overflow'')
     | Some x \<Rightarrow> (x, Return (Inl ())))"

definition observe :: "('d, unit + 'd, string) task" where
  "observe = (\<lambda>d. (d, Return (Inr d)))"

text \<open>
  Thread \<open>i\<close> of \<open>cnt\<close> adds \<open>cnt - i\<close> to the number in the lock, once. When they have all ended, the
  thread \<open>m\<close> that started them reads the number.
\<close>

definition add_share :: "profile \<Rightarrow> nat \<Rightarrow> tid \<Rightarrow> (int, unit + int, string) task" where
  "add_share p cnt i = (\<lambda>data.
     case i32_value p (int cnt - int i) of
       None \<Rightarrow> (data, Panic ''attempt to subtract with overflow'')
     | Some d \<Rightarrow> add_assign p d data)"

definition share_calls :: "profile \<Rightarrow> nat \<Rightarrow> (int pdata, (unit + int) pres, string) event list \<Rightarrow> bool" where
  "share_calls p cnt es \<longleftrightarrow>
     (\<forall>t f. Call t f \<in> set es \<longrightarrow> t < cnt \<and> f = ptask (PRun (add_share p cnt t))) \<and>
     (\<forall>t < cnt. calls t es \<le> 1)"

definition multi_thread_calls ::
    "profile \<Rightarrow> nat \<Rightarrow> tid \<Rightarrow> (int pdata, (unit + int) pres, string) event list \<Rightarrow>
     (int pdata, (unit + int) pres, string) event list \<Rightarrow> bool" where
  "multi_thread_calls p cnt m es fs \<longleftrightarrow>
     (\<forall>t f. Call t f \<in> set es \<longrightarrow> t < cnt \<and> f = ptask (PRun (add_share p cnt t))) \<and>
     (\<forall>t < cnt. calls t es = 1) \<and>
     (\<forall>t f. Call t f \<in> set fs \<longrightarrow> t = m \<and> f = ptask (PRun observe)) \<and> calls m fs = 1"

text \<open>The threads count to at most 46340, so that \<open>cnt * (cnt + 1)\<close> is an \<open>i32\<close>.\<close>

abbreviation share_sum :: "nat \<Rightarrow> (int pdata, (unit + int) pres, string) event list \<Rightarrow> nat" where
  "share_sum cnt es \<equiv> (\<Sum>t < cnt. execs t es * (cnt - t))"

lemma sum_shares: "(\<Sum>t < cnt. cnt - t) = cnt * (cnt + 1) div (2 :: nat)"
proof -
  have "(\<Sum>t < cnt. cnt - t) = (\<Sum>t < cnt. Suc t)"
    unfolding sum.nat_diff_reindex [of Suc cnt, symmetric] by (rule sum.cong) auto
  also have "\<dots> = cnt * (cnt + 1) div 2" by (induction cnt) simp_all
  finally show ?thesis .
qed

lemma i32_nat:
  assumes "k < 2 ^ 31"
  shows "i32_value p (int k) = Some (int k)"
proof -
  have "int k < int (2 ^ 31)" using assms by (simp only: of_nat_less_iff)
  then show ?thesis by (simp add: i32_value_def)
qed

lemma share_fits:
  assumes "cnt \<le> 46340" and "t < cnt" and "execs t es = 0" and "\<And>u. u < cnt \<Longrightarrow> execs u es \<le> 1"
  shows "add_share p cnt t (int (share_sum cnt es)) = (int (share_sum cnt es + (cnt - t)), Return (Inl ()))"
proof -
  have "share_sum cnt es + (cnt - t) = (\<Sum>u < cnt. execs u es * (cnt - u) + (if u = t then cnt - u else 0))"
    using assms(2) by (simp add: sum.distrib)
  also have "\<dots> \<le> (\<Sum>u < cnt. cnt - u)"
    using assms(3,4) by (intro sum_mono) (auto simp: le_Suc_eq)
  also have "\<dots> \<le> 46340 * (46340 + 1) div 2"
    unfolding sum_shares using assms(1) by (intro div_le_mono mult_le_mono) simp_all
  finally have sum: "share_sum cnt es + (cnt - t) < 2 ^ 31" by simp
  have d: "i32_value p (int cnt - int t) = Some (int (cnt - t))"
    using assms(1,2) by (simp add: i32_value_def of_nat_diff)
  from i32_nat [OF sum, of p]
  have "i32_value p (int (share_sum cnt es) + int (cnt - t)) = Some (int (share_sum cnt es + (cnt - t)))"
    by (simp only: of_nat_add)
  then show ?thesis by (simp add: add_share_def add_assign_def d del: of_nat_sum of_nat_add)
qed

text \<open>Executed one by one, the shares add up.\<close>

lemma shares_add_up:
  assumes "spec_run Std es (spec_init (plock_new 0)) = Some a" and "share_calls p cnt es" and "cnt \<le> 46340"
  shows "sdata a = (int (share_sum cnt es), False) \<and>
    (\<forall>t f. phase a t = Pending f \<longrightarrow> t < cnt \<and> execs t es = 0 \<and> f = ptask (PRun (add_share p cnt t))) \<and>
    (\<forall>t out. phase a t = Finished out \<longrightarrow> out = Return (RanOk (Inr (Inl ())))) \<and>
    (\<forall>t ret. Ret t ret \<in> set es \<longrightarrow> run_answer ret = Some (Inr (Inl ())))"
  using assms
proof (induction es arbitrary: a rule: rev_induct)
  case Nil
  then show ?case by (auto simp: spec_init_def plock_new_def execs_def)
next
  case (snoc e es)
  then obtain c where c: "spec_run Std es (spec_init (plock_new 0)) = Some c" "spec_step Std e c = Some a"
    by (auto simp: spec_run_snoc)
  have calls: "share_calls p cnt es" "t < cnt \<Longrightarrow> calls t (es @ [e]) \<le> 1" for t
    using snoc.prems(2) by (auto simp: share_calls_def calls_def split: if_splits)
  note IH = snoc.IH [OF c(1) calls(1) snoc.prems(3)] and C = spec_counts [OF snoc.prems(1)]
  have once: "execs u es \<le> 1" if "u < cnt" for u
  proof -
    have "execs u es \<le> calls u es" using spec_counts(2) [OF c(1), of u] by linarith
    then show ?thesis using calls(1) that by (fastforce simp: share_calls_def)
  qed
  show ?case
  proof (cases e)
    case (Exec t)
    then obtain f where f: "phase c t = Pending f" using c(2) by (auto split: phase.splits)
    then have t: "t < cnt" "execs t es = 0" "f = ptask (PRun (add_share p cnt t))" using IH by auto
    have ex: "execs u (es @ [e]) = execs u es + (if u = t then 1 else 0)" for u
      by (simp add: execs_def Exec)
    then have "share_sum cnt (es @ [e]) = (\<Sum>u < cnt. execs u es * (cnt - u) + (if u = t then cnt - u else 0))"
      by (intro sum.cong) (auto simp: algebra_simps)
    also have "\<dots> = share_sum cnt es + (cnt - t)" using t(1) by (simp add: sum.distrib)
    finally have s: "share_sum cnt (es @ [e]) = share_sum cnt es + (cnt - t)" .
    have "f (sdata c) = ((int (share_sum cnt es + (cnt - t)), False), Return (RanOk (Inr (Inl ()))))"
      using IH share_fits [OF snoc.prems(3) t(1,2) once] t(3)
      by (simp add: run_task_def del: of_nat_add of_nat_sum)
    then have "sdata a = (int (share_sum cnt es + (cnt - t)), False)"
      "phase a = (phase c)(t := Finished (Return (RanOk (Inr (Inl ())))))"
      using c(2) Exec f by (auto split: if_splits simp del: of_nat_add of_nat_sum)
    then show ?thesis unfolding s using Exec IH ex
      by (auto simp del: ptask.simps of_nat_add of_nat_sum)
  next
    case (Ret t ret)
    then have "execs u (es @ [e]) = execs u es" for u by (simp add: execs_def)
    moreover have "allowed Std (phase c t) ret" "a = c\<lparr>phase := (phase c)(t := Quiet)\<rparr>"
      using c(2) Ret by (auto split: if_splits)
    moreover have "out = Return (RanOk (Inr (Inl ())))" if "phase c t = Finished out" for out
      using IH that by blast
    with calculation(2) have "run_answer ret = Some (Inr (Inl ()))" by (cases "phase c t") auto
    ultimately show ?thesis using IH Ret by (auto simp del: of_nat_sum)
  next
    case (Call t f)
    then have ex: "execs u (es @ [e]) = execs u es" for u by (simp add: execs_def)
    have "phase a t = Pending f" using c(2) Call by (auto split: phase.splits)
    moreover have "t < cnt" "f = ptask (PRun (add_share p cnt t))"
      using snoc.prems(2) Call by (auto simp: share_calls_def)
    ultimately have "execs t (es @ [e]) = 0" using C(2) [of t] calls(2) [of t] by simp
    then show ?thesis using c(2) Call IH snoc.prems(2) ex
      by (auto simp: share_calls_def simp del: of_nat_sum split: phase.splits if_splits)
  next
    case (Enq t)
    then have "execs u (es @ [e]) = execs u es" for u by (simp add: execs_def)
    then show ?thesis using c(2) Enq IH by (auto simp del: of_nat_sum split: phase.splits if_splits)
  next
    case (Cancel t)
    then show ?thesis using c(2) by simp
  qed
qed

subsection \<open>The properties\<close>

text \<open>Two threads without \<open>std\<close>, the second one through the queue.\<close>

abbreviation share_moves :: "(int pdata, (unit + int) pres, string) move list" where
  "share_moves \<equiv> [Enter 0 (ptask (PRun (add_share Debug 2 0)))] @ replicate 2 (Move 0) @
     [Enter 1 (ptask (PRun (add_share Debug 2 1)))] @ replicate 6 (Move 1) @ replicate 3 (Move 0) @
     replicate 10 (Move 1)"

abbreviation share_trace :: "(int pdata, (unit + int) pres, string) event list" where
  "share_trace \<equiv> [Call 0 (ptask (PRun (add_share Debug 2 0))), Call 1 (ptask (PRun (add_share Debug 2 1))), Enq 1,
     Exec 0, Ret 0 (Ok (RanOk (Inr (Inl ())))), Exec 1, Ret 1 (Ok (RanOk (Inr (Inl ()))))]"

lemmas share_eval = schedule_eval run_task_def add_share_def add_assign_def i32_value_def plock_new_def
  eval_nat_numeral

lemma demo_shares:
  "\<exists>x. lock_world NoStd (plock_new 0) share_trace x \<and> (\<forall>t. pcs (fst x) t = Idle) \<and>
     tail (raw (fst x)) = None \<and> status (raw (fst x)) = UNLOCKED"
proof -
  have "\<exists>s. schedule NoStd share_moves (sys_init (plock_new 0)) = Some (share_trace, s) \<and>
    (\<forall>t. pcs s t = Idle) \<and> tail (raw s) = None \<and> status (raw s) = UNLOCKED"
    by (simp add: share_eval)
  then obtain s where s: "schedule NoStd share_moves (sys_init (plock_new 0)) = Some (share_trace, s)"
    "\<forall>t. pcs s t = Idle" "tail (raw s) = None" "status (raw s) = UNLOCKED" by blast
  obtain z where "runs (weak_step NoStd) (sys_init (plock_new 0), hb_init, history_init) share_trace (s, z)"
    using schedule_runs [OF s(1)] by blast
  then show ?thesis using s(2-4) by (intro exI [of _ "(s, z)"]) (simp add: world_init_def)
qed

text \<open>C16. The build without \<open>std\<close> differs only when a task panics: if, as long as an invariant of the
  data holds, every submitted task keeps it and does not panic, then with either feature the run is a
  behaviour of the executor with \<open>std\<close>: no task is cancelled, every call returns what its own task
  gave, and no call returns \<open>Err\<close> or unwinds.\<close>

theorem lock_panic_free:
  assumes "lock_runs cfg d es s" and "J d"
    and "\<forall>t f. Call t f \<in> set es \<longrightarrow> (\<forall>x. J x \<longrightarrow> J (fst (f x)) \<and> returns (snd (f x)))"
  shows "(\<exists>a. spec_run Std es (spec_init d) = Some a \<and> data s = sdata a \<and>
      (\<forall>t. pcs s t = Idle \<longrightarrow> phase a t = Quiet)) \<and>
    J (data s) \<and> (\<forall>t ret. Ret t ret \<in> set es \<longrightarrow> ret_ok ret)"
proof -
  have "\<forall>t f. Call t f \<in> set es \<longrightarrow> task_keeps J ret_ok f" using assms(3) by (simp add: task_keeps_def)
  note F = panic_free [OF assms(1,2) this]
  show ?thesis using F by (intro conjI)
qed

theorem lock_panic_free_witness:
  "\<exists>(s :: (nat pdata, nat pres, nat) sys) es. lock_runs NoStd (plock_new 4) es s \<and> Ret 0 (Ok (RanOk (Inr 4))) \<in> set es \<and> even (fst (data s))"
proof -
  let ?f = "ptask (PRun (\<lambda>d. (d + 2, Return d))) :: (nat pdata, nat pres, nat) task"
  have "\<exists>s. schedule NoStd (Enter 0 ?f # replicate 5 (Move 0)) (sys_init (plock_new 4)) =
      Some ([Call 0 ?f, Exec 0, Ret 0 (Ok (RanOk (Inr 4)))], s)"
    by (simp add: schedule_eval run_task_def plock_new_def eval_nat_numeral)
  then obtain s where "schedule NoStd (Enter 0 ?f # replicate 5 (Move 0)) (sys_init (plock_new 4)) =
      Some ([Call 0 ?f, Exec 0, Ret 0 (Ok (RanOk (Inr 4)))], s)" by blast
  then have s: "lock_runs NoStd (plock_new 4) [Call 0 ?f, Exec 0, Ret 0 (Ok (RanOk (Inr 4)))] s"
    by (rule schedule_lock_runs)
  have "\<not> snd (data s) \<and> even (fst (data s))"
    using lock_panic_free [OF s, of "\<lambda>x. \<not> snd x \<and> even (fst x)"]
    by (simp add: plock_new_def run_task_def split: prod.split)
  with s show ?thesis by (intro exI [of _ s] exI [of _ "[Call 0 ?f, Exec 0, Ret 0 (Ok (RanOk (Inr 4)))]"]) simp
qed

text \<open>C29. The test \<open>multi_thread_test\<close> passes on every run, with either feature and in both profiles:
  whichever way the calls of \<open>cnt\<close> threads interleave (the test has 100; any number up to 46340, for which
  \<open>cnt * (cnt + 1)\<close> is an \<open>i32\<close>), no addition overflows, each call returns \<open>Ok\<close> once, and the \<open>run\<close> with which
  the test ends, by a thread that finds all of them returned, reads the sum of the shares.\<close>

theorem multi_thread_test:
  assumes "lock_world cfg (plock_new 0) es x" and "\<forall>t. pcs (fst x) t = Idle"
    and "runs (weak_step cfg) x fs x'" and "pcs (fst x') m = Idle"
    and "multi_thread_calls p cnt m es fs" and "cnt \<le> 46340"
  shows "(\<forall>t ret. Ret t ret \<in> set es \<longrightarrow> run_answer ret = Some (Inr (Inl ()))) \<and> (\<forall>t < cnt. rets t es = 1) \<and>
    (\<forall>t ret. Ret t ret \<in> set fs \<longrightarrow> run_answer ret = Some (Inr (Inr (int cnt * (int cnt + 1) div 2)))) \<and>
    rets m fs = 1"
proof -
  have calls: "share_calls p cnt es" "\<And>t. t < cnt \<Longrightarrow> calls t es = 1" "calls m fs = 1"
    "\<And>t f. Call t f \<in> set fs \<Longrightarrow> t = m \<and> f = ptask (PRun observe)"
    using assms(5) by (auto simp: multi_thread_calls_def share_calls_def)
  have fine: "returns (snd (f (sdata a)))"
    if es: "es = gs @ hs" and a: "spec_run Std gs (spec_init (plock_new 0)) = Some a" and f: "phase a t = Pending f"
    for gs hs a t f
  proof -
    have "share_calls p cnt gs" using calls(1) by (auto simp: es share_calls_def calls_def)
    note S = shares_add_up [OF a this assms(6)]
    then have t: "t < cnt" "execs t gs = 0" "f = ptask (PRun (add_share p cnt t))" using f by auto
    have "execs u gs \<le> 1" if "u < cnt" for u
      using spec_counts(2) [OF a, of u] \<open>share_calls p cnt gs\<close> that by (fastforce simp: share_calls_def)
    from share_fits [OF assms(6) t(1,2) this] S t(3) show ?thesis by (simp add: run_task_def del: of_nat_sum)
  qed
  have h: "healthy (fst (world_init (plock_new 0)))" by (simp add: world_init_def healthy_init)
  have "\<exists>a. weak_rel cfg x a \<and> healthy (fst x) \<and> spec_run Std es (spec_init (plock_new 0)) = Some a"
    by (rule panic_free_spec [OF assms(1) weak_rel_init h]) (rule fine)
  then obtain a where a: "weak_rel cfg x a" "healthy (fst x)"
    "spec_run Std es (spec_init (plock_new 0)) = Some a" by blast
  have q: "\<forall>t. phase a t = Quiet" using rel_quiet [OF a(1)] assms(2) by blast
  note c = spec_counts [OF a(3)] and S = shares_add_up [OF a(3) calls(1) assms(6)]
  have one: "execs t es = 1 \<and> rets t es = 1" if "t < cnt" for t
    using c(1) [of t] c(3) [OF refl, of t] q calls(2) [OF that] by simp
  then have "share_sum cnt es = cnt * (cnt + 1) div 2" by (simp add: sum_shares)
  moreover have "int (cnt * (cnt + 1) div 2) = int cnt * (int cnt + 1) div 2" by (simp add: zdiv_int algebra_simps)
  ultimately have d: "sdata a = (int cnt * (int cnt + 1) div 2, False)" using S by simp
  let ?v = "int cnt * (int cnt + 1) div 2"
  let ?Q = "\<lambda>ret :: ((unit + int) pres, string) ret. run_answer ret = Some (Inr (Inr ?v)) \<and> ret_ok ret"
  have "task_keeps (\<lambda>z. z = (?v, False)) ?Q (ptask (PRun observe))"
    by (simp add: task_keeps_def run_task_def observe_def)
  then have "\<forall>t f. Call t f \<in> set fs \<longrightarrow> task_keeps (\<lambda>z. z = (?v, False)) ?Q f" using calls(4) by blast
  from panic_free_run [OF assms(3) a(1,2), of "\<lambda>z. z = (?v, False)" ?Q] d q this obtain b where
    b: "weak_rel cfg x' b" "spec_run Std fs a = Some b" "\<forall>t ret. Ret t ret \<in> set fs \<longrightarrow> ?Q ret" by auto
  have "spec_run Std (es @ fs) (spec_init (plock_new 0)) = Some b"
    using a(3) b(2) by (simp add: spec_run_append)
  from spec_counts(1) [OF this, of m] rel_quiet [OF b(1) assms(4)] c(1) [of m] q calls(3)
  have "rets m fs = 1" by (simp add: calls_def rets_def)
  then show ?thesis using S one b(3) by blast
qed

theorem multi_thread_test_witness:
  "\<exists>x x'. lock_world NoStd (plock_new 0) share_trace x \<and>
     runs (weak_step NoStd) x [Call 7 (ptask (PRun observe)), Exec 7, Ret 7 (Ok (RanOk (Inr (Inr 3))))] x'"
proof -
  let ?o = "ptask (PRun observe) :: (int pdata, (unit + int) pres, string) task"
  obtain x where x: "lock_world NoStd (plock_new 0) share_trace x" "\<forall>t. pcs (fst x) t = Idle"
    "tail (raw (fst x)) = None" "status (raw (fst x)) = UNLOCKED"
    using demo_shares by blast
  obtain s h y where s: "x = (s, h, y)" by (cases x)
  have fast: "schedule NoStd (Enter 7 ?o # replicate 5 (Move 7)) s =
      Some ([Call 7 ?o, Exec 7, Ret 7 (ret_of (snd (?o (data s))))], s\<lparr>data := fst (?o (data s))\<rparr>)"
    using fast_path_schedule [of s 7 NoStd ?o] x(2-4) s by simp
  let ?fs = "[Call 7 ?o, Exec 7, Ret 7 (ret_of (snd (?o (data s))))]"
  obtain z where r: "runs (weak_step NoStd) x ?fs (s\<lparr>data := fst (?o (data s))\<rparr>, z)"
    using schedule_runs [OF fast] s by blast
  have "multi_thread_calls Debug 2 7 share_trace ?fs"
    by (auto simp: multi_thread_calls_def calls_def less_2_cases_iff)
  from multi_thread_test [OF x(1,2) r _ this] x(2) s have
    "run_answer (ret_of (snd (?o (data s)))) = Some (Inr (Inr 3))" by simp
  then have "ret_of (snd (?o (data s))) = Ok (RanOk (Inr (Inr 3)))"
    by (cases "ret_of (snd (?o (data s)))" rule: run_answer.cases) auto
  with r have "runs (weak_step NoStd) x [Call 7 ?o, Exec 7, Ret 7 (Ok (RanOk (Inr (Inr 3))))]
      (s\<lparr>data := fst (?o (data s))\<rparr>, z)" by (simp only:)
  with x(1) show ?thesis by blast
qed

end
