(* ===== verification/Lam_Alone.thy ===== *)
theory Lam_Alone
  imports Lam_Sched "HOL-Library.Sublist"
begin

section \<open>A thread alone\<close>

text \<open>
  While one thread is the only one to call, it sees all its own writes, so none of its loads is
  stale: every call finds the lock free, runs its task directly and returns the task's outcome. The
  trace of its calls is determined by the tasks.
\<close>

primrec solo_log :: "tid \<Rightarrow> 'd \<Rightarrow> ('d, 'r, 'p) task list \<Rightarrow> ('d, 'r, 'p) event list" where
  "solo_log t d [] = []"
| "solo_log t d (f # fs) =
     [Call t f, Exec t, Ret t (ret_of (snd (f d)))] @ solo_log t (fst (f d)) fs"

definition solo_data :: "'d \<Rightarrow> ('d, 'r, 'p) task list \<Rightarrow> 'd" where
  "solo_data d fs = fold (\<lambda>f d. fst (f d)) fs d"

lemma solo_append:
  "solo_log t d (fs @ gs) = solo_log t d fs @ solo_log t (solo_data d fs) gs"
  "solo_data d (fs @ gs) = solo_data (solo_data d fs) gs"
  by (induction fs arbitrary: d) (simp_all add: solo_data_def)

text \<open>The lock when no other thread has ever touched it, or when all that was touched is seen.\<close>

definition quiet_past :: "tid \<Rightarrow> ('d, 'r, 'p) sys \<times> hb \<times> history \<Rightarrow> bool" where
  "quiet_past t x \<longleftrightarrow>
     (case x of (s, h, y) \<Rightarrow> tail (raw s) = None \<and> past y Tail = [] \<and>
        (\<forall>e \<in> set (past y Status). snd e \<in> seen h t) \<and> (\<forall>u. u \<noteq> t \<longrightarrow> pcs s u = Idle))"

definition solo_rest :: "tid \<Rightarrow> ('d, 'r, 'p) sys \<times> hb \<times> history \<Rightarrow> bool" where
  "solo_rest t x \<longleftrightarrow> quiet_past t x \<and> pcs (fst x) t = Idle \<and> status (raw (fst x)) = UNLOCKED"

text \<open>Where the call in progress stands: \<open>fs\<close> are the tasks of the calls before it.\<close>

definition solo_at ::
    "tid \<Rightarrow> 'd \<Rightarrow> ('d, 'r, 'p) task list \<Rightarrow> ('d, 'r, 'p) event list \<Rightarrow> ('d, 'r, 'p) sys \<Rightarrow> bool" where
  "solo_at t d fs es s \<longleftrightarrow>
     (case pcs s t of
        Idle \<Rightarrow> es = solo_log t d fs \<and> data s = solo_data d fs \<and> status (raw s) = UNLOCKED
      | TryRun f \<Rightarrow> es = solo_log t d fs @ [Call t f] \<and> data s = solo_data d fs \<and> status (raw s) = UNLOCKED
      | TryAcquire f \<Rightarrow> es = solo_log t d fs @ [Call t f] \<and> data s = solo_data d fs \<and> status (raw s) = UNLOCKED
      | FastRun f \<Rightarrow> es = solo_log t d fs @ [Call t f] \<and> data s = solo_data d fs
      | FastUnlock ret \<Rightarrow> (\<exists>f. es = solo_log t d fs @ [Call t f, Exec t] \<and>
          ret = ret_of (snd (f (solo_data d fs))) \<and> data s = solo_data d (fs @ [f]))
      | Returning ret \<Rightarrow> (\<exists>f. es = solo_log t d fs @ [Call t f, Exec t] \<and>
          ret = ret_of (snd (f (solo_data d fs))) \<and> data s = solo_data d (fs @ [f])) \<and> status (raw s) = UNLOCKED
      | _ \<Rightarrow> False)"

lemma quiet_not_stale:
  assumes "quiet_past t (s, h, y)" and "solo_at t d fs es s"
  shows "stale_step cfg t l i (s, h, y) \<noteq> Next s0 es'"
proof
  assume st: "stale_step cfg t l i (s, h, y) = Next s0 es'"
  let ?s = "with_value l (fst (past y l ! i)) s"
  have r: "readable t l i h y" "only_loads l (accesses cfg t ?s (pcs s t))"
    using st by (auto simp: stale_step_def Let_def split: if_splits)
  have "l = Tail \<or> l = Status"
    using assms(2) r(2) by (cases "pcs s t") (auto simp: solo_at_def at_defs split: step_splits)
  moreover have i: "i < length (past y l)" using r(1) by (simp add: readable_def)
  have "past y l ! i \<in> set (past y l)" using i by simp
  moreover have "past y l ! i \<in> set (drop i (past y l))"
    unfolding Cons_nth_drop_Suc [OF i, symmetric] by simp
  ultimately show False using r(1) assms(1) by (auto simp: readable_def quiet_past_def)
qed

lemma seen_do_accesses: "seen h u \<subseteq> seen (do_accesses t as h) u"
  by (induction as arbitrary: h) (auto simp: do_accesses_def dest: subsetD [OF do_access_seen])

lemma solo_step:
  assumes "quiet_past t x" and "solo_at t d fs es (fst x)" and "weak_step cfg x gs x'"
    and "\<forall>u f. Call u f \<in> set gs \<longrightarrow> u = t"
  shows "quiet_past t x' \<and> (\<exists>fs'. solo_at t d fs' (es @ gs) (fst x'))"
proof -
  obtain s h y where x: "x = (s, h, y)" by (cases x)
  have q: "tail (raw s) = None" "past y Tail = []" "\<forall>e \<in> set (past y Status). snd e \<in> seen h t"
    "\<And>u. u \<noteq> t \<Longrightarrow> pcs s u = Idle"
    using assms(1) x by (auto simp: quiet_past_def)
  from assms(3) [unfolded x] show ?thesis
  proof cases
    case (call u f)
    then have "u = t" using assms(4) by simp
    with call assms(1,2) x show ?thesis
      by (intro conjI exI [of _ fs]) (auto simp: quiet_past_def solo_at_def)
  next
    case (thread u s' as)
    have u: "u = t" using thread(2) q(4) [of u] by (cases "u = t") (auto simp: thread_step_def)
    have st: "pcs s t = TryRun f \<Longrightarrow> status (raw s) = UNLOCKED" "pcs s t = TryAcquire f \<Longrightarrow> status (raw s) = UNLOCKED" for f
      using assms(2) x by (auto simp: solo_at_def)
    have "quiet_past t x'"
      using thread u q st assms(2) x
      by (cases "pcs s t") (auto simp: solo_at_def quiet_past_def thread_step_def access_def at_defs raw_defs
        do_accesses_def synced_def replaced_def has_read_def Let_def split: step_splits)
    moreover have "\<exists>fs'. solo_at t d fs' (es @ gs) s'"
    proof (cases "\<exists>ret. pcs s t = Returning ret")
      case True
      then obtain f where f: "pcs s t = Returning (ret_of (snd (f (solo_data d fs))))"
        "es = solo_log t d fs @ [Call t f, Exec t]" "data s = solo_data d (fs @ [f])" "status (raw s) = UNLOCKED"
        using assms(2) x by (auto simp: solo_at_def)
      then have "solo_at t d (fs @ [f]) (es @ gs) s'"
        using thread(2) u by (auto simp: solo_at_def thread_step_def solo_append split: if_splits)
      then show ?thesis by blast
    next
      case False
      then have "solo_at t d fs (es @ gs) s'"
        using thread(2) u q(1) st assms(2) x
        by (cases "pcs s t") (auto simp: solo_at_def thread_step_def access_def raw_defs solo_append
          solo_data_def split: step_splits)
      then show ?thesis by blast
    qed
    ultimately show ?thesis using thread(1) by simp
  next
    case (stale u l i s0)
    have "u = t"
    proof (rule ccontr)
      assume "u \<noteq> t"
      then show False using stale(2) q(4) [of u] by (simp add: stale_step_def thread_step_def Let_def split: if_splits)
    qed
    moreover have "stale_step cfg t l i (s, h, y) \<noteq> Next s0 gs"
      by (rule quiet_not_stale) (use assms(1,2) x in simp_all)
    ultimately show ?thesis using stale(2) by simp
  next
    case (spurious u)
    have "u = t" using spurious q(4) [of u] by (cases "u = t") auto
    with spurious assms(2) x show ?thesis by (simp add: solo_at_def)
  qed
qed

lemma solo_runs:
  assumes "runs (weak_step cfg) w es x" and "solo_rest t w" and "\<forall>u f. Call u f \<in> set es \<longrightarrow> u = t"
  shows "quiet_past t x \<and> (\<exists>fs. solo_at t (data (fst w)) fs es (fst x))"
  using assms
proof (induction rule: runs.induct)
  case (start w)
  then show ?case
    by (auto simp: solo_rest_def solo_at_def solo_data_def intro!: exI [of _ "[]"])
next
  case (more w es x fs x')
  then obtain gs where g: "quiet_past t x" "solo_at t (data (fst w)) gs es (fst x)" by auto
  show ?case by (rule solo_step [OF g more(2)]) (use more.prems(2) in auto)
qed

lemma solo_init: "solo_rest t (world_init d)"
  by (simp add: solo_rest_def quiet_past_def world_init_def sys_init_def raw_new_def history_init_def)

text \<open>Between two calls the lock is as it was at the start.\<close>

lemma solo_ends:
  assumes "quiet_past t x" and "solo_at t d fs es (fst x)" and "pcs (fst x) t = Idle"
  shows "solo_rest t x" and "es = solo_log t d fs" and "data (fst x) = solo_data d fs"
  using assms by (auto simp: solo_rest_def solo_at_def)

lemma solo_prefix:
  assumes "solo_at t d fs es s"
  shows "\<exists>gs. prefix es (solo_log t d gs)"
proof -
  have "prefix (solo_log t d fs @ as) (solo_log t d (fs @ [f]))"
    if "as = [Call t f] \<or> as = [Call t f, Exec t]" for as f
    using that by (auto simp: solo_append)
  then show ?thesis using assms by (cases "pcs s t") (fastforce simp: solo_at_def)+
qed

text \<open>Every such log is a run.\<close>

lemma solo_log_calls: "Call u f \<in> set (solo_log t d fs) \<Longrightarrow> u = t"
  by (induction fs arbitrary: d) auto

lemma solo_log_schedule:
  assumes "pcs s t = Idle" and "tail (raw s) = None" and "status (raw s) = UNLOCKED"
  shows "\<exists>ms. schedule cfg ms s = Some (solo_log t (data s) fs, s\<lparr>data := solo_data (data s) fs\<rparr>)"
  using assms
proof (induction fs arbitrary: s)
  case Nil
  show ?case by (intro exI [of _ "[]"]) (simp add: solo_data_def)
next
  case (Cons f fs)
  let ?s = "s\<lparr>data := fst (f (data s))\<rparr>"
  note one = fast_path_schedule [OF Cons.prems, of cfg f]
  obtain ms where "schedule cfg ms ?s = Some (solo_log t (data ?s) fs, ?s\<lparr>data := solo_data (data ?s) fs\<rparr>)"
    using Cons.IH [of ?s] Cons.prems by auto
  from schedule_append [OF one this] show ?case
    by (intro exI [of _ "(Enter t f # replicate 5 (Move t)) @ ms"]) (simp add: solo_data_def)
qed

lemma solo_log_runs:
  assumes "solo_rest t (s, h, y)"
  shows "\<exists>z. runs (weak_step cfg) (s, h, y) (solo_log t (data s) fs) (s\<lparr>data := solo_data (data s) fs\<rparr>, z)"
  using solo_log_schedule [of s t cfg fs] assms schedule_runs
  by (fastforce simp: solo_rest_def quiet_past_def)

lemma solo_log_world:
  obtains x where "runs (weak_step cfg) (world_init d) (solo_log t d fs) x" "pcs (fst x) t = Idle"
proof -
  have "\<exists>z. runs (weak_step cfg) (world_init d) (solo_log t d fs) ((sys_init d)\<lparr>data := solo_data d fs\<rparr>, z)"
    using solo_log_runs [of t "sys_init d" hb_init history_init cfg fs] solo_init [of t d]
    unfolding world_init_def by (simp add: sys_init_def)
  then show ?thesis using that by (fastforce simp: sys_init_def)
qed

end
