(* ===== verification/Lam_Borrow.thy ===== *)
theory Lam_Borrow
  imports Lam_Healthy
begin

section \<open>The exclusive borrow (\<open>get_mut\<close>)\<close>

text \<open>
  \<open>get_mut\<close> takes \<open>&mut self\<close>: the borrow checker grants it when no call is open and orders it
  before and after the calls of every thread, so it takes no part in the memory order. What the
  borrower does to the data is any function; the lock's words and the poison flag stay as they are.
\<close>

type_synonym ('d, 'r, 'p) world = "('d, 'r, 'p) sys \<times> hb \<times> history"

definition get_mut :: "('d \<Rightarrow> 'd) \<Rightarrow> ('d, 'r, 'p) world \<Rightarrow> ('d, 'r, 'p) world" where
  "get_mut f x = (case x of (s, h, y) \<Rightarrow> (s\<lparr>data := f (data s)\<rparr>, h, y))"

definition pget_mut :: "('d \<Rightarrow> 'd) \<Rightarrow> ('d pdata, 'r, 'p) world \<Rightarrow> ('d pdata, 'r, 'p) world" where
  "pget_mut f = get_mut (\<lambda>(d, poisoned). (f d, poisoned))"

lemma get_mut_fields [simp]:
  "fst (get_mut f x) = (fst x)\<lparr>data := f (data (fst x))\<rparr>" "snd (get_mut f x) = snd x"
  by (simp_all add: get_mut_def split: prod.split)

subsection \<open>The invariants do not look at the data\<close>

lemma data_reads:
  "next_of (s\<lparr>data := d\<rparr>) = next_of s" "linking (s\<lparr>data := d\<rparr>) = linking s"
  "carrier (g\<lparr>gspec := a\<rparr>) = carrier g"
  "gspec g = a \<Longrightarrow> view_of (s\<lparr>data := d\<rparr>) (g\<lparr>gspec := a\<lparr>sdata := e\<rparr>\<rparr>) = view_of s g"
  by (simp_all add: next_of_def linking_def carrier_def view_of_def fun_eq_iff)

lemma inv_data:
  assumes "inv cfg s g"
  shows "inv cfg (s\<lparr>data := d\<rparr>) (g\<lparr>gspec := (gspec g)\<lparr>sdata := d\<rparr>\<rparr>)"
  using assms data_reads(4) [of g "gspec g" d s d]
  by (simp add: inv_def queue_inv_def lock_inv_def debt_inv_def spec_inv_def data_reads(1,2))

lemma hb_inv_data: "hb_inv s g h \<Longrightarrow> hb_inv (s\<lparr>data := d\<rparr>) (g\<lparr>gspec := a\<rparr>) h"
  unfolding hb_inv_def node_seen_def slots_seen_def links_seen_def data_seen_def words_seen_def reach_def
  by (simp add: data_reads cong: if_cong option.case_cong)

lemma past_inv_data: "past_inv s g h y \<Longrightarrow> past_inv (s\<lparr>data := d\<rparr>) (g\<lparr>gspec := a\<rparr>) h y"
  by (simp add: past_inv_def status_past_def tail_past_def last_past_def word_past_def data_reads)

lemma get_mut_rel:
  assumes "weak_rel cfg x a"
  shows "weak_rel cfg (get_mut f x) (a\<lparr>sdata := f (sdata a)\<rparr>)"
proof -
  obtain s h y where x: "x = (s, h, y)" by (cases x)
  obtain g where g: "inv cfg s g" "hb_inv s g h" "past_inv s g h y" "gspec g = a"
    using assms x by (auto simp: weak_rel_def)
  have "data s = sdata a" using rel_data [OF assms] x by simp
  then show ?thesis
    using inv_data [OF g(1)] hb_inv_data [OF g(2)] past_inv_data [OF g(3)] g(4) x
    by (simp add: weak_rel_def get_mut_def) (rule exI [of _ "g\<lparr>gspec := _\<rparr>"], force)
qed

subsection \<open>Calls and exclusive borrows\<close>

inductive borrow_step ::
    "feature \<Rightarrow> ('d, 'r, 'p) world \<Rightarrow> (('d, 'r, 'p) event + ('d \<Rightarrow> 'd)) list \<Rightarrow> ('d, 'r, 'p) world \<Rightarrow> bool"
  for cfg where
  shared: "weak_step cfg x es x' \<Longrightarrow> borrow_step cfg x (map Inl es) x'"
| exclusive: "\<forall>t. pcs (fst x) t = Idle \<Longrightarrow> borrow_step cfg x [Inr f] (get_mut f x)"

fun borrow_spec_step ::
    "feature \<Rightarrow> ('d, 'r, 'p) event + ('d \<Rightarrow> 'd) \<Rightarrow> ('d, 'r, 'p) spec \<Rightarrow> ('d, 'r, 'p) spec option" where
  "borrow_spec_step cfg (Inl e) a = spec_step cfg e a"
| "borrow_spec_step cfg (Inr f) a =
     (if \<forall>t. phase a t = Quiet then Some (a\<lparr>sdata := f (sdata a)\<rparr>) else None)"

fun borrow_spec ::
    "feature \<Rightarrow> (('d, 'r, 'p) event + ('d \<Rightarrow> 'd)) list \<Rightarrow> ('d, 'r, 'p) spec \<Rightarrow> ('d, 'r, 'p) spec option" where
  "borrow_spec cfg [] a = Some a"
| "borrow_spec cfg (e # es) a = Option.bind (borrow_spec_step cfg e a) (borrow_spec cfg es)"

lemma borrow_spec_append:
  "borrow_spec cfg (es @ fs) a = Option.bind (borrow_spec cfg es a) (borrow_spec cfg fs)"
  by (induction es arbitrary: a) (simp_all split: bind_splits)

lemma borrow_spec_shared: "borrow_spec cfg (map Inl es) = spec_run cfg es"
proof (induction es)
  case (Cons e es)
  then show ?case by (intro ext) (simp del: spec_step.simps)
qed (simp add: fun_eq_iff)

interpretation borrowed: refined_system "borrow_step cfg" "borrow_spec cfg" "weak_rel cfg"
proof
  fix x x' :: "('d, 'r, 'p) world" and a es
  assume r: "weak_rel cfg x a" and "borrow_step cfg x es x'"
  from this(2) show "\<exists>a'. borrow_spec cfg es a = Some a' \<and> weak_rel cfg x' a'"
  proof cases
    case (shared fs)
    then show ?thesis using weak_step_refines [OF r shared(2)] by (simp add: borrow_spec_shared)
  next
    case (exclusive f)
    then show ?thesis using rel_quiet [OF r] get_mut_rel [OF r] by simp
  qed
qed (simp_all add: borrow_spec_append)

lemma borrow_shared:
  "runs (weak_step cfg) x es x' \<Longrightarrow> runs (borrow_step cfg) x (map Inl es) x'"
  by (induction rule: runs.induct) (auto intro: runs.intros borrow_step.shared)

end
