(* ===== verification/Poison_Tests.thy ===== *)
theory Poison_Tests
  imports Poison_Theorems Lam_Clients Lam_Alone Lam_Borrow
begin

section \<open>A thread alone, exclusive borrows, and the tests of \<open>poison.rs\<close>\<close>

text \<open>
  The tests are clients of the lock: the calls they make and what they assert of the answers. A test
  of one thread is the list of its calls, each with its assertion; it passes when no assertion fails
  on any run in which the thread makes these calls in order. As in \<open>Lam_Clients\<close> the number in the
  lock is an \<open>i32\<close>.
\<close>

subsection \<open>Tests of one thread\<close>

type_synonym ('d, 'r, 'p) script = "(('d, 'r, 'p) pop \<times> (('r pres, 'p) ret \<Rightarrow> bool)) list"

definition called :: "('d, 'r, 'p) event list \<Rightarrow> ('d, 'r, 'p) task list" where
  "called es = List.map_filter (\<lambda>e. case e of Call t f \<Rightarrow> Some f | _ \<Rightarrow> None) es"

definition answers :: "('d, 'r, 'p) event list \<Rightarrow> ('r, 'p) ret list" where
  "answers es = List.map_filter (\<lambda>e. case e of Ret t ret \<Rightarrow> Some ret | _ \<Rightarrow> None) es"

definition only_calls :: "tid \<Rightarrow> ('d, 'r, 'p) event list \<Rightarrow> bool" where
  "only_calls t es \<longleftrightarrow> (\<forall>u f. Call u f \<in> set es \<longrightarrow> u = t)"

definition asserted :: "('d, 'r, 'p) script \<Rightarrow> ('r pres, 'p) ret list \<Rightarrow> bool" where
  "asserted ks rs \<longleftrightarrow> list_all2 (\<lambda>k ret. snd k ret) (take (length rs) ks) rs"

text \<open>The script executed on the data without any lock.\<close>

fun passes :: "'d pdata \<Rightarrow> ('d, 'r, 'p) script \<Rightarrow> bool" where
  "passes x [] = True"
| "passes x (k # ks) = (case ptask (fst k) x of (x', out) \<Rightarrow> snd k (ret_of out) \<and> passes x' ks)"

lemma log_simps [simp]:
  "called [] = []" "called (e # es) = (case e of Call t f \<Rightarrow> f # called es | _ \<Rightarrow> called es)"
  "answers [] = []" "answers (e # es) = (case e of Ret t ret \<Rightarrow> ret # answers es | _ \<Rightarrow> answers es)"
  "called (es @ fs) = called es @ called fs" "answers (es @ fs) = answers es @ answers fs"
  by (simp_all add: called_def answers_def List.map_filter_def split: event.splits)

lemma called_solo_log [simp]: "called (solo_log t d fs) = fs"
  by (induction fs arbitrary: d) simp_all

lemma passes_asserted:
  "passes x ks \<Longrightarrow> asserted ks (answers (solo_log t x (map (ptask \<circ> fst) (take m ks))))"
proof (induction ks arbitrary: x m)
  case (Cons k ks)
  then show ?case
    by (cases m; cases "ptask (fst k) x") (auto simp: asserted_def)
qed (simp add: asserted_def)

lemma solo_at_log:
  assumes "solo_at t d fs es s"
  shows "answers es = answers (solo_log t d fs)" and "\<exists>gs. called es = fs @ gs"
  using assms by (cases "pcs s t"; fastforce simp: solo_at_def)+

lemma script_asserted:
  assumes "runs (weak_step cfg) w es x" and "solo_rest t w" and "only_calls t es"
    and "prefix (called es) (map (ptask \<circ> fst) ks)" and "passes (data (fst w)) ks"
  shows "asserted ks (answers es)"
proof -
  obtain fs where f: "solo_at t (data (fst w)) fs es (fst x)"
    using solo_runs [OF assms(1,2)] assms(3) by (auto simp: only_calls_def)
  then have "prefix fs (map (ptask \<circ> fst) ks)"
    using solo_at_log(2) [OF f] assms(4) by (metis append_prefixD)
  then have "fs = map (ptask \<circ> fst) (take (length fs) ks)" by (metis take_map prefix_def append_eq_conv_conj)
  then show ?thesis
    using passes_asserted [OF assms(5), of t "length fs"] solo_at_log(1) [OF f] by simp
qed

type_synonym test = "int \<times> (int, unit + int, string) script"

definition change :: "('d \<Rightarrow> 'd) \<Rightarrow> ('d, unit + 'd, string) task" where
  "change f = (\<lambda>d. (f d, Return (Inl ())))"

definition panics :: "string \<Rightarrow> ('d, 'r, string) task" where
  "panics message = (\<lambda>d. (d, Panic message))"

definition smoke_test :: "profile \<Rightarrow> test" where
  "smoke_test p = (0,
     [(PRun (add_assign p 1), \<lambda>r. run_answer r = Some (Inr (Inl ()))),
      (PRun observe, \<lambda>r. run_answer r = Some (Inr (Inr 1)))])"

definition try_unpoison_checks_state_and_recovery_result :: test where
  "try_unpoison_checks_state_and_recovery_result = (1,
     [(PTryUnpoison (panics ''healthy lock''), \<lambda>r. unpoison_answer r = Some (Inr False)),
      (PPoison, \<lambda>r. poison_answer r = Some (Inr ())),
      (PTryUnpoison (\<lambda>data. (2, Return False)), \<lambda>r. unpoison_answer r = Some (Inr False)),
      (PRun (change id), \<lambda>r. run_answer r = Some (Inl LockPoisoned)),
      (PTryUnpoison (\<lambda>data. if data = 2 then (3, Return True) else (data, Panic ''assertion'')),
         \<lambda>r. unpoison_answer r = Some (Inr True)),
      (PRun observe, \<lambda>r. run_answer r = Some (Inr (Inr 3))),
      (PTryUnpoison (panics ''already recovered''), \<lambda>r. unpoison_answer r = Some (Inr False))])"

definition try_unpoison_panic_preserves_poison :: test where
  "try_unpoison_panic_preserves_poison = (0,
     [(PPoison, \<lambda>r. poison_answer r = Some (Inr ())),
      (PTryUnpoison (\<lambda>data. (1, Panic ''recovery failed'')), \<lambda>r. r = Unwind ''recovery failed''),
      (PRun (change id), \<lambda>r. run_answer r = Some (Inl LockPoisoned)),
      (PTryUnpoison (\<lambda>data. if data = 1 then (data, Return True) else (data, Panic ''assertion'')),
         \<lambda>r. unpoison_answer r = Some (Inr True)),
      (PRun observe, \<lambda>r. run_answer r = Some (Inr (Inr 1)))])"

lemmas test_eval = add_assign_def i32_value_def change_def observe_def panics_def run_task_def poison_task_def unpoison_task_def plock_new_def

lemma tests_pass:
  assumes "test \<in> {smoke_test p, try_unpoison_checks_state_and_recovery_result,
    try_unpoison_panic_preserves_poison}"
  shows "passes (plock_new (fst test)) (snd test)"
  using assms
  by (auto simp: smoke_test_def try_unpoison_checks_state_and_recovery_result_def
      try_unpoison_panic_preserves_poison_def test_eval)

subsection \<open>Tests of many threads\<close>

text \<open>\<open>multi_thread_poison_is_permanent\<close> and \<open>get_mut_preserves_poison_after_panic\<close> keep a string.\<close>

definition push_char :: "char \<Rightarrow> (string, unit, string) task" where
  "push_char c = (\<lambda>x. (x @ [c], Return ()))"

definition push_panic :: "char \<Rightarrow> string \<Rightarrow> (string, unit, string) task" where
  "push_panic c message = (\<lambda>x. (x @ [c], Panic message))"

definition poison_is_permanent_calls :: "(string pdata, unit pres, string) event list \<Rightarrow> bool" where
  "poison_is_permanent_calls es \<longleftrightarrow>
     (\<forall>t f. Call t f \<in> set es \<longrightarrow> f = ptask (PRun (push_char CHR ''A'')) \<or> f = ptask PPoison)"

lemma solo_called:
  assumes "runs (weak_step cfg) w es x" and "solo_rest t w" and "only_calls t es"
    and "pcs (fst x) t = Idle"
  shows "es = solo_log t (data (fst w)) (called es)" and "data (fst x) = solo_data (data (fst w)) (called es)"
    and "solo_rest t x" and "\<forall>u. pcs (fst x) u = Idle"
proof -
  obtain fs where s: "quiet_past t x" "solo_at t (data (fst w)) fs es (fst x)"
    using solo_runs [OF assms(1,2)] assms(3) by (auto simp: only_calls_def)
  show r: "es = solo_log t (data (fst w)) (called es)" "data (fst x) = solo_data (data (fst w)) (called es)"
    "solo_rest t x"
    using solo_ends [OF s assms(4)] by auto
  show "\<forall>u. pcs (fst x) u = Idle"
  proof
    fix u
    show "pcs (fst x) u = Idle"
      using s(1) assms(4) by (cases x; cases "u = t") (auto simp: quiet_past_def)
  qed
qed

lemma solo_get_mut: "solo_rest t x \<Longrightarrow> solo_rest t (pget_mut f x)"
  by (cases x) (simp add: solo_rest_def quiet_past_def pget_mut_def get_mut_def)

definition get_mut_preserves_poison_run ::
    "feature \<Rightarrow> tid \<Rightarrow> (string pdata, unit pres, string) event list \<Rightarrow> (string pdata, unit pres, string) world \<Rightarrow>
     (string pdata, unit pres, string) event list \<Rightarrow> (string pdata, unit pres, string) world \<Rightarrow> bool" where
  "get_mut_preserves_poison_run cfg t es x fs x' \<longleftrightarrow>
     lock_world cfg (plock_new '''') es x \<and> only_calls t es \<and>
     called es = [ptask (PRun (push_panic CHR ''A'' ''poison the lock''))] \<and> pcs (fst x) t = Idle \<and>
     runs (weak_step cfg) (pget_mut (\<lambda>_. '''') x) fs x' \<and> only_calls t fs \<and>
     called fs = [ptask (PRun (push_char CHR ''B''))] \<and> pcs (fst x') t = Idle"

lemma get_mut_preserves_poison_after_panic:
  assumes "get_mut_preserves_poison_run cfg t es x fs x'"
  shows "answers es = [Unwind ''poison the lock'']" and "fst (data (fst x)) = ''A''"
    and "list_all (\<lambda>ret. run_answer ret = Some (Inl LockPoisoned)) (answers fs)"
    and "fst (data (fst x')) = ''''"
proof -
  have r: "lock_world cfg (plock_new '''') es x" "only_calls t es"
    "called es = [ptask (PRun (push_panic CHR ''A'' ''poison the lock''))]" "pcs (fst x) t = Idle"
    "runs (weak_step cfg) (pget_mut (\<lambda>_. '''') x) fs x'" "only_calls t fs"
    "called fs = [ptask (PRun (push_char CHR ''B''))]" "pcs (fst x') t = Idle"
    using assms unfolding get_mut_preserves_poison_run_def by (simp_all only:)
  let ?w = "pget_mut (\<lambda>_. '''') x"
  note A = solo_called [OF r(1) solo_init r(2,4)]
  have es: "es = solo_log t ('''', False) (called es)" and d: "data (fst x) = (''A'', True)"
    using A(1,2) by (simp_all add: r(3) world_init_def sys_init_def plock_new_def solo_data_def
        run_task_def push_panic_def)
  show "answers es = [Unwind ''poison the lock'']"
    by (subst es) (simp add: r(3) run_task_def push_panic_def)
  show "fst (data (fst x)) = ''A''" using d by simp
  note B = solo_called [OF r(5) solo_get_mut [OF A(3)] r(6,8)]
  have w: "data (fst ?w) = ('''', True)" using d by (simp add: pget_mut_def)
  then have fs: "fs = solo_log t ('''', True) (called fs)" using B(1) by simp
  show "fst (data (fst x')) = ''''"
    using B(2) w by (simp add: r(7) solo_data_def run_task_def)
  show "list_all (\<lambda>ret. run_answer ret = Some (Inl LockPoisoned)) (answers fs)"
    by (subst fs) (simp add: r(7) run_task_def)
qed

text \<open>\<open>mutli_thread_panic_chain_test\<close>: the thread in the middle panics, and the test is to panic.\<close>

definition chain_share :: "profile \<Rightarrow> nat \<Rightarrow> tid \<Rightarrow> (int, unit + int, string) task" where
  "chain_share p cnt i = (\<lambda>data.
     case add_share p cnt i data of
       (x, Return r) \<Rightarrow> if i = cnt div 2 then (x, Panic ''panic chain'') else (x, Return r)
     | (x, Panic message) \<Rightarrow> (x, Panic message))"

definition panic_chain_calls ::
    "profile \<Rightarrow> nat \<Rightarrow> (int pdata, (unit + int) pres, string) event list \<Rightarrow> bool" where
  "panic_chain_calls p cnt es \<longleftrightarrow>
     (\<forall>t f. Call t f \<in> set es \<longrightarrow> t < cnt \<and> f = ptask (PRun (chain_share p cnt t))) \<and>
     (\<forall>t < cnt. calls t es = 1)"

lemma chain_panics: "snd (ptask (PRun (chain_share p cnt (cnt div 2))) d) \<noteq> Return (RanOk (Inr r))"
  by (cases "snd d") (auto simp: run_task_def chain_share_def split: prod.split outcome.split if_splits)

lemma chain_spec:
  fixes es :: "(int pdata, (unit + int) pres, string) event list"
  assumes "spec_run cfg es (spec_init d) = Some a"
    and "\<forall>t f. Call t f \<in> set es \<longrightarrow> f = ptask (PRun (chain_share p cnt t))"
  shows "(\<forall>t f. phase a t = Pending f \<longrightarrow> f = ptask (PRun (chain_share p cnt t))) \<and>
    phase a (cnt div 2) \<noteq> Finished (Return (RanOk (Inr r))) \<and>
    (\<forall>ret. Ret (cnt div 2) ret \<in> set es \<longrightarrow> run_answer ret \<noteq> Some (Inr r))"
  using assms
proof (induction es arbitrary: a rule: rev_induct)
  case Nil
  then show ?case by (auto simp: spec_init_def)
next
  case (snoc e es)
  then obtain c where c: "spec_run cfg es (spec_init d) = Some c" "spec_step cfg e c = Some a"
    by (auto simp: spec_run_snoc)
  have "\<forall>t f. Call t f \<in> set es \<longrightarrow> f = ptask (PRun (chain_share p cnt t))" using snoc.prems(2) by auto
  note IH = snoc.IH [OF c(1) this]
  show ?case
  proof (cases e)
    case (Exec t)
    then obtain f where f: "phase c t = Pending f" using c(2) by (auto split: phase.splits)
    then have "f = ptask (PRun (chain_share p cnt t))" using IH by blast
    then have "snd (f (sdata c)) \<noteq> Return (RanOk (Inr r))" if "t = cnt div 2"
      using that by (simp only: chain_panics not_False_eq_True)
    then show ?thesis using Exec IH c(2) f by (auto split: if_splits prod.splits simp del: ptask.simps)
  next
    case (Ret t ret)
    then have r: "allowed cfg (phase c t) ret" "a = c\<lparr>phase := (phase c)(t := Quiet)\<rparr>"
      using c(2) by (auto split: if_splits)
    have "run_answer ret \<noteq> Some (Inr r)" if "t = cnt div 2"
    proof
      assume "run_answer ret = Some (Inr r)"
      then have "ret = Ok (RanOk (Inr r))" by (cases ret rule: run_answer.cases) auto
      then show False using r(1) IH that by (cases "phase c t") (auto split: outcome.splits)
    qed
    then show ?thesis using Ret r(2) IH by auto
  next
    case (Call t f)
    then show ?thesis using IH c(2) snoc.prems(2) by (auto split: phase.splits if_splits)
  next
    case (Enq t)
    then show ?thesis using IH c(2) by (auto split: phase.splits if_splits)
  next
    case (Cancel t)
    then show ?thesis using IH c(2) by (auto split: if_splits)
  qed
qed

lemma mutli_thread_panic_chain_test:
  fixes es :: "(int pdata, (unit + int) pres, string) event list"
  assumes "lock_runs cfg (plock_new 0) es s" and "panic_chain_calls p cnt es" and "0 < cnt"
    and "\<forall>t. pcs s t = Idle"
  shows "\<exists>ret. Ret (cnt div 2) ret \<in> set es \<and> run_answer ret \<noteq> Some (Inr r)"
proof -
  obtain g where g: "inv cfg s g" "spec_run cfg es (spec_init (plock_new 0)) = Some (gspec g)"
    using lock_runs_inv [OF assms(1)] by blast
  have "phase (gspec g) (cnt div 2) = Quiet" using inv_parts(5) [OF g(1), of "cnt div 2"] assms(4) by simp
  then have "rets (cnt div 2) es = 1"
    using spec_counts(1) [OF g(2), of "cnt div 2"] assms(2,3) by (simp add: panic_chain_calls_def)
  then have "filter (\<lambda>e. case e of Ret u r \<Rightarrow> u = cnt div 2 | _ \<Rightarrow> False) es \<noteq> []"
    by (auto simp: rets_def)
  then obtain e where e: "e \<in> set es" "case e of Ret u r \<Rightarrow> u = cnt div 2 | _ \<Rightarrow> False"
    unfolding filter_empty_conv by blast
  have "\<exists>ret. e = Ret (cnt div 2) ret" using e(2) by (cases e rule: event.exhaust) auto
  then obtain ret where "Ret (cnt div 2) ret \<in> set es" using e(1) by blast
  moreover have "\<forall>t f. Call t f \<in> set es \<longrightarrow> f = ptask (PRun (chain_share p cnt t))"
    using assms(2) by (auto simp: panic_chain_calls_def)
  ultimately show ?thesis using chain_spec [OF g(2)] by blast
qed

subsection \<open>The properties\<close>

text \<open>A thread that is alone never waits: whatever the memory model lets its loads find, every call
  it makes takes the lock directly, runs its task once, and returns the task's own outcome, panics
  included, with either feature; between two calls the lock is free.\<close>

theorem lock_alone:
  assumes "lock_world cfg d es x" and "\<forall>u f. Call u f \<in> set es \<longrightarrow> u = t"
  shows "(\<exists>fs. prefix es (solo_log t d fs)) \<and>
    (pcs (fst x) t = Idle \<longrightarrow> es = solo_log t d (called es) \<and> data (fst x) = solo_data d (called es) \<and>
       tail (raw (fst x)) = None \<and> status (raw (fst x)) = UNLOCKED)"
proof -
  obtain fs where s: "quiet_past t x" "solo_at t d fs es (fst x)"
    using solo_runs [OF assms(1) solo_init assms(2)] by (auto simp: world_init_def sys_init_def)
  then show ?thesis
    using solo_prefix [OF s(2)] solo_ends [OF s] by (auto simp: solo_rest_def quiet_past_def split: prod.splits)
qed

theorem lock_alone_witness:
  "\<exists>x. lock_world NoStd (plock_new 4) (solo_log 0 (plock_new 4) [ptask (PRun tear)]) x \<and>
     data (fst x) = (5, True) \<and> status (raw (fst x)) = UNLOCKED"
proof -
  let ?es = "solo_log 0 (plock_new 4) [ptask (PRun tear)] :: (nat pdata, nat pres, nat) event list"
  obtain x where x: "lock_world NoStd (plock_new 4) ?es x" "pcs (fst x) 0 = Idle"
    by (rule solo_log_world)
  have "\<forall>u f. Call u f \<in> set ?es \<longrightarrow> u = 0" by simp
  from lock_alone [OF x(1) this] x(2)
  have "data (fst x) = solo_data (plock_new 4) [ptask (PRun tear)]" "status (raw (fst x)) = UNLOCKED"
    by (simp_all only: called_solo_log)
  then show ?thesis using x(1)
    by (intro exI [of _ x] conjI) (simp_all add: solo_data_def plock_new_def run_task_def tear_def)
qed

text \<open>The tests of \<open>poison.rs\<close> with one thread pass: \<open>smoke_test\<close>,
  \<open>try_unpoison_checks_state_and_recovery_result\<close> and \<open>try_unpoison_panic_preserves_poison\<close> find what
  they assert of the answers, with either feature.\<close>

theorem single_thread_tests:
  assumes "test \<in> {smoke_test p, try_unpoison_checks_state_and_recovery_result,
    try_unpoison_panic_preserves_poison}"
    and "lock_world cfg (plock_new (fst test)) es x" and "only_calls t es"
    and "prefix (called es) (map (ptask \<circ> fst) (snd test))"
  shows "asserted (snd test) (answers es)"
  using script_asserted [OF assms(2) solo_init assms(3,4)] tests_pass [OF assms(1)]
  by (simp add: world_init_def sys_init_def)

theorem single_thread_tests_witness:
  "\<exists>es x. lock_world NoStd (plock_new 0) es x \<and> called es = map (ptask \<circ> fst) (snd (smoke_test Debug)) \<and>
     asserted (snd (smoke_test Debug)) (answers es)"
proof -
  let ?es = "solo_log 3 (plock_new (fst (smoke_test Debug))) (map (ptask \<circ> fst) (snd (smoke_test Debug)))"
  obtain x where x: "lock_world NoStd (plock_new (fst (smoke_test Debug))) ?es x"
    by (rule solo_log_world)
  have "only_calls 3 ?es" using solo_log_calls by (fastforce simp: only_calls_def)
  from single_thread_tests [where test = "smoke_test Debug" and p = Debug, OF _ x this] have "asserted (snd (smoke_test Debug)) (answers ?es)"
    by (simp del: solo_log.simps)
  then show ?thesis using x by (intro exI [of _ ?es] exI [of _ x]) (simp add: smoke_test_def del: solo_log.simps)
qed

text \<open>\<open>multi_thread_poison_is_permanent\<close> passes: after one thread has poisoned the lock, every
  \<open>run\<close> and \<open>poison\<close> of any number of threads is refused on every run, with either feature, and the data
  stay as they were.\<close>

theorem multi_thread_poison_is_permanent:
  assumes "lock_world cfg (plock_new '''') es x" and "only_calls m es"
    and "called es = [ptask PPoison]" and "pcs (fst x) m = Idle"
    and "runs (weak_step cfg) x fs x'" and "poison_is_permanent_calls fs"
  shows "list_all (\<lambda>ret. poison_answer ret = Some (Inr ())) (answers es) \<and>
    (\<forall>t ret. Ret t ret \<in> set fs \<longrightarrow>
      run_answer ret = Some (Inl LockPoisoned) \<or> poison_answer ret = Some (Inl LockPoisoned)) \<and>
    fst (data (fst x')) = ''''"
proof -
  note A = solo_called [OF assms(1) solo_init assms(2,4)]
  have es: "es = solo_log m ('''', False) (called es)" and d: "data (fst x) = ('''', True)"
    using A(1,2) by (simp_all add: assms(3) world_init_def sys_init_def plock_new_def solo_data_def
        poison_task_def)
  have "list_all (\<lambda>ret. poison_answer ret = Some (Inr ())) (answers es)"
    by (subst es) (simp add: assms(3) poison_task_def)
  moreover have "\<forall>t f. Call t f \<in> set fs \<longrightarrow> (\<exists>g. f = ptask (PRun g)) \<or> f = ptask PPoison"
    using assms(6) unfolding poison_is_permanent_calls_def by blast
  from poisoned_runs [OF assms(1) A(4) _ assms(5) this] d
  have "data (fst x') = ('''', True)" "\<forall>t ret. Ret t ret \<in> set fs \<longrightarrow>
      run_answer ret = Some (Inl LockPoisoned) \<or> poison_answer ret = Some (Inl LockPoisoned)" by auto
  ultimately show ?thesis by simp
qed

theorem multi_thread_poison_is_permanent_witness:
  "\<exists>x x'. lock_world NoStd (plock_new '''') (solo_log 0 (plock_new '''') [ptask PPoison]) x \<and>
     runs (weak_step NoStd) x (solo_log 7 ('''', True) [ptask (PRun (push_char CHR ''A''))]) x' \<and>
     fst (data (fst x')) = ''''"
proof -
  let ?es = "solo_log 0 (plock_new '''') [ptask PPoison] :: (string pdata, unit pres, string) event list"
  let ?fs = "solo_log 7 ('''', True) [ptask (PRun (push_char CHR ''A''))]"
  obtain x where x: "lock_world NoStd (plock_new '''') ?es x" "pcs (fst x) 0 = Idle"
    by (rule solo_log_world)
  have o: "only_calls 0 ?es" using solo_log_calls by (fastforce simp: only_calls_def)
  note A = solo_called [OF x(1) solo_init o x(2)]
  have d: "data (fst x) = ('''', True)"
    using A(2) by (simp add: world_init_def sys_init_def plock_new_def solo_data_def poison_task_def)
  obtain s h y where s: "x = (s, h, y)" by (cases x)
  have "pcs s 7 = Idle" "tail (raw s) = None" "status (raw s) = UNLOCKED"
    using A(3,4) s by (auto simp: solo_rest_def quiet_past_def)
  then obtain ms s' where "schedule NoStd ms s = Some (?fs, s')"
    using solo_log_schedule [of s 7 NoStd "[ptask (PRun (push_char CHR ''A''))]"] d s by auto
  then obtain x' where r: "runs (weak_step NoStd) x ?fs x'"
    using schedule_runs s by blast
  have "poison_is_permanent_calls ?fs" by (simp add: poison_is_permanent_calls_def)
  from multi_thread_poison_is_permanent [OF x(1) o _ x(2) r this]
  have "fst (data (fst x')) = ''''" by (simp only: called_solo_log)
  with x(1) r show ?thesis by blast
qed

text \<open>\<open>get_mut\<close>: calls of any number of threads and exclusive borrows between them are together a
  behaviour of the executor whose data the borrower changes while no call is open; after any of them the
  lock is still race free, a step never faults, and no two threads are in a task.\<close>

theorem borrow_refines:
  assumes "runs (borrow_step cfg) (world_init d) es (s, h, y)"
  shows "(\<exists>a. borrow_spec cfg es (spec_init d) = Some a \<and> data s = sdata a) \<and> \<not> raced h \<and>
    thread_step cfg t s \<noteq> Fault \<and> (in_task (pcs s t) \<and> in_task (pcs s u) \<longrightarrow> t = u)"
proof -
  obtain a where a: "borrow_spec cfg es (spec_init d) = Some a" "weak_rel cfg (s, h, y) a"
    using borrowed.runs_refine [OF assms weak_rel_init] by blast
  then obtain g where g: "inv cfg s g" "hb_inv s g h" by (auto simp: weak_rel_def)
  have "thread_step cfg t s \<noteq> Fault" using thread_step_ok [OF g(1), of t] by (auto simp: step_ok_def)
  moreover have "in_task (pcs s t) \<and> in_task (pcs s u) \<longrightarrow> t = u"
    using in_task_holds [OF g(1)] by (metis option.inject)
  ultimately show ?thesis using a(1) rel_data [OF a(2)] hb_parts(1) [OF g(2)] by auto
qed

theorem borrow_refines_witness:
  "\<exists>s h y. runs (borrow_step NoStd) (world_init 10)
      (map Inl (solo_log 0 10 [\<lambda>d. (d + 1, Return d)] :: (nat, nat, nat) event list) @ [Inr (\<lambda>d. 2 * d)]) (s, h, y) \<and>
     data s = 22 \<and> \<not> raced h"
proof -
  let ?es = "solo_log 0 10 [\<lambda>d. (d + 1, Return d)] :: (nat, nat, nat) event list"
  obtain x where x: "runs (weak_step NoStd) (world_init 10) ?es x" "pcs (fst x) 0 = Idle"
    by (rule solo_log_world)
  have "only_calls 0 ?es" by (simp add: only_calls_def)
  note A = solo_called [OF x(1) solo_init this x(2)]
  obtain s h y where s: "get_mut (\<lambda>d. 2 * d) x = (s, h, y)" by (cases "get_mut (\<lambda>d. 2 * d) x")
  have r: "runs (borrow_step NoStd) (world_init 10) (map Inl ?es @ [Inr (\<lambda>d. 2 * d)]) (s, h, y)"
    using runs.more [OF borrow_shared [OF x(1)] borrow_step.exclusive [OF A(4), where f = "\<lambda>d. 2 * d"]]
    unfolding s .
  obtain a where a: "borrow_spec NoStd (map Inl ?es @ [Inr (\<lambda>d. 2 * d)]) (spec_init 10) = Some a"
    "data s = sdata a" "\<not> raced h"
    using borrow_refines [OF r] by blast
  have "sdata a = 22" using a(1) by (auto simp: spec_init_def split: if_splits)
  with a(2) have "data s = 22" by simp
  with r a(3) show ?thesis by blast
qed

end
