(* ===== verification/Vdso_Config.thy ===== *)
theory Vdso_Config
  imports Prelude "HOL-Library.Word"
begin

section \<open>Kernel results and the pool's geometry (\<open>utils.rs\<close>, \<open>config.rs\<close>, \<open>auxv.rs\<close>)\<close>

text \<open>
  The pieces of \<open>vdso-rng\<close> that turn what the kernel answers into the values the pool works
  with: the processor count, the result of \<open>mmap\<close>, the size of a block and how many states it
  holds, the auxiliary vector. What a system call returns is an argument: the raw 64-bit result
  register (\<open>raw_syscall!\<close> hands a failure over as the negated error number), or the bytes the
  kernel wrote. A \<open>usize\<close> is a natural number with its overflow written out, a \<open>c_uint\<close> a
  word of 32 bits.
\<close>

datatype error = PoolPoisoned | NotSupported | AllocationFailure | Errno int

abbreviation "usize_add \<equiv> uint_add 64"
abbreviation "usize_sub \<equiv> uint_sub 64"
abbreviation "usize_mul \<equiv> uint_mul 64"

subsection \<open>The number of processors\<close>

definition count_ones :: "nat \<Rightarrow> nat" where
  "count_ones b = length (filter (bit b) [0..<8])"

definition guess_cpu_count :: "64 word \<Rightarrow> nat list \<Rightarrow> nat" where
  "guess_cpu_count res cpu_set =
     (if sint res \<le> 0 then 1
      else let n = sum_list (map count_ones cpu_set) in if n = 0 then 1 else n)"

lemma guess_cpu_count_pos: "1 \<le> guess_cpu_count res cpu_set"
  unfolding guess_cpu_count_def Let_def by (simp del: sum_list_eq_0_iff)

lemma count_ones_le: "count_ones b \<le> 8"
  using length_filter_le [of "bit b" "[0..<8]"] by (simp add: count_ones_def)

lemma sum_count_ones: "sum_list (map count_ones bs) \<le> 8 * length bs"
proof (induction bs)
  case (Cons b bs)
  then show ?case using count_ones_le [of b] by simp
qed simp

lemma guess_cpu_count_bound: "length cpu_set = 128 \<Longrightarrow> guess_cpu_count res cpu_set \<le> 1024"
  using sum_count_ones [of cpu_set] by (simp add: guess_cpu_count_def Let_def)

subsection \<open>Mapping memory\<close>

text \<open>\<open>mmap\<close> is given the raw result of the system call; \<open>None\<close> is the failure it reports.\<close>

definition mmap :: "64 word \<Rightarrow> 64 word option" where
  "mmap addr = (if sint addr = -1 then None else if addr = 0 then None else Some addr)"

definition syscall_failed :: "64 word \<Rightarrow> bool" where
  "syscall_failed res \<longleftrightarrow> -4095 \<le> sint res \<and> sint res \<le> -1"

text \<open>A failure is one of the last 4095 values of the result register.\<close>

lemma syscall_failed_iff: "syscall_failed res \<longleftrightarrow> 2 ^ 64 - 4095 \<le> unat res"
proof -
  have w: "sint res = (uint res + 2 ^ 63) mod 2 ^ 64 - 2 ^ 63"
    by (simp add: sint_uint signed_take_bit_eq_take_bit_shift take_bit_eq_mod)
  have b: "0 \<le> uint res" "uint res < 2 ^ 64" using uint_lt2p [of res] by simp_all
  have "sint res = (if uint res < 2 ^ 63 then uint res else uint res - 2 ^ 64)"
  proof (cases "uint res < 2 ^ 63")
    case True
    then have "(uint res + 2 ^ 63) mod 2 ^ 64 = uint res + 2 ^ 63" using b(1) by (intro mod_pos_pos_trivial) simp_all
    then show ?thesis using w True by simp
  next
    case False
    have "(uint res + 2 ^ 63) mod 2 ^ 64 = (uint res - 2 ^ 63 + 2 ^ 64) mod 2 ^ 64" by (simp add: add.commute)
    also have "\<dots> = (uint res - 2 ^ 63) mod 2 ^ 64" by (rule mod_add_self2)
    also have "\<dots> = uint res - 2 ^ 63" using b False by (intro mod_pos_pos_trivial) simp_all
    finally show ?thesis using w False by simp
  qed
  moreover have "2 ^ 64 - 4095 \<le> unat res \<longleftrightarrow> int (2 ^ 64 - 4095) \<le> int (unat res)"
    by (simp only: of_nat_le_iff)
  moreover have "\<not> uint res \<le> - 1" using b(1) by linarith
  ultimately show ?thesis using b(2) by (auto simp: syscall_failed_def)
qed

lemma mmap_eq_Some: "mmap addr = Some a \<longleftrightarrow> a = addr \<and> addr \<noteq> 0 \<and> sint addr \<noteq> -1"
  by (auto simp: mmap_def)

lemma mmap_eq_None: "mmap addr = None \<longleftrightarrow> addr = 0 \<or> addr = - 1"
proof -
  have "addr = - 1" if "sint addr = - 1"
  proof -
    have "addr = word_of_int (sint addr)" by simp
    also have "\<dots> = - 1" unfolding that by simp
    finally show ?thesis .
  qed
  then show ?thesis by (auto simp: mmap_def)
qed

subsection \<open>The configuration of a pool\<close>

record opaque_params =
  size_of_opaque_states :: "32 word"
  mmap_prot :: "32 word"
  mmap_flags :: "32 word"
  reserved :: "32 word list"

text \<open>\<open>params.size_of_opaque_states as usize\<close>.\<close>

abbreviation state_size :: "opaque_params \<Rightarrow> nat" where
  "state_size ps \<equiv> unat (size_of_opaque_states ps)"

record config =
  page_size :: nat
  pages_per_block :: nat
  states_per_page :: nat
  params :: opaque_params

text \<open>
  \<open>Config::new\<close>: the vDSO function, called with the length \<open>!0\<close>, has written \<open>ps\<close>; \<open>res\<close>
  and \<open>cpu_set\<close> are what \<open>sched_getaffinity\<close> answers to \<open>guess_cpu_count\<close>. \<open>None\<close> is a
  panic: an overflow in the debug profile, or a division by zero.
\<close>

definition config_new ::
    "profile \<Rightarrow> opaque_params \<Rightarrow> 64 word \<Rightarrow> nat list \<Rightarrow> nat \<Rightarrow> config option" where
  "config_new p ps res cpu_set page =
     do { guessed_bytes \<leftarrow> usize_mul p (guess_cpu_count res cpu_set) (state_size ps);
          r \<leftarrow> uint_rem guessed_bytes page;
          pad \<leftarrow> usize_sub p page r;
          aligned_bytes \<leftarrow> usize_add p guessed_bytes pad;
          spp \<leftarrow> uint_div page (state_size ps);
          ppb \<leftarrow> uint_div aligned_bytes page;
          Some \<lparr>page_size = page, pages_per_block = ppb, states_per_page = spp, params = ps\<rparr> }"

text \<open>
  What every configuration of \<open>Config::new\<close> satisfies (\<open>config_geometry\<close>), and what the pool needs in
  order to hand out states: at least one of them in a page.
\<close>

definition config_made :: "config \<Rightarrow> bool" where
  "config_made c \<longleftrightarrow>
     0 < page_size c \<and> 1 \<le> pages_per_block c \<and> 0 < state_size (params c) \<and>
     states_per_page c * state_size (params c) \<le> page_size c \<and>
     page_size c * pages_per_block c < 2 ^ 64"

definition config_ok :: "config \<Rightarrow> bool" where
  "config_ok c \<longleftrightarrow> config_made c \<and> 1 \<le> states_per_page c"

lemma config_ok_made: "config_ok c \<Longrightarrow> config_made c"
  by (simp add: config_ok_def)

lemma round_up_bounds:
  fixes g page :: nat
  assumes "0 < page"
  shows "g < (g + (page - g mod page)) div page * page"
    and "(g + (page - g mod page)) div page * page \<le> g + page"
proof -
  have "g = g div page * page + g mod page" by simp
  moreover have "g mod page < page" using assms by simp
  ultimately have "g + (page - g mod page) = g div page * page + page" by linarith
  then have "g + (page - g mod page) = (g div page + 1) * page" by simp
  then have e: "(g + (page - g mod page)) div page = g div page + 1"
    using assms by (metis nonzero_mult_div_cancel_right not_gr_zero)
  show "g < (g + (page - g mod page)) div page * page"
    unfolding e using assms dividend_less_div_times by (simp add: add.commute)
  show "(g + (page - g mod page)) div page * page \<le> g + page"
    unfolding e by simp
qed

text \<open>
  The mask has 1024 bits and a state size 32, so nothing overflows unless the page size is above
  \<open>2 ^ 63\<close>: the only panics are the divisions by a page size or a state size of zero.
\<close>

lemma guessed_bytes_bound:
  assumes "length cpu_set = 128"
  shows "guess_cpu_count res cpu_set * state_size ps < 2 ^ 63"
proof -
  have "guess_cpu_count res cpu_set * state_size ps \<le> 1024 * (2 ^ 32 - 1)"
    using guess_cpu_count_bound [OF assms, of res] unsigned_less [of "size_of_opaque_states ps", where 'a = nat]
    by (intro mult_le_mono) simp_all
  then show ?thesis by simp
qed

lemma guessed_bytes_room:
  assumes "length cpu_set = 128" and "page < 2 ^ 63"
  shows "guess_cpu_count res cpu_set * state_size ps + page < 2 ^ 64"
proof -
  have "guess_cpu_count res cpu_set * state_size ps + page < 2 ^ 63 + 2 ^ 63"
    using guessed_bytes_bound [OF assms(1)] assms(2) by (rule add_strict_mono)
  then show ?thesis by simp
qed

lemma config_new_ok:
  assumes "0 < state_size ps" and "0 < page" and "page < 2 ^ 63" and "length cpu_set = 128"
  shows "config_new p ps res cpu_set page =
    Some \<lparr>page_size = page,
      pages_per_block = (guess_cpu_count res cpu_set * state_size ps +
        (page - guess_cpu_count res cpu_set * state_size ps mod page)) div page,
      states_per_page = page div state_size ps, params = ps\<rparr>"
proof -
  let ?g = "guess_cpu_count res cpu_set * state_size ps"
  have "?g mod page \<le> page" using assms(2) by (auto intro: less_imp_le)
  moreover have "?g + (page - ?g mod page) < 2 ^ 64" "?g < 2 ^ 64"
    using guessed_bytes_room [OF assms(4,3), of res ps] by linarith+
  ultimately show ?thesis
    using assms by (simp add: config_new_def arith_ok)
qed

lemma config_new_panics:
  assumes "state_size ps = 0 \<or> page = 0"
  shows "config_new p ps res cpu_set page = None"
  using assms by (auto simp: config_new_def uint_rem_def uint_div_def split: bind_splits)

lemma config_new_geometry:
  fixes res :: "64 word"
  assumes "0 < state_size ps" and "0 < page" and "page < 2 ^ 63" and "length cpu_set = 128"
  defines "cpus \<equiv> guess_cpu_count res cpu_set"
  shows "\<exists>c. config_new p ps res cpu_set page = Some c \<and> page_size c = page \<and> params c = ps \<and>
    states_per_page c = page div state_size ps \<and> config_made c \<and> (config_ok c \<longleftrightarrow> state_size ps \<le> page) \<and>
    cpus * state_size ps < page_size c * pages_per_block c \<and>
    page_size c * pages_per_block c \<le> cpus * state_size ps + page \<and>
    (state_size ps dvd page \<longrightarrow> cpus < pages_per_block c * states_per_page c)"
proof -
  let ?z = "state_size ps"
  let ?g = "cpus * ?z"
  obtain n where n: "(?g + (page - ?g mod page)) div page = n" by blast
  let ?c = "\<lparr>page_size = page, pages_per_block = n, states_per_page = page div ?z, params = ps\<rparr>"
  note new = config_new_ok [OF assms(1-4), of p res, folded cpus_def, unfolded n]
  have lo: "?g < page * n" and hi: "page * n \<le> ?g + page"
    using round_up_bounds [OF assms(2), of ?g, unfolded n] by (simp_all add: mult.commute)
  have pos: "1 \<le> n" using lo by (cases "n = 0") simp_all
  have "page * n < 2 ^ 64"
    using hi guessed_bytes_room [OF assms(4,3), of res ps] unfolding cpus_def by linarith
  moreover have "1 \<le> page div ?z \<longleftrightarrow> ?z \<le> page"
    using assms(1) by (simp add: Suc_le_eq div_greater_zero_iff)
  ultimately have ok: "config_made ?c" "config_ok ?c \<longleftrightarrow> ?z \<le> page"
    using pos assms(1,2) by (simp_all add: config_ok_def config_made_def)
  have "cpus < n * (page div ?z)" if "?z dvd page"
  proof -
    have "page = page div ?z * ?z" using that by simp
    then have "cpus * ?z < n * (page div ?z) * ?z" using lo by (metis mult.assoc mult.commute)
    then show ?thesis by simp
  qed
  then show ?thesis using new ok lo hi by simp
qed

text \<open>Whatever the inputs, a block fits into a \<open>usize\<close>.\<close>

lemma config_new_block:
  assumes "config_new p ps res cpu_set page = Some c"
  shows "0 < page" and "0 < state_size ps" and "page_size c = page"
    and "states_per_page c = page div state_size ps"
    and "page_size c * pages_per_block c < 2 ^ 64"
proof -
  obtain g r pad al spp ppb where b: "uint_rem g page = Some r" "usize_add p g pad = Some al"
    "uint_div page (state_size ps) = Some spp" "uint_div al page = Some ppb"
    "c = \<lparr>page_size = page, pages_per_block = ppb, states_per_page = spp, params = ps\<rparr>"
    using assms by (auto simp: config_new_def bind_eq_Some_conv)
  then show "0 < page" "0 < state_size ps" "page_size c = page" "states_per_page c = page div state_size ps"
    by (auto simp: uint_rem_def uint_div_def split: if_splits)
  have "page * ppb \<le> al" using b(4) by (auto simp: uint_div_def split: if_splits)
  also have "\<dots> < 2 ^ 64" using b(2) by (rule uint_add_bound)
  finally show "page_size c * pages_per_block c < 2 ^ 64" by (simp add: b(5))
qed

subsection \<open>The auxiliary vector\<close>

definition MAX_AUXV_ENTRIES :: nat where "MAX_AUXV_ENTRIES = 64"
definition AT_NULL :: nat where "AT_NULL = 0"

record auxv_entry =
  key :: nat
  "value" :: nat

text \<open>
  \<open>Auxv::new\<close>: the boxed array, all \<open>AT_NULL\<close>, is overwritten from the front by what
  \<open>prctl\<close> wrote; \<open>None\<close> if the call failed.
\<close>

definition auxv_new :: "auxv_entry list option \<Rightarrow> auxv_entry list option" where
  "auxv_new written =
     map_option (\<lambda>es. take MAX_AUXV_ENTRIES
       (es @ replicate MAX_AUXV_ENTRIES \<lparr>key = AT_NULL, value = AT_NULL\<rparr>)) written"

record auxv_iter =
  auxv :: "auxv_entry list"
  index :: nat

definition auxv_next :: "auxv_iter \<Rightarrow> auxv_entry option \<times> auxv_iter" where
  "auxv_next it =
     (if index it < length (auxv it) then
        let current = auxv it ! index it in
        if key current = AT_NULL then (None, it)
        else (Some current, it\<lparr>index := index it + 1\<rparr>)
      else (None, it))"

text \<open>The loop \<open>for entry in auxv.iter()\<close>.\<close>

function auxv_collect :: "auxv_iter \<Rightarrow> auxv_entry list" where
  "auxv_collect it =
     (case auxv_next it of (None, it') \<Rightarrow> [] | (Some e, it') \<Rightarrow> e # auxv_collect it')"
  by pat_completeness auto
termination
  by (relation "measure (\<lambda>it. length (auxv it) - index it)")
    (auto simp: auxv_next_def Let_def split: if_splits)

declare auxv_collect.simps [simp del]

lemma auxv_collect_eq:
  "auxv_collect it = takeWhile (\<lambda>e. key e \<noteq> AT_NULL) (drop (index it) (auxv it))"
proof (induction it rule: auxv_collect.induct)
  case (1 it)
  show ?case
  proof (cases "index it < length (auxv it)")
    case True
    with 1 show ?thesis
      by (subst auxv_collect.simps) (auto simp: auxv_next_def Let_def simp flip: Cons_nth_drop_Suc)
  next
    case False
    then show ?thesis by (subst auxv_collect.simps) (simp add: auxv_next_def)
  qed
qed

end
