(* ===== verification/Vdso_Pool.thy ===== *)
theory Vdso_Pool
  imports Vdso_Config Traces "HOL-Library.Multiset"
begin

section \<open>The shared pool of states (\<open>pool.rs\<close>)\<close>

text \<open>
  Threads get and return state blocks concurrently. The free list is \<open>crossbeam\<close>'s \<open>SegQueue\<close>,
  which is not part of the repository: a parameter with the laws of a concurrent bag. The list of
  mappings is behind a \<open>lamlock::Lock\<close>, which appears here by its contract (one thread inside, a
  panic inside poisons it); the threads inside and outside the lock interleave at each access to the
  free list. \<open>Vdso_Pool_Lock\<close> replaces that contract by the lock itself. The raw result of the
  system call behind \<open>mmap\<close> is an input of the step. An address is a natural number below
  \<open>2 ^ 64\<close>; the pointer arithmetic of \<open>grow\<close> wraps there.
\<close>

subsection \<open>The free list\<close>

record 'q segq =
  sq_new :: 'q
  sq_push :: "'q \<Rightarrow> nat \<Rightarrow> 'q"
  sq_pop :: "'q \<Rightarrow> (nat \<times> 'q) option"

locale seg_queue =
  fixes Q :: "'q segq" and contents :: "'q \<Rightarrow> nat multiset"
  assumes new_law: "contents (sq_new Q) = {#}"
    and push_law: "contents (sq_push Q q x) = add_mset x (contents q)"
    and pop_empty_law: "sq_pop Q q = None \<longleftrightarrow> contents q = {#}"
    and pop_law: "sq_pop Q q = Some (x, q') \<Longrightarrow> contents q = add_mset x (contents q')"

definition fifo :: "nat list segq" where
  "fifo = \<lparr>sq_new = [], sq_push = (\<lambda>q x. q @ [x]),
     sq_pop = (\<lambda>q. case q of [] \<Rightarrow> None | x # xs \<Rightarrow> Some (x, xs))\<rparr>"

interpretation fifo: seg_queue fifo mset
  by unfold_locales (auto simp: fifo_def split: list.splits)

subsection \<open>The states of one mapping\<close>

text \<open>
  The pointers \<open>grow\<close> pushes. \<open>byte_add\<close> on an address past the end of a mapping is undefined
  behaviour in Rust; the model gives it what the machine does.
\<close>

definition block_states :: "config \<Rightarrow> nat \<Rightarrow> nat list" where
  "block_states c page =
     concat (map (\<lambda>p. map (\<lambda>s. (page + p * page_size c + s * state_size (params c)) mod 2 ^ 64)
         [0..<states_per_page c]) [0..<pages_per_block c])"

definition block_size :: "config \<Rightarrow> nat" where
  "block_size c = page_size c * pages_per_block c"

text \<open>Where the states are, counted from the start of the mapping.\<close>

definition block_offsets :: "config \<Rightarrow> nat list" where
  "block_offsets c =
     concat (map (\<lambda>p. map (\<lambda>s. p * page_size c + s * state_size (params c)) [0..<states_per_page c])
       [0..<pages_per_block c])"

lemma block_states_offsets: "block_states c page = map (\<lambda>a. (page + a) mod 2 ^ 64) (block_offsets c)"
  by (simp add: block_states_def block_offsets_def map_concat comp_def add.assoc)

lemma set_block_offsets:
  "a \<in> set (block_offsets c) \<longleftrightarrow>
     (\<exists>p s. p < pages_per_block c \<and> s < states_per_page c \<and>
       a = p * page_size c + s * state_size (params c))"
proof -
  have "set (block_offsets c) = (\<Union>p \<in> {0..<pages_per_block c}.
      (\<lambda>s. p * page_size c + s * state_size (params c)) ` {0..<states_per_page c})"
    by (simp add: block_offsets_def)
  then show ?thesis
    by (simp only: UN_iff image_iff Bex_def atLeastLessThan_iff le0 simp_thms) blast
qed

lemma length_block_states:
  "length (block_states c page) = pages_per_block c * states_per_page c"
  by (simp add: block_states_def length_concat comp_def sum_list_triv)

lemma block_states_bound: "a \<in> set (block_states c page) \<Longrightarrow> a < 2 ^ 64"
  by (auto simp: block_states_offsets)

text \<open>
  A state does not cross its page, and two states of a mapping that lies within the address space do
  not overlap.
\<close>

lemma state_fits_page:
  assumes "config_made c" and "s < states_per_page c"
  shows "s * state_size (params c) + state_size (params c) \<le> page_size c"
proof -
  have "(s + 1) * state_size (params c) \<le>
      states_per_page c * state_size (params c)"
    using assms(2) by (intro mult_le_mono1) simp
  also have "\<dots> \<le> page_size c" using assms(1) by (simp add: config_made_def)
  finally show ?thesis by simp
qed

lemma page_fits_block:
  assumes "p < pages_per_block c"
  shows "p * page_size c + page_size c \<le> block_size c"
proof -
  have "(p + 1) * page_size c \<le> pages_per_block c * page_size c"
    using assms by (intro mult_le_mono1) simp
  then show ?thesis by (simp add: block_size_def mult.commute)
qed

lemma offset_in_block:
  assumes "config_made c" and "a \<in> set (block_offsets c)"
  shows "a + state_size (params c) \<le> block_size c" and "a < block_size c"
proof -
  obtain p s where ps: "p < pages_per_block c" "s < states_per_page c"
    "a = p * page_size c + s * state_size (params c)"
    using assms(2) by (auto simp: set_block_offsets)
  have "0 < state_size (params c)" using assms(1) by (simp add: config_made_def)
  then show "a + state_size (params c) \<le> block_size c" "a < block_size c"
    using ps(3) state_fits_page [OF assms(1) ps(2)] page_fits_block [OF ps(1)] by linarith+
qed

lemma offset_apart:
  assumes "config_made c" and "p < p' \<or> p = p' \<and> s < s'" and "s < states_per_page c"
  shows "p * page_size c + s * state_size (params c) + state_size (params c) \<le>
    p' * page_size c + s' * state_size (params c)"
  using assms(2)
proof
  assume "p < p'"
  then have "(p + 1) * page_size c \<le> p' * page_size c" by (intro mult_le_mono1) simp
  then show ?thesis using state_fits_page [OF assms(1,3)] by simp
next
  assume "p = p' \<and> s < s'"
  then have "p = p'" "s + 1 \<le> s'" by auto
  with mult_le_mono1 [OF this(2), of "state_size (params c)"] show ?thesis by simp
qed

lemma block_offsets_apart:
  assumes "config_made c" and "a \<in> set (block_offsets c)" and "b \<in> set (block_offsets c)"
    and "a < b"
  shows "a + state_size (params c) \<le> b"
proof -
  obtain p s p' s' where
    a: "s < states_per_page c" "a = p * page_size c + s * state_size (params c)" and
    b: "s' < states_per_page c" "b = p' * page_size c + s' * state_size (params c)"
    using assms(2,3) by (auto simp: set_block_offsets)
  have "\<not> (p' < p \<or> p' = p \<and> s' \<le> s)"
    using offset_apart [OF assms(1) _ b(1), of p' p s] a b assms(4) by fastforce
  then have "p < p' \<or> p = p' \<and> s < s'" by auto
  from offset_apart [OF assms(1) this a(1)] a(2) b(2) show ?thesis by linarith
qed

lemma distinct_block_offsets:
  assumes "config_made c"
  shows "distinct (block_offsets c)"
proof -
  let ?z = "state_size (params c)"
  let ?row = "\<lambda>p. map (\<lambda>s. p * page_size c + s * ?z) [0..<states_per_page c]"
  have c: "0 < ?z" and page: "0 < page_size c" using assms by (auto simp: config_made_def)
  have apart: "p * page_size c + s * ?z \<noteq> p' * page_size c + s' * ?z"
    if "p < p'" "s < states_per_page c" for p p' s s'
    using offset_apart [OF assms _ that(2), of p p' s'] that(1) c by simp
  have "distinct (concat (map ?row [0..<pages_per_block c]))" if spp: "0 < states_per_page c"
  proof (rule distinct_concat)
    have "inj ?row"
    proof (rule injI)
      fix p p'
      assume "?row p = ?row p'"
      then have "?row p ! 0 = ?row p' ! 0" by (rule arg_cong [where f = "\<lambda>r. r ! 0"])
      then show "p = p'" using spp page by simp
    qed
    then show "distinct (map ?row [0..<pages_per_block c])"
      using inj_on_subset [of ?row UNIV] by (simp add: distinct_map)
  next
    fix ys
    assume "ys \<in> set (map ?row [0..<pages_per_block c])"
    then obtain p where "ys = ?row p" by auto
    then show "distinct ys" using c by (simp add: distinct_map inj_on_def)
  next
    fix ys zs
    assume "ys \<in> set (map ?row [0..<pages_per_block c])"
      "zs \<in> set (map ?row [0..<pages_per_block c])" "ys \<noteq> zs"
    then obtain p p' where "ys = ?row p" "zs = ?row p'" "p < p' \<or> p' < p"
      by (auto simp: nat_neq_iff [symmetric])
    then show "set ys \<inter> set zs = {}"
      using apart [of p p'] apart [of p' p] by (auto simp: image_iff) (metis)+
  qed
  moreover have "block_offsets c = []" if "states_per_page c = 0"
    using that length_block_states [of c 0] by (simp only: block_states_offsets length_map mult_0_right length_0_conv)
  ultimately show ?thesis
    by (cases "states_per_page c = 0") (simp, simp add: block_offsets_def [symmetric])
qed

text \<open>In a mapping within the address space no address wraps.\<close>

lemma block_states_fit:
  assumes "config_made c" and "page + block_size c \<le> 2 ^ 64"
  shows "block_states c page = map ((+) page) (block_offsets c)"
  unfolding block_states_offsets
proof (rule map_cong [OF refl])
  fix a
  assume "a \<in> set (block_offsets c)"
  then have "page + a < 2 ^ 64" using offset_in_block(2) [OF assms(1)] assms(2) by fastforce
  then show "(page + a) mod 2 ^ 64 = page + a" by (rule mod_less)
qed

lemma state_in_block:
  assumes "config_made c" and "page + block_size c \<le> 2 ^ 64" and "a \<in> set (block_states c page)"
  shows "page \<le> a" and "a + state_size (params c) \<le> page + block_size c"
    and "a < page + block_size c"
  using assms(3) offset_in_block [OF assms(1)] by (fastforce simp: block_states_fit [OF assms(1,2)])+

lemma block_states_apart:
  assumes "config_made c" and "page + block_size c \<le> 2 ^ 64"
    and "a \<in> set (block_states c page)" and "b \<in> set (block_states c page)" and "a < b"
  shows "a + state_size (params c) \<le> b"
  using assms(3-5) block_offsets_apart [OF assms(1)] by (fastforce simp: block_states_fit [OF assms(1,2)])

lemma distinct_block_states:
  assumes "config_made c" and "page + block_size c \<le> 2 ^ 64"
  shows "distinct (block_states c page)"
  using distinct_block_offsets [OF assms(1)] by (simp add: block_states_fit [OF assms] distinct_map)

text \<open>A mapping at the very end of the address space wraps to its beginning.\<close>

lemma state_at_end:
  assumes "config_made c" and "page < 2 ^ 64" and "a \<in> set (block_states c page)"
  shows "page \<le> a \<or> a < block_size c"
proof -
  obtain x where x: "x \<in> set (block_offsets c)" "a = (page + x) mod 2 ^ 64"
    using assms(3) by (auto simp: block_states_offsets)
  have b: "x < block_size c" "block_size c < 2 ^ 64"
    using offset_in_block(2) [OF assms(1) x(1)] assms(1) by (simp_all add: config_made_def block_size_def)
  show ?thesis
  proof (cases "page + x < 2 ^ 64")
    case True
    then have "a = page + x" using x(2) by simp
    then show ?thesis by simp
  next
    case False
    have "page + x < 2 ^ 64 + 2 ^ 64" using assms(2) less_trans [OF b] by (rule add_strict_mono)
    then have "a = page + x - 2 ^ 64" using x(2) False by (simp add: mod_if)
    then show ?thesis using assms(2) b(1) by linarith
  qed
qed

subsection \<open>The operations, one access at a time\<close>

text \<open>
  \<open>Pool::get\<close> tries the free list, then goes through the lock and, inside it, tries again and
  maps a new block until the free list yields a state. The control point of a thread is one of
  these; \<open>LockedPush\<close> carries the states of the new block still to be pushed, \<open>Unlocking\<close> the
  result of the closure.
\<close>

datatype pool_pc =
    Outside
  | GetPop
  | GetLock
  | LockedPop
  | LockedGrow
  | LockedPush "nat list"
  | Unlocking "error + nat"

record 'q pool =
  pconfig :: config
  mmaps :: "nat list"
  freelist :: 'q
  holder :: "nat option"
  lock_poison :: bool
  held :: "nat multiset"
  ppcs :: "nat \<Rightarrow> pool_pc"

text \<open>
  What the outside sees: a call of \<open>get\<close> returns or unwinds, a block is mapped, a state is
  returned.
\<close>

datatype pool_event =
    Got nat "error + nat"
  | GetPanicked nat
  | Mapped nat nat
  | Returned nat

datatype 'q pool_step = PNext "'q pool" "pool_event list" | PBlocked

definition pool_new :: "'q segq \<Rightarrow> config \<Rightarrow> 'q pool" where
  "pool_new Q c =
     \<lparr>pconfig = c, mmaps = [], freelist = sq_new Q, holder = None, lock_poison = False,
      held = {#}, ppcs = (\<lambda>_. Outside)\<rparr>"

definition pgoto :: "nat \<Rightarrow> pool_pc \<Rightarrow> 'q pool \<Rightarrow> 'q pool" where
  "pgoto t k s = s\<lparr>ppcs := (ppcs s)(t := k)\<rparr>"

text \<open>\<open>LocalState::new\<close> keeps the state that \<open>get\<close> returned.\<close>

definition got :: "nat \<Rightarrow> error + nat \<Rightarrow> 'q pool \<Rightarrow> 'q pool_step" where
  "got t r s =
     PNext (pgoto t Outside
       (case r of Inl e \<Rightarrow> s | Inr x \<Rightarrow> s\<lparr>held := add_mset x (held s)\<rparr>)) [Got t r]"

definition get_pop :: "'q segq \<Rightarrow> nat \<Rightarrow> 'q pool \<Rightarrow> 'q pool_step" where
  "get_pop Q t s =
     (case sq_pop Q (freelist s) of
        Some (ptr, q) \<Rightarrow> got t (Inr ptr) (s\<lparr>freelist := q\<rparr>)
      | None \<Rightarrow> PNext (pgoto t GetLock s) [])"

definition get_lock :: "nat \<Rightarrow> 'q pool \<Rightarrow> 'q pool_step" where
  "get_lock t s =
     (if holder s \<noteq> None then PBlocked
      else if lock_poison s then got t (Inl PoolPoisoned) s
      else PNext (pgoto t LockedPop (s\<lparr>holder := Some t\<rparr>)) [])"

definition locked_pop :: "'q segq \<Rightarrow> nat \<Rightarrow> 'q pool \<Rightarrow> 'q pool_step" where
  "locked_pop Q t s =
     (case sq_pop Q (freelist s) of
        Some (ptr, q) \<Rightarrow> PNext (pgoto t (Unlocking (Inr ptr)) (s\<lparr>freelist := q\<rparr>)) []
      | None \<Rightarrow> PNext (pgoto t LockedGrow s) [])"

text \<open>\<open>grow\<close>: the size may overflow, which panics inside the lock.\<close>

definition grow_map :: "profile \<Rightarrow> nat \<Rightarrow> 64 word \<Rightarrow> 'q pool \<Rightarrow> 'q pool_step" where
  "grow_map p t res s =
     (case usize_mul p (page_size (pconfig s)) (pages_per_block (pconfig s)) of
        None \<Rightarrow> PNext (pgoto t Outside (s\<lparr>holder := None, lock_poison := True\<rparr>)) [GetPanicked t]
      | Some bytes \<Rightarrow>
          (case mmap res of
             None \<Rightarrow> PNext (pgoto t (Unlocking (Inl AllocationFailure)) s) []
           | Some page \<Rightarrow>
               PNext (pgoto t (LockedPush (block_states (pconfig s) (unat page)))
                 (s\<lparr>mmaps := mmaps s @ [unat page]\<rparr>)) [Mapped t (unat page)]))"

definition grow_push :: "'q segq \<Rightarrow> nat \<Rightarrow> nat list \<Rightarrow> 'q pool \<Rightarrow> 'q pool_step" where
  "grow_push Q t rest s =
     (case rest of
        [] \<Rightarrow> PNext (pgoto t LockedPop s) []
      | x # xs \<Rightarrow> PNext (pgoto t (LockedPush xs) (s\<lparr>freelist := sq_push Q (freelist s) x\<rparr>)) [])"

definition get_unlock :: "nat \<Rightarrow> error + nat \<Rightarrow> 'q pool \<Rightarrow> 'q pool_step" where
  "get_unlock t r s = got t r (s\<lparr>holder := None\<rparr>)"

fun pool_step_pc ::
    "profile \<Rightarrow> 'q segq \<Rightarrow> nat \<Rightarrow> 64 word \<Rightarrow> 'q pool \<Rightarrow> pool_pc \<Rightarrow> 'q pool_step" where
  "pool_step_pc p Q t res s Outside = PBlocked"
| "pool_step_pc p Q t res s GetPop = get_pop Q t s"
| "pool_step_pc p Q t res s GetLock = get_lock t s"
| "pool_step_pc p Q t res s LockedPop = locked_pop Q t s"
| "pool_step_pc p Q t res s LockedGrow = grow_map p t res s"
| "pool_step_pc p Q t res s (LockedPush rest) = grow_push Q t rest s"
| "pool_step_pc p Q t res s (Unlocking r) = get_unlock t r s"

definition pool_step :: "profile \<Rightarrow> 'q segq \<Rightarrow> nat \<Rightarrow> 64 word \<Rightarrow> 'q pool \<Rightarrow> 'q pool_step" where
  "pool_step p Q t res s = pool_step_pc p Q t res s (ppcs s t)"

text \<open>Dropping a \<open>LocalState\<close> returns its state.\<close>

definition recycle :: "'q segq \<Rightarrow> nat \<Rightarrow> 'q pool \<Rightarrow> 'q pool" where
  "recycle Q ptr s = s\<lparr>freelist := sq_push Q (freelist s) ptr, held := held s - {#ptr#}\<rparr>"

text \<open>\<open>kernel s res\<close>: the system call behind \<open>mmap\<close> may have the raw result \<open>res\<close> in the state \<open>s\<close>.\<close>

inductive pool_sys ::
    "profile \<Rightarrow> 'q segq \<Rightarrow> ('q pool \<Rightarrow> 64 word \<Rightarrow> bool) \<Rightarrow>
     'q pool \<Rightarrow> pool_event list \<Rightarrow> 'q pool \<Rightarrow> bool"
  for p Q kernel where
  call: "ppcs s t = Outside \<Longrightarrow> pool_sys p Q kernel s [] (pgoto t GetPop s)"
| thread: "(ppcs s t = LockedGrow \<longrightarrow> kernel s res) \<Longrightarrow> pool_step p Q t res s = PNext s' es \<Longrightarrow>
    pool_sys p Q kernel s es s'"
| return: "ptr \<in># held s \<Longrightarrow> pool_sys p Q kernel s [Returned ptr] (recycle Q ptr s)"

subsection \<open>Dropping the pool\<close>

text \<open>The counter, a \<open>usize\<close>, is there in the debug profile only.\<close>

partial_function (option) drain :: "profile \<Rightarrow> 'q segq \<Rightarrow> 'q \<Rightarrow> nat \<Rightarrow> nat option" where
  [code]: "drain p Q q counter =
     (case sq_pop Q q of
        None \<Rightarrow> Some counter
      | Some (ptr, q') \<Rightarrow>
          do { counter' \<leftarrow> (if p = Debug then usize_add p counter 1 else Some counter);
               drain p Q q' counter' })"

text \<open>The \<open>munmap\<close> calls, in order; \<open>None\<close> is a failing assertion (or a loop without end).\<close>

definition pool_drop :: "profile \<Rightarrow> 'q segq \<Rightarrow> 'q pool \<Rightarrow> (nat \<times> nat) list option" where
  "pool_drop p Q s =
     do { counter \<leftarrow> drain p Q (freelist s) 0;
          _ \<leftarrow> (if p = Debug then
                do { a \<leftarrow> usize_mul p (pages_per_block (pconfig s)) (states_per_page (pconfig s));
                     expected \<leftarrow> usize_mul p a (length (mmaps s));
                     if counter = expected then Some () else None }
              else Some ());
          bytes \<leftarrow> usize_mul p (page_size (pconfig s)) (pages_per_block (pconfig s));
          Some (map (\<lambda>ptr. (ptr, bytes)) (mmaps s)) }"

end
