(* ===== verification/Vdso_Pool_Correct.thy ===== *)
theory Vdso_Pool_Correct
  imports Vdso_Pool
begin

section \<open>The invariant of the pool\<close>

text \<open>
  Every state of every mapping is in exactly one place: the free list, a live \<open>LocalState\<close>, or in
  flight inside the lock. That holds whatever the kernel answers. That no two states share a byte
  needs the kernel: what is assumed of it is in \<open>documented_kernel\<close>. A failed system call whose
  error number is not 1 becomes a mapping of the pool; nothing is claimed of the states of those.
\<close>

definition inside :: "pool_pc \<Rightarrow> bool" where
  "inside k =
     (case k of
        LockedPop \<Rightarrow> True | LockedGrow \<Rightarrow> True | LockedPush xs \<Rightarrow> True | Unlocking r \<Rightarrow> True
      | _ \<Rightarrow> False)"

lemma inside_simps [simp]:
  "\<not> inside Outside" "\<not> inside GetPop" "\<not> inside GetLock" "inside LockedPop" "inside LockedGrow"
  "inside (LockedPush xs)" "inside (Unlocking r)"
  by (simp_all add: inside_def)

definition carried :: "pool_pc \<Rightarrow> nat multiset" where
  "carried k =
     (case k of
        LockedPush xs \<Rightarrow> mset xs
      | Unlocking r \<Rightarrow> (case r of Inr x \<Rightarrow> {#x#} | Inl e \<Rightarrow> {#})
      | _ \<Rightarrow> {#})"

lemma carried_simps [simp]:
  "carried Outside = {#}" "carried GetPop = {#}" "carried GetLock = {#}" "carried LockedPop = {#}"
  "carried LockedGrow = {#}" "carried (LockedPush xs) = mset xs"
  "carried (Unlocking (Inr x)) = {#x#}" "carried (Unlocking (Inl e)) = {#}"
  by (simp_all add: carried_def)

definition in_transit :: "'q pool \<Rightarrow> nat multiset" where
  "in_transit s = (case holder s of None \<Rightarrow> {#} | Some t \<Rightarrow> carried (ppcs s t))"

definition all_states :: "'q pool \<Rightarrow> nat list" where
  "all_states s = concat (map (block_states (pconfig s)) (mmaps s))"

definition apart :: "nat \<Rightarrow> nat \<Rightarrow> nat \<Rightarrow> bool" where
  "apart n a b \<longleftrightarrow> a + n \<le> b \<or> b + n \<le> a"

definition regions_ok :: "config \<Rightarrow> nat list \<Rightarrow> bool" where
  "regions_ok c ms \<longleftrightarrow> distinct ms \<and>
     (\<forall>m \<in> set ms. 0 < m \<and> m + block_size c \<le> 2 ^ 64) \<and>
     (\<forall>m \<in> set ms. \<forall>m' \<in> set ms. m \<noteq> m' \<longrightarrow> apart (block_size c) m m')"

text \<open>
  The mappings that are none: \<open>grow\<close> took the negated error number of a failed call for an
  address.
\<close>

definition errno_address :: "nat \<Rightarrow> bool" where
  "errno_address m \<longleftrightarrow> 2 ^ 64 - 4095 \<le> m"

definition real_mappings :: "'q pool \<Rightarrow> nat list" where
  "real_mappings s = filter (\<lambda>m. \<not> errno_address m) (mmaps s)"

definition real_states :: "'q pool \<Rightarrow> nat list" where
  "real_states s = concat (map (block_states (pconfig s)) (real_mappings s))"

definition error_states :: "'q pool \<Rightarrow> nat list" where
  "error_states s = concat (map (block_states (pconfig s)) (filter errno_address (mmaps s)))"

text \<open>
  The documented results of the system call \<open>mmap\<close>: any failure, or the start of a block that lies
  within the address space and apart from the blocks that it mapped before.
\<close>

definition documented_kernel :: "'q pool \<Rightarrow> 64 word \<Rightarrow> bool" where
  "documented_kernel s res \<longleftrightarrow>
     syscall_failed res \<or> res = 0 \<or>
     unat res + block_size (pconfig s) \<le> 2 ^ 64 \<and>
     (\<forall>m \<in> set (real_mappings s). apart (block_size (pconfig s)) (unat res) m)"

lemma all_states_split: "mset (all_states s) = mset (real_states s) + mset (error_states s)"
proof -
  have "mset (concat (map f ms)) =
      mset (concat (map f (filter (\<lambda>m. \<not> P m) ms))) + mset (concat (map f (filter P ms)))" for f P and ms :: "nat list"
    by (induction ms) auto
  then show ?thesis by (simp add: all_states_def real_states_def error_states_def real_mappings_def)
qed

subsection \<open>States of different mappings\<close>

lemma block_size_pos: "config_made c \<Longrightarrow> 0 < block_size c"
  by (simp add: config_made_def block_size_def)

lemma regions_snoc:
  assumes "regions_ok c ms" and "config_made c" and "0 < m" and "m + block_size c \<le> 2 ^ 64"
    and "\<forall>m' \<in> set ms. apart (block_size c) m m'"
  shows "regions_ok c (ms @ [m])"
proof -
  have "m \<notin> set ms" using assms(5) block_size_pos [OF assms(2)] by (auto simp: apart_def)
  then show ?thesis using assms by (auto simp: regions_ok_def apart_def)
qed

lemma states_apart:
  assumes "config_made c" and "regions_ok c ms"
    and "a \<in> set (concat (map (block_states c) ms))" and "b \<in> set (concat (map (block_states c) ms))"
    and "a \<noteq> b"
  shows "apart (state_size (params c)) a b"
proof -
  obtain m m' where m: "m \<in> set ms" "a \<in> set (block_states c m)" and
    m': "m' \<in> set ms" "b \<in> set (block_states c m')"
    using assms(3,4) by auto
  show ?thesis
  proof (cases "m = m'")
    case True
    have "m + block_size c \<le> 2 ^ 64" using assms(2) m(1) by (simp add: regions_ok_def)
    with True m m' assms(1,5) show ?thesis
      using block_states_apart [of c m a b] block_states_apart [of c m b a]
      by (auto simp: apart_def nat_neq_iff)
  next
    case False
    then have "apart (block_size c) m m'" "m + block_size c \<le> 2 ^ 64" "m' + block_size c \<le> 2 ^ 64"
      using assms(2) m(1) m'(1) by (auto simp: regions_ok_def)
    then show ?thesis
      using state_in_block [OF assms(1) _ m(2)] state_in_block [OF assms(1) _ m'(2)]
      by (auto simp: apart_def)
  qed
qed

lemma distinct_states:
  assumes "config_made c" and "regions_ok c ms"
  shows "distinct (concat (map (block_states c) ms))"
  using assms(2)
proof (induction ms)
  case (Cons m ms)
  have "set (block_states c m) \<inter> set (concat (map (block_states c) ms)) = {}"
  proof (rule ccontr)
    assume "\<not> ?thesis"
    then obtain a m' where a: "a \<in> set (block_states c m)" "m' \<in> set ms" "a \<in> set (block_states c m')"
      by auto
    then have "apart (block_size c) m m'" "m + block_size c \<le> 2 ^ 64" "m' + block_size c \<le> 2 ^ 64"
      using Cons.prems by (auto simp: regions_ok_def)
    then show False
      using state_in_block [OF assms(1) _ a(1)] state_in_block [OF assms(1) _ a(3)]
      by (auto simp: apart_def)
  qed
  moreover have "regions_ok c ms" "m + block_size c \<le> 2 ^ 64"
    using Cons.prems by (auto simp: regions_ok_def)
  ultimately show ?case using Cons.IH distinct_block_states [OF assms(1)] by simp
qed simp

lemma length_states:
  "length (concat (map (block_states c) ms)) = pages_per_block c * states_per_page c * length ms"
  by (induction ms) (simp_all add: length_block_states)

lemma states_bound:
  assumes "config_made c" and "regions_ok c ms"
  shows "pages_per_block c * states_per_page c * length ms < 2 ^ 64"
proof -
  let ?xs = "concat (map (block_states c) ms)"
  have "set ?xs \<subseteq> {1..<2 ^ 64}"
  proof
    fix a
    assume "a \<in> set ?xs"
    then obtain m where m: "m \<in> set ms" "a \<in> set (block_states c m)" by auto
    then have "0 < m" "m + block_size c \<le> 2 ^ 64" using assms(2) by (auto simp: regions_ok_def)
    then show "a \<in> {1..<2 ^ 64}" using state_in_block [OF assms(1) _ m(2)] by auto
  qed
  then have "card (set ?xs) \<le> card {1..<2 ^ 64 :: nat}" by (intro card_mono) auto
  then have "length ?xs \<le> 2 ^ 64 - 1"
    using distinct_card [OF distinct_states [OF assms]] by simp
  then show ?thesis by (simp add: length_states)
qed

subsection \<open>The real mappings\<close>

text \<open>With the documented kernel, the mappings that are real do not overlap.\<close>

definition mapped_ok :: "'q pool \<Rightarrow> bool" where
  "mapped_ok s \<longleftrightarrow> config_made (pconfig s) \<and> regions_ok (pconfig s) (real_mappings s)"

lemma mapped_ok_new: "config_made c \<Longrightarrow> mapped_ok (pool_new Q c)"
  by (simp add: mapped_ok_def pool_new_def regions_ok_def real_mappings_def)

lemma mapped_ok_same:
  "mapped_ok s \<Longrightarrow> pconfig s' = pconfig s \<Longrightarrow> mmaps s' = mmaps s \<Longrightarrow> mapped_ok s'"
  by (simp add: mapped_ok_def real_mappings_def)

lemma mapped_ok_step:
  assumes ok: "mapped_ok s" and "ppcs s t = LockedGrow \<longrightarrow> documented_kernel s res"
    and step: "pool_step p Q t res s = PNext s' es"
  shows "mapped_ok s'"
proof (cases "ppcs s t = LockedGrow")
  case True
  have sz: "usize_mul p (page_size (pconfig s)) (pages_per_block (pconfig s)) =
      Some (block_size (pconfig s))"
    using ok by (simp add: mapped_ok_def config_made_def block_size_def arith_ok)
  show ?thesis
  proof (cases "mmap res")
    case None
    then show ?thesis
      using True sz step
      by (intro mapped_ok_same [OF ok]) (auto simp: pool_step_def grow_map_def pgoto_def)
  next
    case (Some page)
    then have s': "pconfig s' = pconfig s" "mmaps s' = mmaps s @ [unat page]" and page: "page = res" "res \<noteq> 0"
      using True sz step by (auto simp: pool_step_def grow_map_def pgoto_def dest: mmap_eq_Some [THEN iffD1])
    note s' = s' [unfolded page(1)]
    have pos: "0 < unat res" using page by (simp add: unat_gt_0)
    show ?thesis
    proof (cases "errno_address (unat res)")
      case err: True
      then show ?thesis using ok s' by (simp add: mapped_ok_def real_mappings_def)
    next
      case real: False
      then have "\<not> syscall_failed res" by (simp add: syscall_failed_iff errno_address_def)
      then have "unat res + block_size (pconfig s) \<le> 2 ^ 64"
        "\<forall>m \<in> set (real_mappings s). apart (block_size (pconfig s)) (unat res) m"
        using assms(2) True page by (auto simp: documented_kernel_def)
      moreover have "real_mappings s' = real_mappings s @ [unat res]"
        using real s'(2) by (simp add: real_mappings_def)
      ultimately show ?thesis
        using ok s'(1) pos by (auto simp: mapped_ok_def intro: regions_snoc)
    qed
  qed
next
  case False
  then show ?thesis
    using step by (intro mapped_ok_same [OF ok]; cases "ppcs s t")
      (auto simp: pool_step_def get_pop_def get_lock_def locked_pop_def grow_push_def
        get_unlock_def got_def pgoto_def split: option.splits if_splits list.splits sum.splits)
qed

lemma mapped_ok_sys:
  assumes "mapped_ok s" and "pool_sys p Q documented_kernel s es s'"
  shows "mapped_ok s'"
  using assms(2)
proof cases
  case (call t)
  then show ?thesis by (intro mapped_ok_same [OF assms(1)]) (simp_all add: pgoto_def)
next
  case (thread t res)
  then show ?thesis using mapped_ok_step [OF assms(1)] by blast
next
  case (return ptr)
  then show ?thesis by (intro mapped_ok_same [OF assms(1)]) (simp_all add: recycle_def)
qed

text \<open>A state that is free once more than it is rented, of a real mapping, is apart from the rented ones.\<close>

lemma fresh_state:
  assumes ok: "mapped_ok s" and sub: "add_mset x (held s) \<subseteq># mset (all_states s)"
    and x: "x \<notin> set (error_states s)"
  shows "x \<notin># held s"
    and "\<forall>y \<in># held s. y \<in> set (error_states s) \<or> apart (state_size (params (pconfig s))) x y"
proof -
  have c: "config_made (pconfig s)" "regions_ok (pconfig s) (real_mappings s)"
    using ok by (simp_all add: mapped_ok_def)
  have real: "y \<in> set (real_states s)" if "y \<in># add_mset x (held s)" "y \<notin> set (error_states s)" for y
  proof -
    have "y \<in># mset (real_states s) + mset (error_states s)"
      using mset_subset_eqD [OF sub that(1)] all_states_split by metis
    with that(2) show ?thesis by simp
  qed
  have "count (add_mset x (held s)) x \<le> count (mset (all_states s)) x"
    by (rule mset_subset_eq_count [OF sub])
  also have "\<dots> = count (mset (real_states s)) x" using x by (simp add: all_states_split count_mset_0_iff)
  also have "\<dots> \<le> 1"
    using distinct_states [OF c] by (simp add: real_states_def distinct_count_atmost_1)
  finally show nin: "x \<notin># held s" by (simp add: not_in_iff)
  show "\<forall>y \<in># held s. y \<in> set (error_states s) \<or> apart (state_size (params (pconfig s))) x y"
  proof
    fix y
    assume y: "y \<in># held s"
    with nin have "x \<noteq> y" by blast
    then show "y \<in> set (error_states s) \<or> apart (state_size (params (pconfig s))) x y"
      using states_apart [OF c, of x y] real [of x] real [of y] x y by (auto simp: real_states_def)
  qed
qed

subsection \<open>Every step keeps the invariant\<close>

context seg_queue
begin

definition pool_inv :: "'q pool \<Rightarrow> bool" where
  "pool_inv s \<longleftrightarrow> config_made (pconfig s) \<and>
     (\<forall>t. inside (ppcs s t) \<longleftrightarrow> holder s = Some t) \<and> \<not> lock_poison s \<and>
     contents (freelist s) + held s + in_transit s = mset (all_states s)"

lemma pool_inv_new: "config_made c \<Longrightarrow> pool_inv (pool_new Q c)"
  by (simp add: pool_inv_def pool_new_def in_transit_def all_states_def new_law)

lemma holder_iff: "pool_inv s \<Longrightarrow> inside (ppcs s t) \<longleftrightarrow> holder s = Some t"
  by (simp add: pool_inv_def)

lemma pool_balance:
  "pool_inv s \<Longrightarrow> contents (freelist s) + held s + in_transit s = mset (all_states s)"
  by (simp add: pool_inv_def)

text \<open>A move outside the lock, and a move of the thread that has, takes or gives up the lock.\<close>

lemma pool_inv_outside:
  assumes inv: "pool_inv s" and "\<not> inside (ppcs s t)" and "\<not> inside k"
    and s': "pconfig s' = pconfig s" "mmaps s' = mmaps s" "holder s' = holder s"
      "lock_poison s' = lock_poison s" "ppcs s' = (ppcs s)(t := k)"
    and "contents (freelist s') + held s' = contents (freelist s) + held s"
  shows "pool_inv s'"
proof -
  have t: "holder s \<noteq> Some t" using holder_iff [OF inv, of t] assms(2) by simp
  then have "in_transit s' = in_transit s" by (auto simp: in_transit_def s' split: option.split)
  moreover have "inside (ppcs s' u) \<longleftrightarrow> holder s' = Some u" for u
    using holder_iff [OF inv, of u] t assms(3) by (simp add: s')
  ultimately show ?thesis
    using inv assms(9) by (simp add: pool_inv_def s' all_states_def)
qed

lemma pool_inv_inside:
  assumes inv: "pool_inv s" and "holder s = None \<or> holder s = Some t"
    and s': "pconfig s' = pconfig s" "holder s' = (if inside k then Some t else None)"
      "lock_poison s' = lock_poison s" "ppcs s' = (ppcs s)(t := k)"
    and "contents (freelist s') + held s' + carried k = mset (all_states s')"
  shows "pool_inv s'"
proof -
  have "inside (ppcs s' u) \<longleftrightarrow> holder s' = Some u" for u
    using holder_iff [OF inv, of u] assms(2) by (auto simp: s')
  moreover have "in_transit s' = carried k"
    by (cases k) (auto simp: in_transit_def s')
  ultimately show ?thesis
    using inv assms(7) by (simp add: pool_inv_def s')
qed

lemma transit_holder: "holder s = Some t \<Longrightarrow> in_transit s = carried (ppcs s t)"
  by (simp add: in_transit_def)

lemma pool_inv_step:
  assumes inv: "pool_inv s" and step: "pool_step p Q t res s = PNext s' es"
  shows "pool_inv s'"
proof -
  note bal = pool_balance [OF inv] and hi = holder_iff [OF inv, of t]
  have c: "config_made (pconfig s)" "\<not> lock_poison s"
    using inv by (simp_all add: pool_inv_def)
  show ?thesis
  proof (cases "ppcs s t")
    case Outside
    with step show ?thesis by (simp add: pool_step_def)
  next
    case GetPop
    show ?thesis
    proof (cases "sq_pop Q (freelist s)")
      case None
      with GetPop step have "s' = pgoto t GetLock s" by (simp add: pool_step_def get_pop_def)
      then show ?thesis
        using GetPop by (intro pool_inv_outside [OF inv, of t GetLock]) (simp_all add: pgoto_def)
    next
      case (Some xq)
      then obtain x q where x: "sq_pop Q (freelist s) = Some (x, q)" by (cases xq) auto
      with GetPop step have
        "s' = pgoto t Outside (s\<lparr>freelist := q, held := add_mset x (held s)\<rparr>)"
        by (simp add: pool_step_def get_pop_def got_def)
      then show ?thesis
        using GetPop pop_law [OF x]
        by (intro pool_inv_outside [OF inv, of t Outside]) (simp_all add: pgoto_def)
    qed
  next
    case GetLock
    then have h: "holder s = None"
      using step by (auto simp: pool_step_def get_lock_def split: if_splits)
    then have "s' = pgoto t LockedPop (s\<lparr>holder := Some t\<rparr>)"
      using GetLock step c(2) by (simp add: pool_step_def get_lock_def)
    then show ?thesis
      using h c bal by (intro pool_inv_inside [OF inv, of t _ LockedPop])
        (simp_all add: pgoto_def all_states_def in_transit_def)
  next
    case LockedPop
    then have t: "holder s = Some t" using hi by simp
    show ?thesis
    proof (cases "sq_pop Q (freelist s)")
      case None
      with LockedPop step have "s' = pgoto t LockedGrow s"
        by (simp add: pool_step_def locked_pop_def)
      then show ?thesis
        using t c bal transit_holder [OF t] LockedPop
        by (intro pool_inv_inside [OF inv, of t _ LockedGrow]) (simp_all add: pgoto_def all_states_def)
    next
      case (Some xq)
      then obtain x q where x: "sq_pop Q (freelist s) = Some (x, q)" by (cases xq) auto
      with LockedPop step have "s' = pgoto t (Unlocking (Inr x)) (s\<lparr>freelist := q\<rparr>)"
        by (simp add: pool_step_def locked_pop_def)
      then show ?thesis
        using t c bal transit_holder [OF t] LockedPop pop_law [OF x]
        by (intro pool_inv_inside [OF inv, of t _ "Unlocking (Inr x)"])
          (simp_all add: pgoto_def all_states_def)
    qed
  next
    case LockedGrow
    then have t: "holder s = Some t" using hi by simp
    have sz: "usize_mul p (page_size (pconfig s)) (pages_per_block (pconfig s)) =
        Some (block_size (pconfig s))"
      using c(1) by (simp add: config_made_def block_size_def arith_ok)
    show ?thesis
    proof (cases "mmap res")
      case None
      with LockedGrow step sz have "s' = pgoto t (Unlocking (Inl AllocationFailure)) s"
        by (simp add: pool_step_def grow_map_def)
      then show ?thesis
        using t c bal transit_holder [OF t] LockedGrow
        by (intro pool_inv_inside [OF inv, of t _ "Unlocking (Inl AllocationFailure)"])
          (simp_all add: pgoto_def all_states_def)
    next
      case (Some page)
      let ?k = "LockedPush (block_states (pconfig s) (unat page))"
      have "s' = pgoto t ?k (s\<lparr>mmaps := mmaps s @ [unat page]\<rparr>)"
        using Some LockedGrow step sz by (simp add: pool_step_def grow_map_def)
      then show ?thesis
        using t c bal transit_holder [OF t] LockedGrow
        by (intro pool_inv_inside [OF inv, of t _ ?k]) (simp_all add: pgoto_def all_states_def)
    qed
  next
    case (LockedPush xs)
    then have t: "holder s = Some t" using hi by simp
    show ?thesis
    proof (cases xs)
      case Nil
      then have "s' = pgoto t LockedPop s"
        using LockedPush step by (simp add: pool_step_def grow_push_def)
      then show ?thesis
        using t c bal transit_holder [OF t] LockedPush Nil
        by (intro pool_inv_inside [OF inv, of t _ LockedPop]) (simp_all add: pgoto_def all_states_def)
    next
      case (Cons x ys)
      then have "s' = pgoto t (LockedPush ys) (s\<lparr>freelist := sq_push Q (freelist s) x\<rparr>)"
        using LockedPush step by (simp add: pool_step_def grow_push_def)
      then show ?thesis
        using t c bal transit_holder [OF t] LockedPush Cons
        by (intro pool_inv_inside [OF inv, of t _ "LockedPush ys"])
          (simp_all add: pgoto_def all_states_def push_law)
    qed
  next
    case (Unlocking r)
    then have t: "holder s = Some t" using hi by simp
    then show ?thesis
      using c bal transit_holder [OF t] Unlocking step
      by (intro pool_inv_inside [OF inv, of t _ Outside]; cases r)
        (auto simp: pool_step_def get_unlock_def got_def pgoto_def all_states_def)
  qed
qed

lemma pool_inv_sys:
  assumes "pool_inv s" and "pool_sys p Q answers s es s'"
  shows "pool_inv s'"
  using assms(2)
proof cases
  case (call t)
  then show ?thesis
    by (intro pool_inv_outside [OF assms(1), of t GetPop]) (simp_all add: pgoto_def)
next
  case (thread t res)
  then show ?thesis using pool_inv_step [OF assms(1)] by blast
next
  case (return ptr)
  have "in_transit s' = in_transit s"
    by (simp add: return(2) in_transit_def recycle_def cong: option.case_cong)
  then show ?thesis
    using assms(1) return push_law
    by (auto simp: pool_inv_def recycle_def all_states_def dest!: multi_member_split)
qed

subsection \<open>What a call of \<open>get\<close> answers\<close>

text \<open>Only a failed allocation makes \<open>get\<close> fail, and it never unwinds.\<close>

definition exits_ok :: "'q pool \<Rightarrow> bool" where
  "exits_ok s \<longleftrightarrow> (\<forall>t e. ppcs s t = Unlocking (Inl e) \<longrightarrow> e = AllocationFailure)"

lemma exits_ok_goto:
  "exits_ok s \<Longrightarrow> (\<And>e. k = Unlocking (Inl e) \<Longrightarrow> e = AllocationFailure) \<Longrightarrow>
     ppcs s' = (ppcs s)(t := k) \<Longrightarrow> exits_ok s'"
  by (simp add: exits_ok_def)

lemma exits_ok_step:
  assumes "exits_ok s" and "pool_step p Q t res s = PNext s' es"
  shows "exits_ok s'"
  using assms
  by (cases "ppcs s t")
    (auto simp: pool_step_def get_pop_def get_lock_def locked_pop_def grow_map_def grow_push_def
      get_unlock_def got_def pgoto_def exits_ok_def split: option.splits if_splits list.splits sum.splits)

lemma exits_ok_sys:
  assumes "exits_ok s" and "pool_sys p Q answers s es s'"
  shows "exits_ok s'"
  using assms(2)
proof cases
  case (call t)
  then show ?thesis using assms(1) by (simp add: exits_ok_def pgoto_def)
next
  case (thread t res)
  then show ?thesis using exits_ok_step [OF assms(1)] by blast
next
  case (return ptr)
  then show ?thesis using assms(1) by (simp add: exits_ok_def recycle_def)
qed

definition answer_ok :: "'q pool \<Rightarrow> 'q pool \<Rightarrow> pool_event \<Rightarrow> bool" where
  "answer_ok s s' ev \<longleftrightarrow>
     (case ev of
        GetPanicked t \<Rightarrow> False
      | Got t (Inl e) \<Rightarrow> e = AllocationFailure \<and> held s' = held s \<and> mmaps s' = mmaps s
      | Got t (Inr x) \<Rightarrow> add_mset x (held s) \<subseteq># mset (all_states s) \<and>
          held s' = add_mset x (held s) \<and> mmaps s' = mmaps s
      | Mapped t page \<Rightarrow> held s' = held s \<and> mmaps s' = mmaps s @ [page]
      | Returned x \<Rightarrow> x \<in># held s \<and> held s' = held s - {#x#} \<and> mmaps s' = mmaps s)"

text \<open>A step says what it does to the rented states and the mappings.\<close>

definition told :: "'q pool \<Rightarrow> 'q pool \<Rightarrow> pool_event list \<Rightarrow> bool" where
  "told s s' es \<longleftrightarrow>
     es = [] \<and> held s' = held s \<and> mmaps s' = mmaps s \<or> (\<exists>ev. es = [ev] \<and> answer_ok s s' ev)"

lemma told_got:
  assumes inv: "pool_inv s" and r: "\<And>e. r = Inl e \<Longrightarrow> e = AllocationFailure"
    "\<And>x. r = Inr x \<Longrightarrow> x \<in># contents (freelist s) + in_transit s"
    and s'': "held s'' = held s" "mmaps s'' = mmaps s" and got: "got t r s'' = PNext s' es"
  shows "told s s' es"
proof (cases r)
  case (Inl e)
  then show ?thesis
    using r(1) s'' got by (auto simp: told_def answer_ok_def got_def pgoto_def)
next
  case (Inr x)
  from r(2) [OF Inr] have x: "x \<in># contents (freelist s) + in_transit s" .
  then obtain M where "contents (freelist s) + in_transit s = add_mset x M"
    by (blast dest: multi_member_split)
  moreover have "mset (all_states s) = held s + (contents (freelist s) + in_transit s)"
    using pool_balance [OF inv] by (simp add: ac_simps)
  ultimately have "mset (all_states s) = add_mset x (held s) + M" by simp
  then have "add_mset x (held s) \<subseteq># mset (all_states s)" by (metis mset_subset_eq_add_left)
  then show ?thesis
    using Inr s'' got by (auto simp: told_def answer_ok_def got_def pgoto_def)
qed

lemma pool_step_told:
  assumes inv: "pool_inv s" and ok: "exits_ok s" and step: "pool_step p Q t res s = PNext s' es"
  shows "told s s' es"
proof (cases "ppcs s t")
  case GetPop
  show ?thesis
  proof (cases "sq_pop Q (freelist s)")
    case None
    then show ?thesis using GetPop step by (auto simp: told_def pool_step_def get_pop_def pgoto_def)
  next
    case (Some xq)
    then obtain x q where x: "sq_pop Q (freelist s) = Some (x, q)" by (cases xq) auto
    then have "got t (Inr x) (s\<lparr>freelist := q\<rparr>) = PNext s' es"
      using GetPop step by (simp add: pool_step_def get_pop_def)
    then show ?thesis using pop_law [OF x] by (intro told_got [OF inv, of "Inr x"]) simp_all
  qed
next
  case GetLock
  have "\<not> lock_poison s" using inv by (simp add: pool_inv_def)
  then show ?thesis
    using GetLock step by (auto simp: told_def pool_step_def get_lock_def pgoto_def split: if_splits)
next
  case LockedGrow
  have "usize_mul p (page_size (pconfig s)) (pages_per_block (pconfig s)) \<noteq> None"
    using inv by (simp add: pool_inv_def config_made_def arith_ok)
  then show ?thesis
    using LockedGrow step
    by (auto simp: told_def answer_ok_def pool_step_def grow_map_def pgoto_def split: option.splits)
next
  case (Unlocking r)
  then have "holder s = Some t" using holder_iff [OF inv, of t] by simp
  then have "r = Inr x \<Longrightarrow> x \<in># contents (freelist s) + in_transit s" for x
    using Unlocking by (simp add: transit_holder)
  moreover have "r = Inl e \<Longrightarrow> e = AllocationFailure" for e
    using ok Unlocking by (simp add: exits_ok_def)
  moreover have "got t r (s\<lparr>holder := None\<rparr>) = PNext s' es"
    using Unlocking step by (simp add: pool_step_def get_unlock_def)
  ultimately show ?thesis by (intro told_got [OF inv, of r]) simp_all
qed (use step in
  \<open>auto simp: told_def pool_step_def locked_pop_def grow_push_def pgoto_def split: option.splits list.splits\<close>)

lemma pool_sys_told:
  assumes "pool_inv s" and "exits_ok s" and "pool_sys p Q answers s es s'"
  shows "told s s' es"
  using assms(3)
proof cases
  case (thread t res)
  then show ?thesis using pool_step_told [OF assms(1,2)] by blast
qed (auto simp: told_def answer_ok_def pgoto_def recycle_def)

text \<open>The invariant of the runs.\<close>

definition pool_ok :: "'q pool \<Rightarrow> bool" where
  "pool_ok s \<longleftrightarrow> pool_inv s \<and> exits_ok s"

lemma pool_ok_new: "config_made c \<Longrightarrow> pool_ok (pool_new Q c)"
  using pool_inv_new [of c] by (simp add: pool_ok_def exits_ok_def pool_new_def)

lemma pool_ok_sys: "pool_ok s \<Longrightarrow> pool_sys p Q answers s es s' \<Longrightarrow> pool_ok s'"
  unfolding pool_ok_def by (blast intro: pool_inv_sys exits_ok_sys)

end

sublocale seg_queue \<subseteq> pool: invariant_system "pool_sys p Q answers" pool_ok for p answers
  by unfold_locales (rule pool_ok_sys)

sublocale seg_queue \<subseteq> mapped: invariant_system "pool_sys p Q documented_kernel" mapped_ok for p
  by unfold_locales (rule mapped_ok_sys)

context seg_queue
begin

lemma reachable_ok:
  assumes "config_made c" and "runs (pool_sys p Q answers) (pool_new Q c) es s"
  shows "pool_ok s"
  using pool.runs_good [OF assms(2)] pool_ok_new [OF assms(1)] by blast

lemma reachable_inv:
  assumes "config_made c" and "runs (pool_sys p Q answers) (pool_new Q c) es s"
  shows "pool_inv s"
  using reachable_ok [OF assms] by (simp add: pool_ok_def)

lemma reachable_mapped:
  assumes "config_made c" and "runs (pool_sys p Q documented_kernel) (pool_new Q c) es s"
  shows "mapped_ok s"
  using mapped.runs_good [OF assms(2)] mapped_ok_new [OF assms(1)] by blast

lemma reachable_answers:
  assumes "config_made c" and "runs (pool_sys p Q answers) (pool_new Q c) es s"
    and "pool_sys p Q answers s fs s'" and "ev \<in> set fs"
  shows "answer_ok s s' ev"
  using reachable_ok [OF assms(1,2)] pool_sys_told [OF _ _ assms(3)] assms(4)
  by (auto simp: pool_ok_def told_def)

end

end
