(* ===== verification/Vdso_Get.thy ===== *)
theory Vdso_Get
  imports Vdso_Pool_Correct
begin

section \<open>A call of \<open>get\<close> from start to end, and the end of a pool\<close>

text \<open>
  \<open>get_alone\<close> runs the steps of one thread until its call of \<open>get\<close> ends, at most \<open>n\<close> of
  them; \<open>answer s\<close> is what \<open>mmap\<close> answers in the state \<open>s\<close>. With a valid configuration the
  number of steps is bounded; when no state fits into a page it is not.
\<close>

fun get_alone ::
    "profile \<Rightarrow> 'q segq \<Rightarrow> nat \<Rightarrow> ('q pool \<Rightarrow> 64 word) \<Rightarrow> nat \<Rightarrow> 'q pool \<Rightarrow>
     'q pool \<times> pool_event list" where
  "get_alone p Q t answer 0 s = (s, [])"
| "get_alone p Q t answer (Suc n) s =
     (case pool_step p Q t (answer s) s of
        PBlocked \<Rightarrow> (s, [])
      | PNext s' es \<Rightarrow> (case get_alone p Q t answer n s' of (s'', fs) \<Rightarrow> (s'', es @ fs)))"

lemma get_alone_numeral:
  "get_alone p Q t answer (numeral k) s =
     (case pool_step p Q t (answer s) s of
        PBlocked \<Rightarrow> (s, [])
      | PNext s' es \<Rightarrow> (case get_alone p Q t answer (pred_numeral k) s' of (s'', fs) \<Rightarrow> (s'', es @ fs)))"
  by (simp add: numeral_eq_Suc)

text \<open>A thread that is not in a call has no step.\<close>

lemma get_alone_outside [simp]: "ppcs s t = Outside \<Longrightarrow> get_alone p Q t answer n s = (s, [])"
  by (cases n) (simp_all add: pool_step_def)

abbreviation push_all :: "'q segq \<Rightarrow> 'q \<Rightarrow> nat list \<Rightarrow> 'q" where
  "push_all Q \<equiv> foldl (sq_push Q)"

lemma usize_mul_block:
  "config_made c \<Longrightarrow> usize_mul p (page_size c) (pages_per_block c) = Some (block_size c)"
  by (simp add: config_made_def block_size_def arith_ok)

lemma block_states_Nil: "block_states c page = [] \<longleftrightarrow> pages_per_block c = 0 \<or> states_per_page c = 0"
  using length_block_states [of c page] by (metis length_0_conv mult_is_0)

subsection \<open>The steps of a call\<close>

lemmas get_step_defs =
  pool_step_def get_pop_def get_lock_def locked_pop_def grow_map_def grow_push_def get_unlock_def
  got_def pgoto_def

lemma get_step:
  "pool_step p Q t (answer s) s = PNext s' [] \<Longrightarrow>
     get_alone p Q t answer (Suc n) s = get_alone p Q t answer n s'"
  by (simp split: prod.split)

lemma get_pushes:
  "ppcs s t = LockedPush xs \<Longrightarrow> get_alone p Q t answer (Suc (length xs) + n) s =
     get_alone p Q t answer n
       (s\<lparr>freelist := push_all Q (freelist s) xs, ppcs := (ppcs s)(t := LockedPop)\<rparr>)"
proof (induction xs arbitrary: s)
  case Nil
  then show ?case by (simp add: get_step_defs fun_upd_def)
next
  case (Cons x xs)
  let ?s = "s\<lparr>freelist := sq_push Q (freelist s) x, ppcs := (ppcs s)(t := LockedPush xs)\<rparr>"
  have "pool_step p Q t (answer s) s = PNext ?s []"
    using Cons.prems by (simp add: get_step_defs)
  then have "get_alone p Q t answer (Suc (length (x # xs)) + n) s =
      get_alone p Q t answer (Suc (length xs) + n) ?s"
    by (simp add: get_step)
  also have "\<dots> = get_alone p Q t answer n
      (?s\<lparr>freelist := push_all Q (freelist ?s) xs, ppcs := (ppcs ?s)(t := LockedPop)\<rparr>)"
    by (rule Cons.IH) simp
  also have "?s\<lparr>freelist := push_all Q (freelist ?s) xs, ppcs := (ppcs ?s)(t := LockedPop)\<rparr> =
      s\<lparr>freelist := push_all Q (freelist s) (x # xs), ppcs := (ppcs s)(t := LockedPop)\<rparr>"
    by simp
  finally show ?case .
qed

text \<open>\<open>get\<close> with the free list empty and a mapping that succeeds.\<close>

lemma get_alone_grow:
  assumes "ppcs s t = GetPop" and "holder s = None" and "\<not> lock_poison s"
    and "usize_mul p (page_size (pconfig s)) (pages_per_block (pconfig s)) = Some b"
    and "sq_pop Q (freelist s) = None"
    and "mmap (answer (s\<lparr>holder := Some t, ppcs := (ppcs s)(t := LockedGrow)\<rparr>)) = Some page"
  shows "get_alone p Q t answer
      (Suc (Suc (Suc (Suc (Suc (length (block_states (pconfig s) (unat page))) + n))))) s =
    apsnd ((#) (Mapped t (unat page))) (get_alone p Q t answer n
      (s\<lparr>holder := Some t, mmaps := mmaps s @ [unat page],
         freelist := push_all Q (freelist s) (block_states (pconfig s) (unat page)),
         ppcs := (ppcs s)(t := LockedPop)\<rparr>))"
proof -
  let ?bs = "block_states (pconfig s) (unat page)"
  let ?push = "s\<lparr>holder := Some t, mmaps := mmaps s @ [unat page],
      ppcs := (ppcs s)(t := LockedPush ?bs)\<rparr>"
  have "get_alone p Q t answer (Suc (Suc (Suc (Suc (Suc (length ?bs) + n))))) s =
      apsnd ((#) (Mapped t (unat page))) (get_alone p Q t answer (Suc (length ?bs) + n) ?push)"
    using assms by (simp add: get_step_defs del: add_Suc split: prod.split)
  then show ?thesis using get_pushes [of ?push t ?bs p Q answer n] by simp
qed

context seg_queue
begin

lemma contents_push_all: "contents (push_all Q q xs) = contents q + mset xs"
  by (induction xs arbitrary: q) (simp_all add: push_law)

lemma get_from_freelist:
  assumes "ppcs s t = GetPop" and "contents (freelist s) \<noteq> {#}"
  obtains x q where "contents (freelist s) = add_mset x (contents q)"
    and "get_alone p Q t answer (Suc n) s =
      (s\<lparr>freelist := q, held := add_mset x (held s), ppcs := (ppcs s)(t := Outside)\<rparr>,
       [Got t (Inr x)])"
proof -
  from assms(2) pop_empty_law obtain x q where x: "sq_pop Q (freelist s) = Some (x, q)" by fastforce
  then show thesis
    using that [OF pop_law [OF x]] assms(1) by (simp add: get_step_defs)
qed

lemma get_mmap_fails:
  assumes "ppcs s t = GetPop" and "holder s = None" and "\<not> lock_poison s"
    and "config_made (pconfig s)" and "contents (freelist s) = {#}" and "\<And>s. mmap (answer s) = None"
  shows "get_alone p Q t answer (5 + n) s =
    (s\<lparr>ppcs := (ppcs s)(t := Outside)\<rparr>, [Got t (Inl AllocationFailure)])"
proof -
  have "sq_pop Q (freelist s) = None" using assms(5) pop_empty_law by blast
  moreover have "s\<lparr>holder := None\<rparr> = s" using assms(2) by simp
  ultimately show ?thesis
    using assms(1-4,6) usize_mul_block [OF assms(4)]
    by (simp add: get_step_defs eval_nat_numeral)
qed

lemma get_maps_block:
  assumes "ppcs s t = GetPop" and "holder s = None" and "\<not> lock_poison s"
    and c: "config_ok (pconfig s)" and "contents (freelist s) = {#}"
    and m: "\<And>s. mmap (answer s) = Some page"
  obtains x q where "mset (block_states (pconfig s) (unat page)) = add_mset x (contents q)"
    and "get_alone p Q t answer (7 + length (block_states (pconfig s) (unat page)) + n) s =
      (s\<lparr>mmaps := mmaps s @ [unat page], freelist := q, held := add_mset x (held s),
         ppcs := (ppcs s)(t := Outside)\<rparr>, [Mapped t (unat page), Got t (Inr x)])"
proof -
  let ?bs = "block_states (pconfig s) (unat page)"
  let ?q = "push_all Q (freelist s) ?bs"
  have e: "sq_pop Q (freelist s) = None" using assms(5) pop_empty_law by blast
  have "?bs \<noteq> []" using c by (auto simp: block_states_Nil config_ok_def config_made_def)
  then have "contents ?q \<noteq> {#}" using assms(5) by (simp add: contents_push_all)
  with pop_empty_law obtain x q where x: "sq_pop Q ?q = Some (x, q)" by fastforce
  have bal: "mset ?bs = add_mset x (contents q)"
    using pop_law [OF x] assms(5) by (simp add: contents_push_all)
  have n7: "7 + length ?bs + n = Suc (Suc (Suc (Suc (Suc (length ?bs) + Suc (Suc n)))))" by simp
  have "get_alone p Q t answer (7 + length ?bs + n) s =
      apsnd ((#) (Mapped t (unat page))) (get_alone p Q t answer (Suc (Suc n))
        (s\<lparr>holder := Some t, mmaps := mmaps s @ [unat page], freelist := ?q,
           ppcs := (ppcs s)(t := LockedPop)\<rparr>))"
    unfolding n7 by (rule get_alone_grow [OF assms(1-3) usize_mul_block [OF config_ok_made [OF c]] e m])
  then have "get_alone p Q t answer (7 + length ?bs + n) s =
      (s\<lparr>mmaps := mmaps s @ [unat page], freelist := q, held := add_mset x (held s),
         ppcs := (ppcs s)(t := Outside)\<rparr>, [Mapped t (unat page), Got t (Inr x)])"
    using x assms(2) by (auto simp: get_step_defs intro!: pool.equality)
  then show thesis by (rule that [OF bal])
qed

end

subsection \<open>Growing for ever\<close>

text \<open>
  With no state in a page, each round maps another block and finds the free list empty. The events
  of \<open>n\<close> steps are mappings only.
\<close>

lemma get_round:
  assumes "ppcs s t = LockedPop" and "sq_pop Q (freelist s) = None" and "states_per_page (pconfig s) = 0"
    and "usize_mul p (page_size (pconfig s)) (pages_per_block (pconfig s)) = Some b"
    and "mmap (answer (s\<lparr>ppcs := (ppcs s)(t := LockedGrow)\<rparr>)) = Some page"
  shows "get_alone p Q t answer (Suc (Suc (Suc n))) s = apsnd ((#) (Mapped t (unat page)))
    (get_alone p Q t answer n (s\<lparr>mmaps := mmaps s @ [unat page]\<rparr>))"
proof -
  have "block_states (pconfig s) (unat page) = []" using assms(3) by (simp add: block_states_Nil)
  then have "get_alone p Q t answer (Suc (Suc (Suc n))) s = apsnd ((#) (Mapped t (unat page)))
      (get_alone p Q t answer n (s\<lparr>mmaps := mmaps s @ [unat page], ppcs := (ppcs s)(t := LockedPop)\<rparr>))"
    using assms by (simp add: get_step_defs split: prod.split)
  also have "s\<lparr>mmaps := mmaps s @ [unat page], ppcs := (ppcs s)(t := LockedPop)\<rparr> =
      s\<lparr>mmaps := mmaps s @ [unat page]\<rparr>"
    using assms(1) by (auto intro!: pool.equality)
  finally show ?thesis .
qed

lemma get_rounds:
  assumes "ppcs s t = LockedPop" and "sq_pop Q (freelist s) = None" and "states_per_page (pconfig s) = 0"
    and "usize_mul p (page_size (pconfig s)) (pages_per_block (pconfig s)) = Some b"
    and "\<And>s. mmap (answer s) \<noteq> None"
  shows "\<exists>ms. length ms = k \<and> snd (get_alone p Q t answer (3 * k) s) = map (Mapped t) ms"
  using assms(1-4)
proof (induction k arbitrary: s)
  case (Suc k)
  obtain page where m: "mmap (answer (s\<lparr>ppcs := (ppcs s)(t := LockedGrow)\<rparr>)) = Some page"
    using assms(5) by blast
  let ?s = "s\<lparr>mmaps := mmaps s @ [unat page]\<rparr>"
  have n3: "3 * Suc k = Suc (Suc (Suc (3 * k)))" by simp
  have eq: "get_alone p Q t answer (3 * Suc k) s =
      apsnd ((#) (Mapped t (unat page))) (get_alone p Q t answer (3 * k) ?s)"
    unfolding n3 by (rule get_round [OF Suc.prems(1-4), where answer = answer, OF m])
  obtain ms where "length ms = k" "snd (get_alone p Q t answer (3 * k) ?s) = map (Mapped t) ms"
    using Suc.IH [of ?s] Suc.prems by auto
  then show ?case unfolding eq by (intro exI [of _ "unat page # ms"]) simp
qed simp

text \<open>The thread stays inside the lock and emits mappings only.\<close>

definition growing :: "profile \<Rightarrow> 'q segq \<Rightarrow> nat \<Rightarrow> 'q pool \<Rightarrow> bool" where
  "growing p Q t s \<longleftrightarrow> holder s = Some t \<and> sq_pop Q (freelist s) = None \<and> states_per_page (pconfig s) = 0 \<and>
     usize_mul p (page_size (pconfig s)) (pages_per_block (pconfig s)) \<noteq> None \<and>
     ppcs s t \<in> {LockedPop, LockedGrow, LockedPush []}"

lemma growing_step:
  assumes "growing p Q t s" and "mmap res \<noteq> None"
  shows "\<exists>s' ms. pool_step p Q t res s = PNext s' (map (Mapped t) ms) \<and> growing p Q t s'"
proof -
  obtain b page where b: "usize_mul p (page_size (pconfig s)) (pages_per_block (pconfig s)) = Some b"
    "mmap res = Some page"
    using assms by (auto simp: growing_def)
  have e: "block_states (pconfig s) (unat page) = []" using assms(1) by (simp add: growing_def block_states_Nil)
  have "ppcs s t = LockedPop \<or> ppcs s t = LockedGrow \<or> ppcs s t = LockedPush []"
    using assms(1) by (auto simp: growing_def)
  then show ?thesis
  proof (elim disjE)
    assume "ppcs s t = LockedGrow"
    then show ?thesis
      using assms(1) b e by (auto simp: growing_def get_step_defs intro: exI [of _ "[unat page]"])
  qed (use assms(1) b in \<open>auto simp: growing_def get_step_defs intro: exI [of _ "[]"]\<close>)
qed

lemma growing_alone:
  assumes "growing p Q t s" and "\<And>s. mmap (answer s) \<noteq> None"
  shows "growing p Q t (fst (get_alone p Q t answer n s)) \<and>
    (\<exists>ms. snd (get_alone p Q t answer n s) = map (Mapped t) ms)"
  using assms(1)
proof (induction n arbitrary: s)
  case (Suc n)
  obtain s' ms where st: "pool_step p Q t (answer s) s = PNext s' (map (Mapped t) ms)" "growing p Q t s'"
    using growing_step [OF Suc.prems assms(2)] by blast
  obtain ns where "snd (get_alone p Q t answer n s') = map (Mapped t) ns" using Suc.IH [OF st(2)] by blast
  then have "map (Mapped t) ms @ snd (get_alone p Q t answer n s') = map (Mapped t) (ms @ ns)" by simp
  then show ?case using st(1) Suc.IH [OF st(2)] by (simp add: case_prod_beta) (metis map_append)
qed simp

lemma get_grows_for_ever:
  assumes "ppcs s t = GetPop" and "holder s = None" and "\<not> lock_poison s"
    and "sq_pop Q (freelist s) = None" and "states_per_page (pconfig s) = 0"
    and "usize_mul p (page_size (pconfig s)) (pages_per_block (pconfig s)) = Some b"
    and "\<And>s. mmap (answer s) \<noteq> None"
  shows "holder (fst (get_alone p Q t answer (n + 2) s)) = Some t \<and>
    (\<exists>ms. snd (get_alone p Q t answer (n + 2) s) = map (Mapped t) ms) \<and>
    (\<exists>m. length (snd (get_alone p Q t answer m s)) = n)"
proof -
  let ?s = "s\<lparr>holder := Some t, ppcs := (ppcs s)(t := LockedPop)\<rparr>"
  have eq: "get_alone p Q t answer (k + 2) s = get_alone p Q t answer k ?s" for k
    using assms(1-4) by (simp add: get_step_defs eval_nat_numeral split: prod.split)
  have "growing p Q t ?s" using assms(4-6) by (simp add: growing_def)
  note G = growing_alone [OF this, of answer n, OF assms(7)]
  obtain ms where ms: "length ms = n" "snd (get_alone p Q t answer (3 * n) ?s) = map (Mapped t) ms"
    using get_rounds [of ?s t Q p b answer n] assms(4-7) by auto
  then have "\<exists>m. length (snd (get_alone p Q t answer m s)) = n"
    by (intro exI [of _ "3 * n + 2"]) (simp only: eq length_map)
  moreover have "holder (fst (get_alone p Q t answer n ?s)) = Some t" using G by (simp add: growing_def)
  moreover have "\<exists>ms. snd (get_alone p Q t answer n ?s) = map (Mapped t) ms" using G by blast
  ultimately show ?thesis unfolding eq by blast
qed

subsection \<open>Dropping the pool\<close>

context seg_queue
begin

lemma drain_eq:
  assumes "counter < 2 ^ 64"
  shows "drain p Q q counter =
    (if p = Debug then if counter + size (contents q) < 2 ^ 64 then Some (counter + size (contents q)) else None
     else Some counter)"
  using assms
proof (induction "size (contents q)" arbitrary: q counter)
  case 0
  then have "sq_pop Q q = None" using pop_empty_law by simp
  then show ?case using 0 by (subst drain.simps) (auto split: profile.split)
next
  case (Suc n)
  then have "contents q \<noteq> {#}" by auto
  with pop_empty_law obtain x q' where x: "sq_pop Q q = Some (x, q')" by fastforce
  from pop_law [OF x] have sz: "size (contents q) = Suc (size (contents q'))" by simp
  then have n: "n = size (contents q')" using Suc.hyps(2) by simp
  show ?case
  proof (cases "p = Debug \<and> 2 ^ 64 \<le> counter + 1")
    case True
    then show ?thesis using x sz by (subst drain.simps) (simp add: uint_add_def checked_def)
  next
    case False
    then have "(if p = Debug then usize_add p counter 1 else Some counter) =
        Some (if p = Debug then counter + 1 else counter)"
      by (auto simp: arith_ok)
    then show ?thesis
      using x sz Suc.hyps(1) [OF n, of "if p = Debug then counter + 1 else counter"] False Suc.prems
      by (subst drain.simps) (auto simp: algebra_simps)
  qed
qed

text \<open>
  The assertion of the debug profile holds exactly when every state has been returned; it also
  panics when the number of states overflows a \<open>usize\<close>.
\<close>

lemma pool_drop_eq:
  assumes inv: "pool_inv s" and idle: "holder s = None"
  shows "pool_drop p Q s =
    (if p = Debug \<and> (held s \<noteq> {#} \<or>
        2 ^ 64 \<le> pages_per_block (pconfig s) * states_per_page (pconfig s) * length (mmaps s)) then None
     else Some (map (\<lambda>m. (m, block_size (pconfig s))) (mmaps s)))"
proof -
  let ?c = "pconfig s"
  have c: "config_made ?c" using inv by (simp add: pool_inv_def)
  let ?k = "pages_per_block ?c * states_per_page ?c"
  have "states_per_page ?c \<le> page_size ?c"
    using c by (auto simp: config_made_def intro: order_trans [rotated])
  then have "?k \<le> block_size ?c"
    unfolding block_size_def by (subst mult.commute) (rule mult_le_mono1)
  then have k: "?k < 2 ^ 64"
    using c unfolding config_made_def block_size_def by linarith
  have "size (contents (freelist s)) + size (held s) = size (mset (all_states s))"
    using pool_balance [OF inv] idle by (simp add: in_transit_def flip: size_union)
  also have "\<dots> = ?k * length (mmaps s)" by (simp add: all_states_def length_states)
  finally have sz: "size (contents (freelist s)) + size (held s) = ?k * length (mmaps s)" .
  then have full: "size (contents (freelist s)) = ?k * length (mmaps s) \<longleftrightarrow> held s = {#}" by auto
  note D = drain_eq [of 0 p "freelist s"] usize_mul_block [OF c, of p] uint_mul_ok [OF k, of p]
  show ?thesis
  proof (cases "p = Debug \<and> 2 ^ 64 \<le> ?k * length (mmaps s)")
    case True
    then have "usize_mul p ?k (length (mmaps s)) = None" by (simp add: uint_mul_def checked_def)
    then show ?thesis using True D by (auto simp: pool_drop_def)
  next
    case False
    then have "p = Debug \<Longrightarrow> usize_mul p ?k (length (mmaps s)) = Some (?k * length (mmaps s))"
      "p = Debug \<Longrightarrow> size (contents (freelist s)) < 2 ^ 64"
      using sz by (simp_all add: arith_ok)
    then show ?thesis using False D full by (cases p) (auto simp: pool_drop_def)
  qed
qed

end

end
