(* ===== verification/Vdso_Alloc.thy ===== *)
theory Vdso_Alloc
  imports Vdso_Pool_Correct
begin

section \<open>The allocator the pool implements\<close>

text \<open>
  The specification of the pool: an allocator that knows the free states, the rented ones and the
  blocks, with no queue, no lock and no thread. A block adds its states to the free ones; a call is
  given any free state or fails; a rented state comes back. The events of every run of the pool are a
  behaviour of it, whatever the kernel answers.
\<close>

record alloc =
  avail :: "nat multiset"
  rented :: "nat multiset"
  blocks :: "nat list"

definition alloc_init :: alloc where
  "alloc_init = \<lparr>avail = {#}, rented = {#}, blocks = []\<rparr>"

fun alloc_step :: "config \<Rightarrow> pool_event \<Rightarrow> alloc \<Rightarrow> alloc option" where
  "alloc_step c (Got t (Inr x)) a =
     (if x \<in># avail a then Some (a\<lparr>avail := avail a - {#x#}, rented := add_mset x (rented a)\<rparr>) else None)"
| "alloc_step c (Got t (Inl e)) a = (if e = AllocationFailure then Some a else None)"
| "alloc_step c (GetPanicked t) a = None"
| "alloc_step c (Mapped t page) a =
     Some (a\<lparr>avail := avail a + mset (block_states c page), blocks := blocks a @ [page]\<rparr>)"
| "alloc_step c (Returned x) a =
     (if x \<in># rented a then Some (a\<lparr>avail := add_mset x (avail a), rented := rented a - {#x#}\<rparr>) else None)"

fun alloc_run :: "config \<Rightarrow> pool_event list \<Rightarrow> alloc \<Rightarrow> alloc option" where
  "alloc_run c [] a = Some a"
| "alloc_run c (ev # evs) a = Option.bind (alloc_step c ev a) (alloc_run c evs)"

lemma alloc_run_append: "alloc_run c (xs @ ys) a = Option.bind (alloc_run c xs a) (alloc_run c ys)"
  by (induction xs arbitrary: a) (auto split: bind_splits)

text \<open>What the specification gives its clients.\<close>

definition alloc_ok :: "config \<Rightarrow> alloc \<Rightarrow> bool" where
  "alloc_ok c a \<longleftrightarrow> avail a + rented a = mset (concat (map (block_states c) (blocks a)))"

lemma alloc_ok_init: "alloc_ok c alloc_init"
  by (simp add: alloc_ok_def alloc_init_def)

lemma alloc_ok_step:
  assumes "alloc_ok c a" and "alloc_step c ev a = Some a'"
  shows "alloc_ok c a'"
proof (cases ev)
  case (Got t r)
  then show ?thesis
    using assms by (cases r) (auto simp: alloc_ok_def split: if_splits dest!: multi_member_split)
next
  case (Mapped t page)
  then show ?thesis using assms by (auto simp: alloc_ok_def)
next
  case (Returned x)
  then show ?thesis
    using assms by (auto simp: alloc_ok_def split: if_splits dest!: multi_member_split)
qed (use assms(2) in simp)

lemma alloc_ok_run: "alloc_run c evs a = Some a' \<Longrightarrow> alloc_ok c a \<Longrightarrow> alloc_ok c a'"
  by (induction evs arbitrary: a) (auto split: bind_splits intro: alloc_ok_step)

text \<open>The allocator a state of the pool stands for.\<close>

definition pool_abs :: "'q pool \<Rightarrow> alloc" where
  "pool_abs s = \<lparr>avail = mset (all_states s) - held s, rented = held s, blocks = mmaps s\<rparr>"

lemma pool_sys_config: "pool_sys p Q answers s es s' \<Longrightarrow> pconfig s' = pconfig s"
proof (induction rule: pool_sys.cases)
  case (thread s t res s' es)
  then show ?case
    by (cases "ppcs s t")
      (auto simp: pool_step_def get_pop_def get_lock_def locked_pop_def grow_map_def grow_push_def
        get_unlock_def got_def pgoto_def split: option.splits if_splits list.splits sum.splits)
qed (simp_all add: pgoto_def recycle_def)

context seg_queue
begin

lemma told_refines:
  assumes inv: "pool_inv s" and "told s s' es" and c: "pconfig s' = pconfig s"
  shows "alloc_run (pconfig s) es (pool_abs s) = Some (pool_abs s')"
proof (cases "es = []")
  case True
  then show ?thesis using assms(2) c by (simp add: told_def pool_abs_def all_states_def)
next
  case False
  then obtain ev where ev: "es = [ev]" "answer_ok s s' ev" using assms(2) by (auto simp: told_def)
  have sub: "held s \<subseteq># mset (all_states s)"
    using pool_balance [OF inv] by (metis mset_subset_eq_add_left mset_subset_eq_add_right subset_mset.trans)
  show ?thesis
  proof (cases ev)
    case (Got t r)
    show ?thesis
    proof (cases r)
      case (Inr x)
      then have x: "add_mset x (held s) \<subseteq># mset (all_states s)" "held s' = add_mset x (held s)"
        "mmaps s' = mmaps s"
        using ev Got by (simp_all add: answer_ok_def)
      then obtain M where M: "mset (all_states s) = add_mset x (held s) + M"
        by (auto simp: mset_subset_eq_exists_conv)
      moreover have "all_states s' = all_states s" using x(3) c by (simp add: all_states_def)
      ultimately show ?thesis using ev(1) Got Inr x(2,3) by (simp add: pool_abs_def)
    next
      case (Inl e)
      then show ?thesis using ev Got c by (simp add: answer_ok_def pool_abs_def all_states_def)
    qed
  next
    case (Mapped t page)
    then have m: "held s' = held s" "mmaps s' = mmaps s @ [page]"
      using ev by (simp_all add: answer_ok_def)
    then show ?thesis
      using ev(1) Mapped c sub by (simp add: pool_abs_def all_states_def)
  next
    case (Returned x)
    then have r: "x \<in># held s" "held s' = held s - {#x#}" "mmaps s' = mmaps s"
      using ev by (simp_all add: answer_ok_def)
    then obtain H where H: "held s = add_mset x H" by (blast dest: multi_member_split)
    moreover have "held s' = H" using r(2) unfolding H by simp
    moreover obtain M where "mset (all_states s) = held s + M"
      using sub by (auto simp: mset_subset_eq_exists_conv)
    ultimately show ?thesis
      using ev(1) Returned r(3) c by (simp add: pool_abs_def all_states_def)
  next
    case (GetPanicked t)
    then show ?thesis using ev by (simp add: answer_ok_def)
  qed
qed

definition pool_rel :: "config \<Rightarrow> 'q pool \<Rightarrow> alloc \<Rightarrow> bool" where
  "pool_rel c s a \<longleftrightarrow> pool_ok s \<and> pconfig s = c \<and> a = pool_abs s"

lemma pool_sys_refines:
  assumes "pool_rel c s a" and "pool_sys p Q answers s es s'"
  shows "\<exists>a'. alloc_run c es a = Some a' \<and> pool_rel c s' a'"
proof -
  have s: "pool_inv s" "exits_ok s" "pool_ok s" "pconfig s = c" "a = pool_abs s"
    using assms(1) by (simp_all add: pool_rel_def pool_ok_def)
  have c: "pconfig s' = pconfig s" by (rule pool_sys_config [OF assms(2)])
  from told_refines [OF s(1) pool_sys_told [OF s(1,2) assms(2)] c] s c
    pool_ok_sys [OF s(3) assms(2)] show ?thesis
    by (simp add: pool_rel_def)
qed

lemma pool_rel_new: "config_made c \<Longrightarrow> pool_rel c (pool_new Q c) alloc_init"
  using pool_ok_new [of c]
  by (simp add: pool_rel_def pool_abs_def alloc_init_def all_states_def) (simp add: pool_new_def)

end

sublocale seg_queue \<subseteq> alloc: refined_system "pool_sys p Q answers" "alloc_run c" "pool_rel c"
  for p answers c
  by unfold_locales (auto simp: alloc_run_append intro: pool_sys_refines)

context seg_queue
begin

lemma reachable_refines:
  assumes "config_made c" and "runs (pool_sys p Q answers) (pool_new Q c) es s"
  shows "alloc_run c es alloc_init = Some (pool_abs s)"
  using alloc.runs_refine [OF assms(2) pool_rel_new [OF assms(1)]] by (auto simp: pool_rel_def)

end

end
