(* ===== verification/Vdso_Pool_Theorems.thy ===== *)
theory Vdso_Pool_Theorems
  imports Vdso_Get Vdso_Alloc
begin

section \<open>The properties of the pool\<close>

text \<open>
  The statements hold for every free list with the laws of a concurrent bag; the witnesses use the
  queue \<open>fifo\<close>, a configuration with two states of 24 bytes in a page of 64, and one page per
  block, mapped at address 4096.
\<close>

definition demo_config :: config where
  "demo_config = \<lparr>page_size = 64, pages_per_block = 1, states_per_page = 2,
     params = \<lparr>size_of_opaque_states = 24, mmap_prot = 0, mmap_flags = 0, reserved = []\<rparr>\<rparr>"

lemma demo_config_ok: "config_ok demo_config"
  by (simp add: demo_config_def config_ok_def config_made_def)

lemmas demo_config_made = config_ok_made [OF demo_config_ok]

lemma demo_block: "block_states demo_config 4096 = [4096, 4120]"
  by (simp add: demo_config_def block_states_def upt_rec)

abbreviation demo_start :: "nat list pool" where
  "demo_start \<equiv> pgoto 0 GetPop (pool_new fifo demo_config)"

text \<open>The kernel answers the first call only. One thread obtains the first state of the block.\<close>

definition demo_answer :: "nat list pool \<Rightarrow> 64 word" where
  "demo_answer s = (if mmaps s = [] then 4096 else 0)"

lemma demo_mmap: "mmap 4096 = Some 4096" "mmap 0 = None"
  by (simp_all add: mmap_def)

lemma demo_usize_mul:
  "usize_mul p (page_size demo_config) (pages_per_block demo_config) = Some 64"
  by (simp add: demo_config_def arith_ok)

lemma demo_documented: "pconfig s = demo_config \<Longrightarrow> documented_kernel s (demo_answer s)"
  by (simp add: documented_kernel_def real_mappings_def demo_answer_def demo_config_def block_size_def)

lemmas get_eval = get_step_defs pool_new_def fifo_def demo_block demo_mmap demo_usize_mul demo_answer_def

definition demo_held :: "nat list pool" where
  "demo_held = fst (get_alone Debug fifo 0 demo_answer 9 demo_start)"

lemma demo_get:
  "get_alone Debug fifo 0 demo_answer 9 demo_start = (demo_held, [Mapped 0 4096, Got 0 (Inr 4096)])"
  "demo_held = \<lparr>pconfig = demo_config, mmaps = [4096], freelist = [4120], holder = None,
     lock_poison = False, held = {#4096#}, ppcs = (\<lambda>_. Outside)\<rparr>"
  unfolding demo_held_def
  by (simp_all add: get_eval get_alone_numeral fun_eq_iff)

lemma pool_step_config: "pool_step p Q t res s = PNext s' es \<Longrightarrow> pconfig s' = pconfig s"
  by (cases "ppcs s t")
    (auto simp: get_step_defs split: option.splits if_splits list.splits sum.splits)

lemma get_alone_runs:
  assumes "\<And>s. pconfig s = c \<Longrightarrow> may_answer s (answer s)" and "pconfig s = c"
  shows "runs (pool_sys p Q may_answer) s (snd (get_alone p Q t answer n s)) (fst (get_alone p Q t answer n s))"
  using assms(2)
proof (induction n arbitrary: s)
  case 0
  then show ?case by (simp add: runs.start)
next
  case (Suc n)
  show ?case
  proof (cases "pool_step p Q t (answer s) s")
    case (PNext s' es)
    then have one: "runs (pool_sys p Q may_answer) s es s'"
      using assms(1) Suc.prems by (auto intro!: runs_one pool_sys.thread)
    have "pconfig s' = c" using pool_step_config [OF PNext] Suc.prems by simp
    then show ?thesis using PNext runs_trans [OF Suc.IH [of s'] one] by (simp add: case_prod_beta)
  next
    case PBlocked
    then show ?thesis by (simp add: runs.start)
  qed
qed

lemma demo_runs:
  "runs (pool_sys Debug fifo documented_kernel) (pool_new fifo demo_config) [Mapped 0 4096, Got 0 (Inr 4096)]
     demo_held"
proof -
  have "runs (pool_sys Debug fifo documented_kernel) (pool_new fifo demo_config) [] demo_start"
    by (intro runs_one pool_sys.call) (simp add: pool_new_def)
  moreover have "runs (pool_sys Debug fifo documented_kernel) demo_start [Mapped 0 4096, Got 0 (Inr 4096)] demo_held"
    using get_alone_runs [of demo_config documented_kernel demo_answer demo_start Debug fifo 0 9]
      demo_documented demo_get(1) by (simp add: pgoto_def pool_new_def)
  ultimately show ?thesis using runs_trans by fastforce
qed

subsection \<open>Every state in one place\<close>

text \<open>C4. For every configuration that \<open>Config::new\<close> makes
  (\<open>config_made\<close>): whatever the threads do, wherever they are interrupted and whatever
  documented result each system call has, every opaque state of every recorded mapping is in exactly
  one place: in the free list, rented by a \<open>LocalState\<close>, or in the hands of the thread
  inside the lock. The states of the mappings that are real are distinct and no two of them share a
  byte. The others are the states of the mappings that stand for a failed call (see
  \<open>get_after_failed_mmap\<close>); nothing is claimed of their addresses.\<close>

theorem pool_partition:
  assumes "seg_queue Q contents" and "config_made c"
    and "runs (pool_sys p Q documented_kernel) (pool_new Q c) es s"
  shows "contents (freelist s) + held s + in_transit s = mset (all_states s) \<and>
    mset (all_states s) = mset (real_states s) + mset (error_states s) \<and>
    distinct (real_states s) \<and>
    (\<forall>a \<in> set (real_states s). \<forall>b \<in> set (real_states s). a \<noteq> b \<longrightarrow>
       apart (state_size (params (pconfig s))) a b)"
proof -
  note inv = seg_queue.reachable_inv [OF assms] and ok = seg_queue.reachable_mapped [OF assms]
  have ok: "config_made (pconfig s)" "regions_ok (pconfig s) (real_mappings s)"
    using ok by (simp_all add: mapped_ok_def)
  show ?thesis
    using seg_queue.pool_balance [OF assms(1) inv] all_states_split [of s] distinct_states [OF ok]
      states_apart [OF ok] by (simp add: real_states_def)
qed

theorem pool_partition_witness:
  "mset (freelist demo_held) + held demo_held + in_transit demo_held = mset [4096, 4120] \<and>
   apart 24 4096 4120"
proof -
  have "all_states demo_held = [4096, 4120]" "real_states demo_held = [4096, 4120]"
    by (simp_all add: demo_get(2) all_states_def real_states_def real_mappings_def errno_address_def demo_block)
  moreover have "state_size (params (pconfig demo_held)) = 24"
    by (simp add: demo_get(2) demo_config_def)
  ultimately show ?thesis
    using pool_partition [OF fifo.seg_queue_axioms demo_config_made demo_runs] by simp
qed

text \<open>C12. The answers of \<open>get\<close>, for every configuration that
  \<open>Config::new\<close> makes and whatever documented result each system call has: a state it
  hands out is a state of a recorded mapping that is free once more than it is rented. Unless it
  belongs to a failed call recorded as a mapping, it is not rented to anybody and shares no byte
  with a rented state of a real mapping. The only failure is \<open>AllocationFailure\<close>;
  \<open>get\<close> never unwinds and the pool is never poisoned.\<close>

theorem pool_exclusive:
  assumes "seg_queue Q contents" and "config_made c"
    and "runs (pool_sys p Q documented_kernel) (pool_new Q c) es s"
    and "pool_sys p Q documented_kernel s fs s'" and "ev \<in> set fs" and "ev = Got t r \<or> ev = GetPanicked t"
  shows "(\<exists>x. ev = Got t (Inr x) \<and> held s' = add_mset x (held s) \<and>
      add_mset x (held s) \<subseteq># mset (all_states s) \<and>
      (x \<notin> set (error_states s) \<longrightarrow> x \<notin># held s \<and>
        (\<forall>y \<in># held s. y \<in> set (error_states s) \<or> apart (state_size (params (pconfig s))) x y))) \<or>
    (ev = Got t (Inl AllocationFailure) \<and> held s' = held s)"
proof -
  have "seg_queue.answer_ok s s' ev" by (rule seg_queue.reachable_answers [OF assms(1-5)])
  note ok = this [unfolded seg_queue.answer_ok_def [OF assms(1)]]
    and fresh = fresh_state [OF seg_queue.reachable_mapped [OF assms(1-3)]]
  show ?thesis
  proof (cases "\<exists>x. ev = Got t (Inr x)")
    case True
    then obtain x where x: "ev = Got t (Inr x)" by blast
    then show ?thesis using ok fresh [of x] by simp
  next
    case False
    then show ?thesis using ok assms(6) by (auto split: sum.splits)
  qed
qed

theorem pool_exclusive_witness:
  "\<exists>s'. pool_sys Debug fifo documented_kernel (pgoto 1 GetPop demo_held) [Got 1 (Inr 4120)] s' \<and>
     4120 \<notin># held demo_held"
proof -
  let ?s = "pgoto 1 GetPop demo_held"
  obtain s' where s': "pool_step Debug fifo 1 0 ?s = PNext s' [Got 1 (Inr 4120)]"
    by (simp add: get_eval demo_get(2))
  have step: "pool_sys Debug fifo documented_kernel ?s [Got 1 (Inr 4120)] s'"
    using _ s' by (rule pool_sys.thread) (simp add: pgoto_def)
  have "pool_sys Debug fifo documented_kernel demo_held [] ?s"
    by (rule pool_sys.call) (simp add: demo_get(2))
  then have "runs (pool_sys Debug fifo documented_kernel) (pool_new fifo demo_config)
      [Mapped 0 4096, Got 0 (Inr 4096)] ?s"
    using runs.more [OF demo_runs] by fastforce
  from pool_exclusive [OF fifo.seg_queue_axioms demo_config_made this step, of "Got 1 (Inr 4120)" 1 "Inr 4120"]
  have "4120 \<notin># held demo_held"
    by (simp add: pgoto_def error_states_def errno_address_def demo_get(2))
  with step show ?thesis by blast
qed

text \<open>C10. For every configuration that \<open>Config::new\<close> makes, the pool refines its
  specification, whatever the system calls return: the calls, blocks and returned states of every
  run of any number of threads are a behaviour of the allocator of \<open>Vdso_Alloc\<close>, which
  arrives at the same rented states and blocks. It has no queue, no lock and no thread, hands out
  only free states, takes back only rented ones, and never fails but for
  \<open>AllocationFailure\<close>.\<close>

theorem pool_refines:
  assumes "seg_queue Q contents" and "config_made c"
    and "runs (pool_sys p Q kernel_answers) (pool_new Q c) es s"
  shows "alloc_run c es alloc_init = Some (pool_abs s)"
  using seg_queue.reachable_refines [OF assms] .

theorem pool_refines_witness:
  "alloc_run demo_config [Mapped 0 4096, Got 0 (Inr 4096)] alloc_init =
     Some \<lparr>avail = {#4120#}, rented = {#4096#}, blocks = [4096]\<rparr>"
  using pool_refines [OF fifo.seg_queue_axioms demo_config_made demo_runs]
  by (simp add: pool_abs_def all_states_def demo_get(2) demo_block)

subsection \<open>A call of \<open>get\<close>\<close>

text \<open>C19. With a configuration the pool can use (\<open>config_ok\<close>),
  \<open>get\<close>, called by a thread on its own while the lock is free and not poisoned, returns
  after a bounded number of steps and leaves the lock free. It takes a state from the free list if
  there is one; otherwise it maps one block and returns one of its states, the others going to the
  free list; it fails exactly when the system call returns 0 or -1.\<close>

theorem get_returns:
  assumes "seg_queue Q contents" and "config_ok (pconfig s)"
    and "ppcs s t = GetPop" and "holder s = None" and "\<not> lock_poison s"
  shows "\<exists>s' es r. get_alone p Q t (\<lambda>_. res)
      (7 + pages_per_block (pconfig s) * states_per_page (pconfig s)) s = (s', es @ [Got t r]) \<and>
    holder s' = None \<and> ppcs s' t = Outside \<and>
    (if contents (freelist s) \<noteq> {#} then
       es = [] \<and> mmaps s' = mmaps s \<and> (\<exists>x. r = Inr x \<and> contents (freelist s) = add_mset x (contents (freelist s')))
     else
       if res = 0 \<or> res = - 1 then
         es = [] \<and> r = Inl AllocationFailure \<and> mmaps s' = mmaps s \<and> contents (freelist s') = {#}
       else es = [Mapped t (unat res)] \<and> mmaps s' = mmaps s @ [unat res] \<and> (\<exists>x. r = Inr x \<and>
           mset (block_states (pconfig s) (unat res)) = add_mset x (contents (freelist s'))))"
proof (cases "contents (freelist s) = {#}")
  case ne: False
  have n: "7 + pages_per_block (pconfig s) * states_per_page (pconfig s) =
      Suc (6 + pages_per_block (pconfig s) * states_per_page (pconfig s))" by simp
  obtain x q where "contents (freelist s) = add_mset x (contents q)"
    "get_alone p Q t (\<lambda>_. res) (7 + pages_per_block (pconfig s) * states_per_page (pconfig s)) s =
      (s\<lparr>freelist := q, held := add_mset x (held s), ppcs := (ppcs s)(t := Outside)\<rparr>, [Got t (Inr x)])"
    unfolding n by (rule seg_queue.get_from_freelist [OF assms(1,3) ne])
  then show ?thesis using assms(4) by (simp del: get_alone.simps)
next
  case e: True
  note empty = seg_queue.get_mmap_fails [OF assms(1,3-5) config_ok_made [OF assms(2)] e]
    and maps = seg_queue.get_maps_block [OF assms(1,3-5,2) e]
  show ?thesis
  proof (cases "mmap res")
    case None
    then have "res = 0 \<or> res = - 1" by (simp add: mmap_eq_None)
    then show ?thesis
      using None empty [of "\<lambda>_. res" p "2 + pages_per_block (pconfig s) * states_per_page (pconfig s)"] e assms(4)
      by (simp del: get_alone.simps)
  next
    case (Some page)
    then have res: "page = res" "res \<noteq> 0" "res \<noteq> - 1" using mmap_eq_None [of res] by (auto simp: mmap_eq_Some)
    obtain x q where "mset (block_states (pconfig s) (unat page)) = add_mset x (contents q)"
      "get_alone p Q t (\<lambda>_. res) (7 + length (block_states (pconfig s) (unat page)) + 0) s =
        (s\<lparr>mmaps := mmaps s @ [unat page], freelist := q, held := add_mset x (held s),
           ppcs := (ppcs s)(t := Outside)\<rparr>, [Mapped t (unat page), Got t (Inr x)])"
      using maps [of "\<lambda>_. res" page p 0] Some by blast
    then show ?thesis using res e assms(4) by (simp add: length_block_states del: get_alone.simps)
  qed
qed

theorem get_returns_witness:
  "\<exists>s' x. get_alone Debug fifo 0 (\<lambda>_. 4096) 9 demo_start = (s', [Mapped 0 4096, Got 0 (Inr x)]) \<and>
     mmaps s' = [4096] \<and> mset [4096, 4120] = add_mset x (mset (freelist s'))"
proof -
  have c: "pconfig demo_start = demo_config" "freelist demo_start = []" "mmaps demo_start = []"
    "7 + pages_per_block demo_config * states_per_page demo_config = 9"
    by (simp_all add: pgoto_def pool_new_def fifo_def demo_config_def)
  have "config_ok (pconfig demo_start)" using demo_config_ok by (simp only: c)
  from get_returns [OF fifo.seg_queue_axioms this, of 0 Debug 4096] show ?thesis
    unfolding c by (simp add: demo_mmap demo_block del: get_alone.simps)
      (auto simp: pgoto_def pool_new_def)
qed

lemma mmap_small:
  assumes "0 < k" and "k < 2 ^ 63"
  shows "mmap (of_nat k) \<noteq> None"
proof -
  have u: "unat (of_nat k :: 64 word) = k" using assms(2) by (simp add: unat_of_nat)
  then have "uint (of_nat k :: 64 word) = int k" by (metis uint_nat)
  then have "sint (of_nat k :: 64 word) = int k"
    using assms(2) by (simp add: sint_uint signed_take_bit_int_eq_self)
  moreover have "(of_nat k :: 64 word) \<noteq> 0" using u assms(1) by (metis unat_0 less_numeral_extra(3))
  ultimately show ?thesis by (simp add: mmap_def)
qed

text \<open>C37. The loop inside the lock ends only because a state fits into a page. With a configuration that
  \<open>Config::new\<close> made for a state larger than a page, and as long as no system call returns 0 or -1,
  \<open>get\<close> on an empty free list never returns: from its second step on the thread holds the lock, it emits
  nothing but mappings, and it makes as many of them as it is given time for.\<close>

theorem get_never_returns:
  assumes "config_new p ps res cpu_set page = Some c" and "page < state_size ps" and "pconfig s = c"
    and "sq_pop Q (freelist s) = None"
    and "ppcs s t = GetPop" and "holder s = None" and "\<not> lock_poison s"
    and "\<And>s. answer s \<noteq> 0 \<and> answer s \<noteq> - 1"
  shows "holder (fst (get_alone p Q t answer (n + 2) s)) = Some t \<and>
    (\<exists>ms. snd (get_alone p Q t answer (n + 2) s) = map (Mapped t) ms) \<and>
    (\<exists>m. length (snd (get_alone p Q t answer m s)) = n)"
proof (rule get_grows_for_ever [OF assms(5-7,4)])
  show "states_per_page (pconfig s) = 0" using config_new_block(4) [OF assms(1)] assms(2,3) by simp
  show "usize_mul p (page_size (pconfig s)) (pages_per_block (pconfig s)) =
      Some (page_size (pconfig s) * pages_per_block (pconfig s))"
    using config_new_block(5) [OF assms(1)] assms(3) by (simp add: arith_ok)
  show "mmap (answer s) \<noteq> None" for s using assms(8) by (simp add: mmap_eq_None)
qed

theorem get_never_returns_witness:
  "\<exists>c. config_new Debug \<lparr>size_of_opaque_states = 100, mmap_prot = 0, mmap_flags = 0, reserved = []\<rparr>
       128 (replicate 128 15) 64 = Some c \<and>
     (\<forall>n. \<exists>m. length (snd (get_alone Debug fifo 0 (\<lambda>s. of_nat (4096 * (1 + length (mmaps s)) mod 2 ^ 60 + 4096)) m
        (pgoto 0 GetPop (pool_new fifo c)))) = n)"
proof -
  let ?ps = "\<lparr>size_of_opaque_states = 100, mmap_prot = 0, mmap_flags = 0, reserved = []\<rparr>"
  obtain c where c: "config_new Debug ?ps 128 (replicate 128 15) 64 = Some c"
    using config_new_ok [of ?ps 64 "replicate 128 15" Debug 128] by simp
  have ans: "of_nat (k mod 2 ^ 60 + 4096) \<noteq> (0 :: 64 word) \<and> of_nat (k mod 2 ^ 60 + 4096) \<noteq> (- 1 :: 64 word)" for k :: nat
  proof -
    have "k mod 2 ^ 60 < 2 ^ 60" by (rule mod_less_divisor) simp
    then have "mmap (of_nat (k mod 2 ^ 60 + 4096)) \<noteq> None" by (intro mmap_small) simp_all
    then show ?thesis by (simp add: mmap_eq_None)
  qed
  have "\<exists>m. length (snd (get_alone Debug fifo 0
      (\<lambda>s. of_nat (4096 * (1 + length (mmaps s)) mod 2 ^ 60 + 4096)) m
      (pgoto 0 GetPop (pool_new fifo c)))) = n" for n
    using get_never_returns [OF c, of "pgoto 0 GetPop (pool_new fifo c)" fifo 0
      "\<lambda>s. of_nat (4096 * (1 + length (mmaps s)) mod 2 ^ 60 + 4096)" n] ans
    by (simp add: pgoto_def pool_new_def fifo_def)
  with c show ?thesis by blast
qed

text \<open>C23. Dropping the pool, with any configuration that \<open>Config::new\<close> makes,
  makes one \<open>munmap\<close> call per recorded mapping, in the order of the mappings and with
  the size they were mapped with. The mappings that are real are distinct, so none is unmapped
  twice. In the debug profile the drop panics instead exactly if some state has not been returned or
  the number of states does not fit a \<open>usize\<close>; the states of the real mappings do fit.\<close>

theorem pool_drop_unmaps:
  assumes "seg_queue Q contents" and "config_made c"
    and "runs (pool_sys p Q documented_kernel) (pool_new Q c) es s" and "holder s = None"
  shows "distinct (real_mappings s) \<and> length (real_states s) < 2 ^ 64 \<and>
    pool_drop p' Q s =
      (if p' = Debug \<and> (held s \<noteq> {#} \<or>
          2 ^ 64 \<le> pages_per_block (pconfig s) * states_per_page (pconfig s) * length (mmaps s)) then None
       else Some (map (\<lambda>m. (m, page_size (pconfig s) * pages_per_block (pconfig s))) (mmaps s)))"
proof -
  note inv = seg_queue.reachable_inv [OF assms(1-3)] and mapped = seg_queue.reachable_mapped [OF assms(1-3)]
  have ok: "config_made (pconfig s)" "regions_ok (pconfig s) (real_mappings s)"
    using mapped by (simp_all add: mapped_ok_def)
  then have "distinct (real_mappings s)" "length (real_states s) < 2 ^ 64"
    using states_bound [OF ok] by (simp_all add: regions_ok_def real_states_def length_states)
  then show ?thesis
    using seg_queue.pool_drop_eq [OF assms(1) inv assms(4)] by (simp add: block_size_def)
qed

theorem pool_drop_unmaps_witness:
  "pool_drop Debug fifo demo_held = None \<and>
   pool_drop Debug fifo (recycle fifo 4096 demo_held) = Some [(4096, 64)]"
proof -
  have "pool_sys Debug fifo documented_kernel demo_held [Returned 4096] (recycle fifo 4096 demo_held)"
    by (rule pool_sys.return) (simp add: demo_get(2))
  then have "runs (pool_sys Debug fifo documented_kernel) (pool_new fifo demo_config)
      [Mapped 0 4096, Got 0 (Inr 4096), Returned 4096] (recycle fifo 4096 demo_held)"
    using runs.more [OF demo_runs] by fastforce
  from pool_drop_unmaps [OF fifo.seg_queue_axioms demo_config_made this, of Debug]
    pool_drop_unmaps [OF fifo.seg_queue_axioms demo_config_made demo_runs, of Debug]
  show ?thesis by (simp add: recycle_def demo_get(2)) (simp add: demo_config_def)
qed

subsection \<open>A failed system call\<close>

text \<open>C36. \<open>mmap\<close> recognises the failure \<open>-1\<close> only. The system call
  reports a failure as the negated error number: every other one, such as \<open>ENOMEM\<close>, is
  recorded as a mapping in the last 4095 bytes of the address space. With a configuration the pool
  can use (\<open>config_ok\<close>), \<open>get\<close> on an empty free list then succeeds, with a
  state of that mapping: it lies in these last bytes, or wraps around to the first bytes of the
  address space. The witness has the call fail twice: both callers are given the same state.\<close>

theorem get_after_failed_mmap:
  assumes "syscall_failed res" and "res \<noteq> - 1"
    and "seg_queue Q contents" and "config_ok (pconfig s)" and "contents (freelist s) = {#}"
    and "ppcs s t = GetPop" and "holder s = None" and "\<not> lock_poison s"
  shows "\<exists>n x q. get_alone p Q t (\<lambda>_. res) n s =
      (s\<lparr>mmaps := mmaps s @ [unat res], freelist := q, held := add_mset x (held s),
         ppcs := (ppcs s)(t := Outside)\<rparr>, [Mapped t (unat res), Got t (Inr x)]) \<and>
    2 ^ 64 - 4095 \<le> unat res \<and>
    mset (block_states (pconfig s) (unat res)) = add_mset x (contents q) \<and>
    (2 ^ 64 - 4095 \<le> x \<or> x < block_size (pconfig s))"
proof -
  have hi: "2 ^ 64 - 4095 \<le> unat res" using assms(1) unfolding syscall_failed_iff .
  then have "res \<noteq> 0" by auto
  then have "mmap res = Some res" using assms(2) mmap_eq_None [of res] by (auto simp: mmap_def)
  then obtain x q n where x: "mset (block_states (pconfig s) (unat res)) = add_mset x (contents q)"
    and g: "get_alone p Q t (\<lambda>_. res) n s = (s\<lparr>mmaps := mmaps s @ [unat res], freelist := q,
      held := add_mset x (held s), ppcs := (ppcs s)(t := Outside)\<rparr>,
        [Mapped t (unat res), Got t (Inr x)])"
    using seg_queue.get_maps_block [OF assms(3,6-8,4,5), of "\<lambda>_. res" res] by metis
  have "x \<in># mset (block_states (pconfig s) (unat res))" using x by simp
  then have "x \<in> set (block_states (pconfig s) (unat res))" by simp
  moreover have "unat res < 2 ^ 64" using unsigned_less [of res, where 'a = nat] by simp
  ultimately have "unat res \<le> x \<or> x < block_size (pconfig s)"
    using state_at_end [OF config_ok_made [OF assms(4)]] by blast
  with hi have "2 ^ 64 - 4095 \<le> x \<or> x < block_size (pconfig s)" by (blast intro: order_trans)
  with g x hi show ?thesis by blast
qed

text \<open>One state per block.\<close>

definition tiny_config :: config where
  "tiny_config = \<lparr>page_size = 64, pages_per_block = 1, states_per_page = 1,
     params = \<lparr>size_of_opaque_states = 48, mmap_prot = 0, mmap_flags = 0, reserved = []\<rparr>\<rparr>"

theorem get_after_failed_mmap_witness:
  "\<exists>m n s s' x. get_alone Debug fifo 0 (\<lambda>_. - 12) m (pgoto 0 GetPop (pool_new fifo tiny_config)) =
       (s, [Mapped 0 x, Got 0 (Inr x)]) \<and>
     get_alone Debug fifo 1 (\<lambda>_. - 12) n (pgoto 1 GetPop s) = (s', [Mapped 1 x, Got 1 (Inr x)]) \<and>
     held s' = {#x, x#}"
proof -
  let ?w = "- 12 :: 64 word" and ?s = "pgoto 0 GetPop (pool_new fifo tiny_config)"
  have "sint ?w = - 12" by simp
  then have w: "syscall_failed ?w" "?w \<noteq> - 1" by (auto simp: syscall_failed_def)
  have b: "block_states tiny_config 18446744073709551604 = [18446744073709551604]"
    by (simp add: block_states_def tiny_config_def upt_rec)
  have c: "config_ok tiny_config" by (simp add: config_ok_def config_made_def tiny_config_def)
  obtain m x q where 1: "get_alone Debug fifo 0 (\<lambda>_. ?w) m ?s =
      (?s\<lparr>mmaps := mmaps ?s @ [unat ?w], freelist := q, held := add_mset x (held ?s),
         ppcs := (ppcs ?s)(0 := Outside)\<rparr>, [Mapped 0 (unat ?w), Got 0 (Inr x)])"
    "mset [unat ?w] = add_mset x (mset q)"
    using get_after_failed_mmap [OF w fifo.seg_queue_axioms, of ?s 0 Debug] c
    by (auto simp: pgoto_def pool_new_def fifo_def b)
  then have x: "x = unat ?w" "q = []" by auto
  let ?t = "?s\<lparr>mmaps := mmaps ?s @ [unat ?w], freelist := q, held := add_mset x (held ?s),
      ppcs := (ppcs ?s)(0 := Outside)\<rparr>"
  let ?u = "pgoto 1 GetPop ?t"
  obtain n y r where 2: "get_alone Debug fifo 1 (\<lambda>_. ?w) n ?u =
      (?u\<lparr>mmaps := mmaps ?u @ [unat ?w], freelist := r, held := add_mset y (held ?u),
         ppcs := (ppcs ?u)(1 := Outside)\<rparr>, [Mapped 1 (unat ?w), Got 1 (Inr y)])"
    "mset [unat ?w] = add_mset y (mset r)"
    using get_after_failed_mmap [OF w fifo.seg_queue_axioms, of ?u 1 Debug] c x(2)
    by (auto simp: pgoto_def pool_new_def fifo_def b)
  then have y: "y = unat ?w" by auto
  show ?thesis
    using 1(1) 2(1) unfolding x(1) y
    by (intro exI conjI) (assumption, assumption, simp add: pgoto_def pool_new_def x)
qed

end
