(* ===== verification/Vdso_Pool_Lock.thy ===== *)
theory Vdso_Pool_Lock
  imports Lam_Borrow Vdso_Pool_Correct
begin

section \<open>The pool on its lock (\<open>pool.rs\<close> on \<open>poison.rs\<close>)\<close>

text \<open>
  \<open>Vdso_Pool\<close> has the lock by its contract. Here the pool runs on the lock of \<open>lamlock\<close>: a state
  is a state of the lock's system, with its memory, and a state of the pool. \<open>Pool::get\<close> calls
  \<open>poison::Lock::run\<close>; whichever thread the lock lets execute the closure carries out its
  accesses one by one, the other threads moving between them. The data the lock holds stand for what the
  closure in progress has made of them: its outcome, the mappings themselves being those of the pool.
\<close>

type_synonym 'p get_outcome = "(error + nat, 'p) outcome"

type_synonym 'p get_world = "('p get_outcome pdata, (error + nat) pres, 'p) sys \<times> hb \<times> history"

text \<open>
  The task \<open>run\<close> queues. The loop of the closure is not in it but in the accesses of
  \<open>pool_step_pc\<close>, one by one; by the time the lock lets the task finish they have left the outcome
  in the data, and the task hands it over.
\<close>

definition get_task :: "('p get_outcome, error + nat, 'p) ptask" where
  "get_task = run_task (\<lambda>out. (out, out))"

definition closure_ends :: "'p get_outcome \<Rightarrow> 'p get_world \<Rightarrow> 'p get_world" where
  "closure_ends out x = (case x of (s, h, y) \<Rightarrow> (s\<lparr>data := (out, snd (data s))\<rparr>, h, y))"

definition flagged :: "'p get_world \<Rightarrow> bool" where
  "flagged x \<longleftrightarrow> snd (data (fst x))"

fun queueing :: "('d, 'r, 'p) event \<Rightarrow> bool" where
  "queueing (Enq t) = True"
| "queueing (Cancel t) = True"
| "queueing e = False"

text \<open>
  The first three rules are the thread that calls \<open>get\<close>, outside the lock; \<open>lock\<close> is any step of
  \<open>lamlock\<close> that neither runs a closure nor begins or ends a call. A closure that the flag lets
  in begins, makes its accesses, and ends by returning or unwinding; \<open>refuse\<close> is the task whose
  closure the flag keeps out. \<open>answer\<close> and \<open>poisoned\<close> are \<open>run(..).unwrap_or(Err(PoolPoisoned))\<close>.
\<close>

inductive pool_on_lock ::
    "feature \<Rightarrow> profile \<Rightarrow> 'q segq \<Rightarrow> ('q pool \<Rightarrow> 64 word \<Rightarrow> bool) \<Rightarrow>
     'p get_world \<times> 'q pool \<Rightarrow> pool_event list \<Rightarrow> 'p get_world \<times> 'q pool \<Rightarrow> bool"
  for cfg pf Q kernel where
  call: "ppcs p t = Outside \<Longrightarrow> pcs (fst x) t = Idle \<Longrightarrow>
    pool_on_lock cfg pf Q kernel (x, p) [] (x, pgoto t GetPop p)"
| pop: "ppcs p t = GetPop \<Longrightarrow> pool_step pf Q t res p = PNext p' es \<Longrightarrow>
    pool_on_lock cfg pf Q kernel (x, p) es (x, p')"
| request: "ppcs p t = GetLock \<Longrightarrow> weak_step cfg x [Call t get_task] x' \<Longrightarrow>
    pool_on_lock cfg pf Q kernel (x, p) [] (x', p)"
| lock: "weak_step cfg x es x' \<Longrightarrow> \<forall>e \<in> set es. queueing e \<Longrightarrow>
    pool_on_lock cfg pf Q kernel (x, p) [] (x', p)"
| enter: "executes (fst x) u t f \<Longrightarrow> \<not> flagged x \<Longrightarrow> ppcs p t = GetLock \<Longrightarrow>
    pool_on_lock cfg pf Q kernel (x, p) [] (x, pgoto t LockedPop (p\<lparr>holder := Some t\<rparr>))"
| access: "executes (fst x) u t f \<Longrightarrow>
    ppcs p t = LockedPop \<or> ppcs p t = LockedGrow \<or> (\<exists>xs. ppcs p t = LockedPush xs) \<Longrightarrow>
    (ppcs p t = LockedGrow \<longrightarrow> kernel p res) \<Longrightarrow> pool_step pf Q t res p = PNext p' es \<Longrightarrow> GetPanicked t \<notin> set es \<Longrightarrow>
    pool_on_lock cfg pf Q kernel (x, p) es (x, p')"
| finish: "executes (fst x) u t f \<Longrightarrow> ppcs p t = Unlocking r \<Longrightarrow>
    weak_step cfg (closure_ends (Return r) x) [Exec t] x' \<Longrightarrow> get_unlock t r p = PNext p' es \<Longrightarrow>
    pool_on_lock cfg pf Q kernel (x, p) es (x', p')"
| panic: "executes (fst x) u t f \<Longrightarrow> ppcs p t = LockedGrow \<Longrightarrow> kernel p res \<Longrightarrow>
    pool_step pf Q t res p = PNext p' [GetPanicked t] \<Longrightarrow>
    weak_step cfg (closure_ends (Panic message) x) [Exec t] x' \<Longrightarrow>
    pool_on_lock cfg pf Q kernel (x, p) [GetPanicked t] (x', p')"
| refuse: "flagged x \<Longrightarrow> ppcs p t = GetLock \<Longrightarrow> weak_step cfg x [Exec t] x' \<Longrightarrow>
    pool_on_lock cfg pf Q kernel (x, p) [] (x', p)"
| answer: "ppcs p t = Outside \<Longrightarrow> weak_step cfg x [Ret t ret] x' \<Longrightarrow>
    pool_on_lock cfg pf Q kernel (x, p) [] (x', p)"
| poisoned: "ppcs p t = GetLock \<Longrightarrow> weak_step cfg x [Ret t ret] x' \<Longrightarrow>
    run_answer ret = Some (Inl LockPoisoned) \<Longrightarrow> got t (Inl PoolPoisoned) p = PNext p' es \<Longrightarrow>
    pool_on_lock cfg pf Q kernel (x, p) es (x', p')"
| return: "ptr \<in># held p \<Longrightarrow> pool_on_lock cfg pf Q kernel (x, p) [Returned ptr] (x, recycle Q ptr p)"

text \<open>At the start the data are there and no closure has run.\<close>

definition pool_world :: "'q segq \<Rightarrow> config \<Rightarrow> 'p get_outcome \<Rightarrow> 'p get_world \<times> 'q pool" where
  "pool_world Q c out = (world_init (plock_new out), pool_new Q c)"

subsection \<open>What the lock keeps\<close>

lemma closure_ends_simps [simp]:
  "fst (closure_ends out x) = (fst x)\<lparr>data := (out, snd (data (fst x)))\<rparr>"
  "flagged (closure_ends out x) = flagged x"
  by (simp_all add: closure_ends_def flagged_def split: prod.split)

lemma closure_ends_rel:
  assumes "weak_rel cfg x a"
  shows "weak_rel cfg (closure_ends out x) (a\<lparr>sdata := (out, snd (sdata a))\<rparr>)"
proof -
  have "closure_ends out x = get_mut (\<lambda>d. (out, snd d)) x"
    by (simp add: closure_ends_def get_mut_def split: prod.split)
  then show ?thesis using get_mut_rel [OF assms] by simp
qed

text \<open>What one event of the lock does to the specification.\<close>

lemma lock_event:
  assumes "weak_rel cfg x a" and "weak_step cfg x [e] x'"
  obtains a' where "spec_step cfg e a = Some a'" "weak_rel cfg x' a'"
  using weak_step_refines [OF assms] by (auto simp: bind_eq_Some_conv simp del: spec_step.simps)

lemma queueing_spec:
  assumes "spec_run cfg es a = Some a'" and "\<forall>e \<in> set es. queueing e"
  shows "phase a' = phase a" and "sdata a' = sdata a"
proof -
  have "phase a' = phase a \<and> sdata a' = sdata a"
    using assms
  proof (induction es arbitrary: a)
    case (Cons e es)
    then obtain b where b: "spec_step cfg e a = Some b" "spec_run cfg es b = Some a'"
      by (auto simp: bind_eq_Some_conv)
    then have "phase b = phase a" "sdata b = sdata a"
      using Cons.prems(2) by (cases e; auto split: phase.splits if_splits)+
    with Cons.IH [OF b(2)] Cons.prems(2) show ?case by simp
  qed simp
  then show "phase a' = phase a" "sdata a' = sdata a" by auto
qed

lemma flagged_spec: "weak_rel cfg x a \<Longrightarrow> flagged x = snd (sdata a)"
  using inv_parts(4) by (cases x) (fastforce simp: weak_rel_def flagged_def spec_inv_def)

text \<open>Whoever executes a closure goes on until it has ended.\<close>

lemma executes_kept:
  assumes "weak_rel cfg x a" and "weak_step cfg x es x'" and "executes (fst x) u c f"
    and "\<forall>b. Exec b \<notin> set es"
  shows "executes (fst x') u c f"
proof -
  obtain s h y where x: "x = (s, h, y)" by (cases x)
  have u: "pcs s u \<noteq> Idle" "pcs s u \<noteq> FutexSleep" using assms(3) x by (auto simp: executes_def)
  have pcs: "pcs (fst x') u = pcs s u"
    using assms(2) [unfolded x]
  proof cases
    case (thread t s' as)
    have "t \<noteq> u" using executes_event(1) [of s t c f cfg s' es] assms(3,4) thread(2) x by auto
    then show ?thesis using thread thread_step_awake [OF thread(2)] u(2) by auto
  next
    case (stale t l i s0)
    have "t \<noteq> u"
    proof
      assume "t = u"
      then have "\<not> only_loads l (accesses cfg t s1 (pcs s t))" for s1
        using assms(3) x by (auto simp: executes_def at_defs split: step_splits)
      then show False using stale(2) by (simp add: stale_step_def Let_def split: if_splits)
    qed
    moreover have "thread_step cfg t (with_value l (fst (past y l ! i)) s) = Next s0 es"
      using stale(2) by (simp add: stale_step_def Let_def split: if_splits)
    ultimately have "pcs s0 u = pcs s u"
      using thread_step_awake [of cfg t "with_value l (fst (past y l ! i)) s" s0 es u] u(2) by simp
    then show ?thesis using stale(1) by simp
  qed (use u in auto)
  then show ?thesis using assms(3) x by (simp add: executes_def)
qed

text \<open>What a call of the lock returns is what its thread was about to return.\<close>

lemma returning_event:
  assumes "weak_rel cfg x a" and "weak_step cfg x [Ret t ret] x'"
  shows "pcs (fst x) t = Returning ret"
  using assms
proof (cases rule: weak_step_cases)
  case (thread u)
  then show ?thesis
    unfolding thread_step_def
    by (cases "pcs (fst x) u")
      (auto simp: access_def wake_def cancel_def split: step_splits)
qed auto

subsection \<open>The two together\<close>

definition answer_step :: "nat \<Rightarrow> pool_event \<Rightarrow> (error + nat) option \<Rightarrow> (error + nat) option" where
  "answer_step t e r = (case e of Got u q \<Rightarrow> if u = t then Some q else r | _ \<Rightarrow> r)"

text \<open>The latest answer of \<open>get\<close> to a thread.\<close>

definition answer_of :: "nat \<Rightarrow> pool_event list \<Rightarrow> (error + nat) option" where
  "answer_of t es = fold (answer_step t) es None"

lemma answer_of_append: "answer_of t (es @ fs) = fold (answer_step t) fs (answer_of t es)"
  by (simp add: answer_of_def)

text \<open>Where the call of \<open>run\<close> and the call of \<open>get\<close> of one thread stand.\<close>

fun at_call ::
    "('p get_outcome pdata, (error + nat) pres, 'p) phase \<Rightarrow> pool_pc \<Rightarrow> (error + nat) option \<Rightarrow> bool" where
  "at_call Quiet k r \<longleftrightarrow> \<not> inside k"
| "at_call (Pending f) k r \<longleftrightarrow> f = get_task \<and> (k = GetLock \<or> inside k)"
| "at_call (Finished out) k r \<longleftrightarrow> k = Outside \<and> (\<exists>q. out = Return (RanOk (Inr q)) \<and> r = Some q)"

lemma at_call_phase:
  assumes "at_call ph k r"
  shows "k = GetPop \<Longrightarrow> ph = Quiet" and "k = GetLock \<Longrightarrow> ph = Quiet \<or> ph = Pending get_task"
    and "inside k \<Longrightarrow> ph = Pending get_task"
  using assms by (cases ph; auto)+

lemma pool_step_thread:
  assumes "pool_step pf Q t res p = PNext p' es"
  shows "\<exists>k. ppcs p' = (ppcs p)(t := k)" and "u \<noteq> t \<Longrightarrow> fold (answer_step u) es r = r"
  using assms
  by (cases "ppcs p t";
    auto simp: pool_step_def get_pop_def get_lock_def locked_pop_def grow_map_def grow_push_def
      get_unlock_def got_def pgoto_def answer_step_def split: option.splits if_splits list.splits sum.splits)+

context seg_queue
begin

definition together :: "feature \<Rightarrow> 'p get_world \<times> 'q pool \<Rightarrow> pool_event list \<Rightarrow> bool" where
  "together cfg w es \<longleftrightarrow>
     (case w of (x, p) \<Rightarrow> healthy (fst x) \<and> \<not> flagged x \<and> pool_ok p \<and>
        (\<exists>a. weak_rel cfg x a \<and> (\<forall>t. at_call (phase a t) (ppcs p t) (answer_of t es))) \<and>
        (\<forall>t. inside (ppcs p t) \<longrightarrow> (\<exists>u f. executes (fst x) u t f)))"

text \<open>A step of the pool while the lock rests.\<close>

lemma together_pool:
  assumes T: "together cfg (x, p) es" and "pool_sys pf Q answers p fs p'"
    and "ppcs p' = (ppcs p)(t := k)" and "\<And>u r. u \<noteq> t \<Longrightarrow> fold (answer_step u) fs r = r"
    and "\<And>a. weak_rel cfg x a \<Longrightarrow> at_call (phase a t) (ppcs p t) (answer_of t es) \<Longrightarrow>
      at_call (phase a t) k (answer_of t (es @ fs))"
    and "inside k \<Longrightarrow> \<exists>u f. executes (fst x) u t f"
  shows "together cfg (x, p') (es @ fs)"
proof -
  obtain a where a: "healthy (fst x)" "\<not> flagged x" "pool_ok p" "weak_rel cfg x a"
    "\<And>t. at_call (phase a t) (ppcs p t) (answer_of t es)"
    "\<And>t. inside (ppcs p t) \<Longrightarrow> \<exists>u f. executes (fst x) u t f"
    using T unfolding together_def by auto
  have "pool_ok p'" by (rule pool_ok_sys [OF a(3) assms(2)])
  moreover have "at_call (phase a u) (ppcs p' u) (answer_of u (es @ fs))" for u
    using a(5) [of u] assms(4) [of u] assms(5) [OF a(4)] assms(3)
    by (cases "u = t") (auto simp: answer_of_append)
  then have "\<exists>b. weak_rel cfg x b \<and> (\<forall>u. at_call (phase b u) (ppcs p' u) (answer_of u (es @ fs)))"
    using a(4) by blast
  moreover have "\<forall>u. inside (ppcs p' u) \<longrightarrow> (\<exists>v f. executes (fst x) v u f)"
    using a(6) assms(3,6) by auto
  ultimately show ?thesis using a(1,2) by (simp add: together_def)
qed

text \<open>A step of the lock in which no closure is run.\<close>

lemma together_lock:
  assumes T: "together cfg (x, p) es" and w: "weak_step cfg x ls x'"
    and "\<forall>b. Exec b \<notin> set ls"
    and "\<And>a a'. spec_run cfg ls a = Some a' \<Longrightarrow> sdata a' = sdata a \<and>
      (\<forall>t. at_call (phase a t) (ppcs p t) (answer_of t es) \<longrightarrow> at_call (phase a' t) (ppcs p t) (answer_of t es))"
  shows "together cfg (x', p) es"
proof -
  obtain a where a: "healthy (fst x)" "\<not> flagged x" "pool_ok p" "weak_rel cfg x a"
    "\<And>t. at_call (phase a t) (ppcs p t) (answer_of t es)"
    "\<And>t. inside (ppcs p t) \<Longrightarrow> \<exists>u f. executes (fst x) u t f"
    using T unfolding together_def by auto
  obtain a' where a': "spec_run cfg ls a = Some a'" "weak_rel cfg x' a'"
    using weak_step_refines [OF a(4) w] by blast
  have "healthy (fst x')" using healthy_step [OF a(4,1) w] assms(3) by blast
  moreover have "\<not> flagged x'" using a(2) assms(4) [OF a'(1)] flagged_spec a'(2) a(4) by metis
  moreover have "\<exists>u f. executes (fst x') u t f" if "inside (ppcs p t)" for t
    using a(6) [OF that] executes_kept [OF a(4) w _ assms(3)] by blast
  ultimately show ?thesis using a(3,5) a'(2) assms(4) [OF a'(1)] unfolding together_def by auto
qed

lemma together_pending:
  assumes "together cfg (x, p) es" and "executes (fst x) u t f"
  shows "f = get_task" and "ppcs p t = GetLock \<or> inside (ppcs p t)"
    and "\<And>b. inside (ppcs p b) \<Longrightarrow> b = t"
proof -
  obtain a where a: "weak_rel cfg x a" "at_call (phase a t) (ppcs p t) (answer_of t es)"
    "\<And>t. inside (ppcs p t) \<Longrightarrow> \<exists>u f. executes (fst x) u t f"
    using assms(1) unfolding together_def by auto
  obtain g where g: "inv cfg (fst x) g" "gspec g = a"
    using a(1) by (cases x) (auto simp: weak_rel_def)
  show "f = get_task" "ppcs p t = GetLock \<or> inside (ppcs p t)"
    using a(2) executes_pending(1) [OF g(1) assms(2)] g(2) by auto
  show "b = t" if i: "inside (ppcs p b)" for b
  proof -
    obtain v f' where v: "executes (fst x) v b f'" using a(3) [OF i] by blast
    then have "v = u" using executes_pending(2) [OF g(1)] assms(2) by (metis option.inject)
    then show ?thesis using v assms(2) by (auto simp: executes_def)
  qed
qed

lemma together_finish:
  assumes T: "together cfg (x, p) es" and x: "executes (fst x) u t f" and k: "ppcs p t = Unlocking r"
    and w: "weak_step cfg (closure_ends (Return r) x) [Exec t] x'" and p': "get_unlock t r p = PNext p' fs"
  shows "together cfg (x', p') (es @ fs)" and "pool_sys pf Q answers p fs p'"
proof -
  obtain a where a: "healthy (fst x)" "\<not> flagged x" "pool_ok p" "weak_rel cfg x a"
    "\<And>t. at_call (phase a t) (ppcs p t) (answer_of t es)"
    using T unfolding together_def by auto
  show st: "pool_sys pf Q answers p fs p'"
    by (rule pool_sys.thread [where t = t and res = 0]) (simp_all add: pool_step_def k p')
  note W = closure_ends_rel [OF a(4), of "Return r"]
  let ?a = "a\<lparr>sdata := (Return r, snd (sdata a))\<rparr>"
  have ph: "phase a t = Pending get_task" using a(5) [of t] k at_call_phase(3) by fastforce
  have sd: "\<not> snd (sdata a)" using a(2) flagged_spec [OF a(4)] by simp
  obtain b where b: "spec_step cfg (Exec t) ?a = Some b" "weak_rel cfg x' b" by (rule lock_event [OF W w])
  then have b': "phase b = (phase a)(t := Finished (Return (RanOk (Inr r))))" "sdata b = (Return r, False)"
    using ph sd by (auto simp: get_task_def run_task_def split: if_splits)
  have "healthy (fst x')"
    by (rule healthy_step [OF W _ w])
      (use a(1,2) ph in \<open>auto simp: healthy_def get_task_def run_task_def flagged_def\<close>)
  moreover have "\<not> flagged x'" using flagged_spec [OF b(2)] b'(2) by simp
  moreover have "pool_ok p'" by (rule pool_ok_sys [OF a(3) st])
  moreover have pc: "ppcs p' = (ppcs p)(t := Outside)" and fs: "fs = [Got t r]"
    using p' by (auto simp: get_unlock_def got_def pgoto_def split: sum.splits)
  have "at_call (phase b v) (ppcs p' v) (answer_of v (es @ fs))" for v
    using a(5) [of v] by (simp add: b'(1) pc fs answer_of_append answer_step_def)
  then have "\<exists>b. weak_rel cfg x' b \<and> (\<forall>v. at_call (phase b v) (ppcs p' v) (answer_of v (es @ fs)))"
    using b(2) by blast
  moreover have "\<forall>v. \<not> inside (ppcs p' v)" using together_pending(3) [OF T x] by (auto simp: pc)
  ultimately show "together cfg (x', p') (es @ fs)" by (simp add: together_def)
qed

lemma together_enter:
  assumes T: "together cfg (x, p) es" and x: "executes (fst x) u t f" and k: "ppcs p t = GetLock"
  shows "together cfg (x, pgoto t LockedPop (p\<lparr>holder := Some t\<rparr>)) es"
    and "pool_sys pf Q answers p [] (pgoto t LockedPop (p\<lparr>holder := Some t\<rparr>))"
proof -
  let ?p = "pgoto t LockedPop (p\<lparr>holder := Some t\<rparr>)"
  have inv: "pool_inv p" using T by (simp add: together_def pool_ok_def)
  have "\<not> inside (ppcs p b)" for b using together_pending(3) [OF T x, of b] k by auto
  then have "holder p = None" using holder_iff [OF inv, of "the (holder p)"] by (cases "holder p") auto
  moreover have "\<not> lock_poison p" using inv by (simp add: pool_inv_def)
  ultimately have "pool_step pf Q t 0 p = PNext ?p []"
    by (simp add: pool_step_def k get_lock_def)
  then show st: "pool_sys pf Q answers p [] ?p" by (rule pool_sys.thread [rotated]) (simp add: k)
  have "together cfg (x, ?p) (es @ [])"
  proof (rule together_pool [OF T st])
    show "ppcs ?p = (ppcs p)(t := LockedPop)" by (simp add: pgoto_def)
    fix a
    assume "weak_rel cfg x a" and c: "at_call (phase a t) (ppcs p t) (answer_of t es)"
    then obtain g where g: "inv cfg (fst x) g" "gspec g = a"
      by (cases x) (auto simp: weak_rel_def)
    then show "at_call (phase a t) LockedPop (answer_of t (es @ []))"
      using executes_pending(1) [OF g(1) x] c by simp
  qed (use x in auto)
  then show "together cfg (x, ?p) es" by simp
qed

lemma together_step:
  assumes T: "together cfg (x, p) es" and st: "pool_on_lock cfg pf Q answers (x, p) fs (x', p')"
  shows "together cfg (x', p') (es @ fs) \<and> (pool_sys pf Q answers p fs p' \<or> fs = [] \<and> p' = p)"
  using st
proof cases
  case (call t)
  have st: "pool_sys pf Q answers p [] (pgoto t GetPop p)" by (rule pool_sys.call [OF call(4)])
  have "together cfg (x, pgoto t GetPop p) (es @ [])"
  proof (rule together_pool [OF T st])
    fix a
    assume "weak_rel cfg x a"
    then obtain g where g: "inv cfg (fst x) g" "gspec g = a" by (cases x) (auto simp: weak_rel_def)
    then have "phase a t = Quiet" using inv_parts(5) [OF g(1), of t] call(5) by simp
    then show "at_call (phase a t) GetPop (answer_of t (es @ []))" by simp
  qed (simp_all add: pgoto_def)
  with st call show ?thesis by simp
next
  case (pop t res)
  have st: "pool_sys pf Q answers p fs p'" using _ pop(3) by (rule pool_sys.thread) (simp add: pop(2))
  obtain k where k: "ppcs p' = (ppcs p)(t := k)" "\<not> inside k"
    using pop(2,3) by (auto simp: pool_step_def get_pop_def got_def pgoto_def split: option.splits)
  have "together cfg (x, p') (es @ fs)"
  proof (rule together_pool [OF T st k(1)])
    show "fold (answer_step u) fs r = r" if "u \<noteq> t" for u r by (rule pool_step_thread(2) [OF pop(3) that])
    show "at_call (phase a t) k (answer_of t (es @ fs))"
      if "at_call (phase a t) (ppcs p t) (answer_of t es)" for a
      using at_call_phase(1) [OF that pop(2)] k(2) by simp
  qed (use k(2) in simp)
  with st pop show ?thesis by simp
next
  case (request t)
  have "together cfg (x', p) es"
    by (rule together_lock [OF T request(4)])
      (use request(3) in \<open>auto simp: bind_eq_Some_conv split: phase.splits\<close>)
  with request show ?thesis by simp
next
  case (lock ls)
  have "together cfg (x', p) es"
    by (rule together_lock [OF T lock(3)]) (use lock(4) queueing_spec in \<open>fastforce+\<close>)
  with lock show ?thesis by simp
next
  case (enter u t f)
  with together_enter [OF T enter(4,6)] show ?thesis by simp
next
  case (access u t f res)
  have st: "pool_sys pf Q answers p fs p'" using access(4,5) by (rule pool_sys.thread)
  obtain k where k: "ppcs p' = (ppcs p)(t := k)" "inside k"
    using access(3,5,6)
    by (auto simp: pool_step_def locked_pop_def grow_map_def grow_push_def pgoto_def
        split: option.splits list.splits)
  have i: "inside (ppcs p t)" using access(3) by auto
  have "together cfg (x, p') (es @ fs)"
  proof (rule together_pool [OF T st k(1)])
    show "fold (answer_step u) fs r = r" if "u \<noteq> t" for u r by (rule pool_step_thread(2) [OF access(5) that])
    show "at_call (phase a t) k (answer_of t (es @ fs))"
      if "at_call (phase a t) (ppcs p t) (answer_of t es)" for a
      using at_call_phase(3) [OF that i] k(2) by simp
  qed (use access(2) in blast)
  with st access show ?thesis by simp
next
  case (finish u t f r)
  with together_finish [OF T finish(1-4)] show ?thesis by blast
next
  case (panic u t f res message)
  have "pool_inv p" "exits_ok p" using T by (simp_all add: together_def pool_ok_def)
  then have "told p p' fs" by (rule pool_step_told) (use panic in simp_all)
  then show ?thesis using panic(1) by (simp add: told_def answer_ok_def)
next
  case (refuse t)
  then show ?thesis using T by (simp add: together_def)
next
  case (answer t ret)
  have "together cfg (x', p) es"
    by (rule together_lock [OF T answer(4)])
      (use answer(3) in \<open>auto simp: bind_eq_Some_conv split: if_splits\<close>)
  with answer show ?thesis by simp
next
  case (poisoned t ret)
  obtain a where a: "healthy (fst x)" "weak_rel cfg x a" "at_call (phase a t) (ppcs p t) (answer_of t es)"
    using T unfolding together_def by auto
  have "ret_ok ret" using returning_event [OF a(2) poisoned(2)] a(1) by (metis healthy_def healthy_pc.simps)
  moreover obtain b where "spec_step cfg (Ret t ret) a = Some b"
    using lock_event [OF a(2) poisoned(2)] by blast
  ultimately show ?thesis
    using at_call_phase(2) [OF a(3) poisoned(1)] by (auto split: if_splits)
next
  case (return ptr)
  have st: "pool_sys pf Q answers p fs p'" unfolding return by (rule pool_sys.return [OF return(4)])
  have "together cfg (x, p') (es @ fs)"
  proof (rule together_pool [OF T st])
    show "ppcs p' = (ppcs p)(t := ppcs p t)" for t by (simp add: return recycle_def)
  qed (use T return in \<open>auto simp: together_def answer_of_append answer_step_def\<close>)
  with st return show ?thesis by simp
qed

lemma together_init: "config_made c \<Longrightarrow> together cfg (pool_world Q c out) []"
  unfolding together_def pool_world_def
  using weak_rel_init [of cfg "plock_new out"] pool_ok_new [of c] healthy_init
  by (auto simp: flagged_def world_init_def sys_init_def plock_new_def spec_init_def pool_new_def)

lemma on_lock_runs:
  assumes "runs (pool_on_lock cfg pf Q answers) w es w'" and "together cfg w []"
  shows "together cfg w' es \<and> runs (pool_sys pf Q answers) (snd w) es (snd w')"
  using assms
proof (induction rule: runs.induct)
  case (start w)
  then show ?case by (simp add: runs.start)
next
  case (more w es w' fs w'')
  obtain x p x' p' where w: "w' = (x, p)" "w'' = (x', p')" by (cases w'; cases w'')
  have "together cfg (x', p') (es @ fs) \<and> (pool_sys pf Q answers p fs p' \<or> fs = [] \<and> p' = p)"
    using together_step more w by blast
  moreover have "runs (pool_sys pf Q answers) (snd w) es p" using more w by simp
  ultimately show ?case using w by (auto intro: runs.more)
qed

lemma together_return:
  assumes T: "together cfg (x, p) es" and w: "weak_step cfg x [Ret t ret] x'"
  shows "ppcs p t = Outside \<and> (\<exists>r. answer_of t es = Some r \<and> run_answer ret = Some (Inr r))"
proof -
  obtain a where a: "healthy (fst x)" "weak_rel cfg x a" "at_call (phase a t) (ppcs p t) (answer_of t es)"
    using T unfolding together_def by auto
  have "ret_ok ret" using returning_event [OF a(2) w] a(1) by (metis healthy_def healthy_pc.simps)
  then obtain v where v: "ret = Ok v" by (cases ret) auto
  obtain b where "spec_step cfg (Ret t ret) a = Some b" using lock_event [OF a(2) w] by blast
  then have "allowed cfg (phase a t) (Ok v)" using v by (simp split: if_splits)
  then show ?thesis using a(3) v by (cases "phase a t") (auto split: outcome.splits)
qed

end

end
