(* ===== verification/Pool_Lock_Theorems.thy ===== *)
theory Pool_Lock_Theorems
  imports Vdso_Pool_Lock Vdso_Pool_Theorems
begin

section \<open>The properties of the pool on its lock\<close>

subsection \<open>A concrete run\<close>

text \<open>
  A thread on the empty pool, with the lock in the build without \<open>std\<close> that the crate asks for:
  through the fast path of the lock it maps a block and takes its first state.
\<close>

abbreviation demo_step ::
    "nat get_world \<times> nat list pool \<Rightarrow> pool_event list \<Rightarrow> nat get_world \<times> nat list pool \<Rightarrow> bool" where
  "demo_step \<equiv> pool_on_lock NoStd Debug fifo documented_kernel"

definition demo_reaches ::
    "pool_event list \<Rightarrow> (nat get_outcome pdata, (error + nat) pres, nat) sys \<Rightarrow> nat list pool \<Rightarrow> bool" where
  "demo_reaches es s p \<longleftrightarrow>
     (\<exists>z. runs demo_step (pool_world fifo demo_config (Return (Inl NotSupported))) es ((s, z), p))"

lemma demo_pool_moves:
  assumes "demo_reaches es s p" and "\<And>z. demo_step ((s, z), p) fs ((s, z), p')"
  shows "demo_reaches (es @ fs) s p'"
  using assms unfolding demo_reaches_def by (blast intro: runs.more)

lemma demo_lock_moves:
  assumes "demo_reaches es s p" and "perform NoStd m s' = Some (ls, s'')"
    and "\<And>z z'. weak_step NoStd (s', z) ls (s'', z') \<Longrightarrow> demo_step ((s, z), p) fs ((s'', z'), p')"
  shows "demo_reaches (es @ fs) s'' p'"
  using assms(1,3) perform_step [OF assms(2)] unfolding demo_reaches_def by (blast intro: runs.more)

definition demo_sys ::
    "(nat get_outcome pdata, (error + nat) pres, nat) pc \<Rightarrow> nat \<Rightarrow> nat get_outcome \<Rightarrow>
     (nat get_outcome pdata, (error + nat) pres, nat) sys" where
  "demo_sys k n out = \<lparr>raw = \<lparr>status = n, tail = None\<rparr>, data = (out, False), heap = (\<lambda>_. None),
     pcs = (\<lambda>_. Idle)(0 := k)\<rparr>"

definition demo_pool :: "pool_pc \<Rightarrow> nat list \<Rightarrow> nat list \<Rightarrow> nat option \<Rightarrow> nat multiset \<Rightarrow> nat list pool" where
  "demo_pool k ms q h xs = \<lparr>pconfig = demo_config, mmaps = ms, freelist = q, holder = h,
     lock_poison = False, held = xs, ppcs = (\<lambda>_. Outside)(0 := k)\<rparr>"

lemmas demo_lock_eval = demo_sys_def demo_pool_def schedule_eval get_task_def run_task_def get_eval

lemma demo_kernel: "documented_kernel (demo_pool k ms q h xs) (demo_answer (demo_pool k ms q h xs))"
  by (rule demo_documented) (simp add: demo_pool_def)

lemma demo_goto: "pgoto 0 k (demo_pool j ms q h xs) = demo_pool k ms q h xs"
  by (simp add: demo_pool_def pgoto_def)

lemma demo_access:
  assumes "demo_reaches es s (demo_pool k ms q h xs)" and "executes s 0 0 get_task"
    and "k = LockedPop \<or> k = LockedGrow \<or> (\<exists>ys. k = LockedPush ys)"
    and "pool_step Debug fifo 0 (demo_answer (demo_pool k ms q h xs)) (demo_pool k ms q h xs) = PNext p' fs"
    and "GetPanicked 0 \<notin> set fs"
  shows "demo_reaches (es @ fs) s p'"
  using assms(1)
proof (rule demo_pool_moves)
  show "demo_step ((s, z), demo_pool k ms q h xs) fs ((s, z), p')" for z
    using _ _ _ assms(4,5)
    by (rule pool_on_lock.access [where u = 0 and f = get_task])
      (use assms(2,3) demo_kernel in \<open>simp_all add: demo_pool_def\<close>)
qed

lemma demo_lock_turn:
  assumes "demo_reaches es s p" and "perform NoStd m s = Some (ls, s')" and "\<forall>e \<in> set ls. queueing e"
  shows "demo_reaches es s' p"
proof -
  have "demo_step ((s, z), p) [] ((s', z'), p)" if "weak_step NoStd (s, z) ls (s', z')" for z z'
    using that assms(3) by (rule pool_on_lock.lock)
  from demo_lock_moves [OF assms(1,2) this] show ?thesis by simp
qed

lemma demo_begins:
  "demo_reaches [] (demo_sys Idle UNLOCKED (Return (Inl NotSupported))) (demo_pool Outside [] [] None {#})"
proof -
  let ?o = "Return (Inl NotSupported) :: nat get_outcome"
  have "(sys_init (plock_new ?o) :: (_, (error + nat) pres, nat) sys) = demo_sys Idle UNLOCKED ?o"
    by (simp add: demo_sys_def sys_init_def raw_new_def plock_new_def fun_eq_iff)
  moreover have "pool_new fifo demo_config = demo_pool Outside [] [] None {#}"
    by (simp add: demo_pool_def pool_new_def fifo_def fun_eq_iff)
  ultimately show ?thesis
    unfolding demo_reaches_def pool_world_def world_init_def
    by (intro exI [of _ "(hb_init, history_init)"]) (simp add: runs.start)
qed

lemma demo_inside:
  "demo_reaches [] (demo_sys (FastRun get_task) LOCKED (Return (Inl NotSupported)))
     (demo_pool LockedPop [] [] (Some 0) {#})"
proof -
  let ?s = "\<lambda>k n. demo_sys k n (Return (Inl NotSupported))"
  let ?p = "\<lambda>k h. demo_pool k [] [] h {#}"
  have "demo_step ((?s Idle UNLOCKED, z), ?p Outside None) [] ((?s Idle UNLOCKED, z), ?p GetPop None)" for z
    using pool_on_lock.call [of "?p Outside None" 0 "(?s Idle UNLOCKED, z)" NoStd Debug fifo documented_kernel]
    by (simp add: demo_goto) (simp add: demo_sys_def demo_pool_def)
  from demo_pool_moves [OF demo_begins this]
  have 1: "demo_reaches [] (?s Idle UNLOCKED) (?p GetPop None)" by simp
  have "demo_step ((?s Idle UNLOCKED, z), ?p GetPop None) [] ((?s Idle UNLOCKED, z), ?p GetLock None)" for z
    by (rule pool_on_lock.pop [where t = 0 and res = 0]) (simp_all add: demo_lock_eval)
  from demo_pool_moves [OF 1 this]
  have 2: "demo_reaches [] (?s Idle UNLOCKED) (?p GetLock None)" by simp
  have g: "ppcs (?p GetLock h) 0 = GetLock" for h by (simp add: demo_pool_def)
  have "perform NoStd (Enter 0 get_task) (?s Idle UNLOCKED) =
      Some ([Call 0 get_task], ?s (TryRun get_task) UNLOCKED)"
    by (simp add: demo_lock_eval)
  from demo_lock_moves [OF 2 this pool_on_lock.request [OF g]]
  have "demo_reaches [] (?s (TryRun get_task) UNLOCKED) (?p GetLock None)" by simp
  then have "demo_reaches [] (?s (TryAcquire get_task) UNLOCKED) (?p GetLock None)"
    by (rule demo_lock_turn [where m = "Move 0" and ls = "[]"]) (simp_all add: demo_lock_eval raw_defs)
  then have 3: "demo_reaches [] (?s (FastRun get_task) LOCKED) (?p GetLock None)"
    by (rule demo_lock_turn [where m = "Move 0" and ls = "[]"]) (simp_all add: demo_lock_eval raw_defs)
  have "executes (?s (FastRun get_task) LOCKED) 0 0 get_task" by (simp add: executes_def demo_sys_def)
  then have "demo_step ((?s (FastRun get_task) LOCKED, z), ?p GetLock None) []
      ((?s (FastRun get_task) LOCKED, z), pgoto 0 LockedPop ((?p GetLock None)\<lparr>holder := Some 0\<rparr>))" for z
    by (intro pool_on_lock.enter [where u = 0]) (simp_all add: g flagged_def, simp add: demo_sys_def)
  from demo_pool_moves [OF 3 this] show ?thesis by (simp add: demo_pool_def pgoto_def)
qed

lemma demo_ready:
  "demo_reaches [Mapped 0 4096] (demo_sys (FastRun get_task) LOCKED (Return (Inl NotSupported)))
     (demo_pool (Unlocking (Inr 4096)) [4096] [4120] (Some 0) {#})"
proof -
  let ?s = "demo_sys (FastRun get_task) LOCKED (Return (Inl NotSupported))"
  have x: "executes ?s 0 0 get_task" by (simp add: executes_def demo_sys_def)
  have "demo_reaches ([] @ []) ?s (demo_pool LockedGrow [] [] (Some 0) {#})"
    by (rule demo_access [OF demo_inside x]) (simp_all add: demo_lock_eval)
  then have "demo_reaches [] ?s (demo_pool LockedGrow [] [] (Some 0) {#})" by simp
  then have "demo_reaches ([] @ [Mapped 0 4096]) ?s (demo_pool (LockedPush [4096, 4120]) [4096] [] (Some 0) {#})"
    by (rule demo_access [OF _ x]) (simp_all add: demo_lock_eval)
  then have "demo_reaches (([] @ [Mapped 0 4096]) @ []) ?s (demo_pool (LockedPush [4120]) [4096] [4096] (Some 0) {#})"
    by (rule demo_access [OF _ x]) (simp_all add: demo_lock_eval)
  then have "demo_reaches ((([] @ [Mapped 0 4096]) @ []) @ []) ?s (demo_pool (LockedPush []) [4096] [4096, 4120] (Some 0) {#})"
    by (rule demo_access [OF _ x]) (simp_all add: demo_lock_eval)
  then have "demo_reaches (((([] @ [Mapped 0 4096]) @ []) @ []) @ []) ?s (demo_pool LockedPop [4096] [4096, 4120] (Some 0) {#})"
    by (rule demo_access [OF _ x]) (simp_all add: demo_lock_eval)
  then have "demo_reaches ((((([] @ [Mapped 0 4096]) @ []) @ []) @ []) @ []) ?s
      (demo_pool (Unlocking (Inr 4096)) [4096] [4120] (Some 0) {#})"
    by (rule demo_access [OF _ x]) (simp_all add: demo_lock_eval)
  then show ?thesis by simp
qed

lemma demo_finished:
  "demo_reaches [Mapped 0 4096, Got 0 (Inr 4096)]
     (demo_sys (Returning (Ok (RanOk (Inr (Inr 4096))))) UNLOCKED (Return (Inr 4096)))
     (demo_pool Outside [4096] [4120] None {#4096#})"
proof -
  let ?s = "demo_sys (FastRun get_task) LOCKED (Return (Inl NotSupported))"
  let ?r = "Ok (RanOk (Inr (Inr 4096))) :: ((error + nat) pres, nat) ret"
  let ?p = "demo_pool (Unlocking (Inr 4096)) [4096] [4120] (Some 0) {#}"
  have x: "executes (fst (?s, z)) 0 0 get_task" for z :: "hb \<times> history" by (simp add: executes_def demo_sys_def)
  have k: "ppcs ?p 0 = Unlocking (Inr 4096)" by (simp add: demo_pool_def)
  have u: "get_unlock 0 (Inr 4096) ?p =
      PNext (demo_pool Outside [4096] [4120] None {#4096#}) [Got 0 (Inr 4096)]"
    by (simp add: demo_lock_eval)
  have c: "closure_ends (Return (Inr 4096)) (?s, z) =
      (demo_sys (FastRun get_task) LOCKED (Return (Inr 4096)), z)" for z
    by (simp add: closure_ends_def demo_sys_def split: prod.split)
  have "perform NoStd (Move 0) (demo_sys (FastRun get_task) LOCKED (Return (Inr 4096))) =
      Some ([Exec 0], demo_sys (FastUnlock ?r) LOCKED (Return (Inr 4096)))"
    by (simp add: demo_lock_eval)
  from demo_lock_moves [OF demo_ready this pool_on_lock.finish [OF x k _ u, unfolded c]]
  have "demo_reaches [Mapped 0 4096, Got 0 (Inr 4096)] (demo_sys (FastUnlock ?r) LOCKED (Return (Inr 4096)))
      (demo_pool Outside [4096] [4120] None {#4096#})" by simp
  then show ?thesis
    by (rule demo_lock_turn [where m = "Move 0" and ls = "[]"]) (simp_all add: demo_lock_eval raw_defs)
qed

subsection \<open>The pool keeps its contract with the lock\<close>

text \<open>C11. The pool with the lock it really has, for every configuration that
  \<open>Config::new\<close> makes: every run of \<open>Pool::get\<close> on \<open>lamlock\<close>,
  with either feature, any number of threads, any thread executing the closures of others, loads as
  stale as the memory model lets them be, and any kernel, is a run of the pool of
  \<open>Vdso_Pool\<close>, whose lock is one holder and a flag. So everything shown of that pool
  holds of the pool on its lock; a closure begins only when no other is in progress, and the flag is
  never set.\<close>

theorem pool_on_lock_refines:
  assumes "seg_queue Q contents" and "config_made c"
    and "runs (pool_on_lock cfg pf Q answers) (pool_world Q c out) es (x, p)"
  shows "runs (pool_sys pf Q answers) (pool_new Q c) es p \<and> \<not> flagged x \<and>
    (\<forall>t b. inside (ppcs p t) \<and> inside (ppcs p b) \<longrightarrow> t = b)"
proof -
  note together = seg_queue.on_lock_runs [OF assms(1,3) seg_queue.together_init [OF assms(1,2)]]
  then have "seg_queue.pool_inv contents p" "\<not> flagged x"
    by (simp_all add: seg_queue.together_def [OF assms(1)] seg_queue.pool_ok_def [OF assms(1)])
  then show ?thesis
    using together seg_queue.holder_iff [OF assms(1)] by (fastforce simp: pool_world_def)
qed

theorem pool_on_lock_refines_witness:
  "runs (pool_sys Debug fifo documented_kernel) (pool_new fifo demo_config) [Mapped 0 4096, Got 0 (Inr 4096)]
     (demo_pool Outside [4096] [4120] None {#4096#})"
proof -
  obtain x where "runs demo_step (pool_world fifo demo_config (Return (Inl NotSupported)))
      [Mapped 0 4096, Got 0 (Inr 4096)] (x, demo_pool Outside [4096] [4120] None {#4096#})"
    using demo_finished unfolding demo_reaches_def by blast
  from pool_on_lock_refines [OF fifo.seg_queue_axioms demo_config_made this] show ?thesis by blast
qed

text \<open>C15. For every configuration that \<open>Config::new\<close> makes, the answers go back
  to the threads that asked: when a thread's call of \<open>run\<close> inside \<open>get\<close>
  returns, whoever executed its closure, it returns what that closure answered; it does not unwind
  and does not find the lock poisoned.\<close>

theorem pool_on_lock_answers:
  assumes "seg_queue Q contents" and "config_made c"
    and "runs (pool_on_lock cfg pf Q answers) (pool_world Q c out) es (x, p)"
    and "weak_step cfg x [Ret t ret] x'"
  shows "ppcs p t = Outside \<and> (\<exists>r. answer_of t es = Some r \<and> run_answer ret = Some (Inr r))"
  using seg_queue.together_return [OF assms(1) _ assms(4)]
    seg_queue.on_lock_runs [OF assms(1,3) seg_queue.together_init [OF assms(1,2)]] by blast

theorem pool_on_lock_answers_witness:
  "answer_of 0 [Mapped 0 4096, Got 0 (Inr 4096)] = Some (Inr 4096) \<and>
   run_answer (Ok (RanOk (Inr (Inr 4096))) :: ((error + nat) pres, nat) ret) = Some (Inr (Inr 4096))"
proof -
  let ?s = "demo_sys (Returning (Ok (RanOk (Inr (Inr 4096))))) UNLOCKED (Return (Inr 4096))"
  obtain z where z: "runs demo_step (pool_world fifo demo_config (Return (Inl NotSupported)))
      [Mapped 0 4096, Got 0 (Inr 4096)] ((?s, z), demo_pool Outside [4096] [4120] None {#4096#})"
    using demo_finished unfolding demo_reaches_def by blast
  have "perform NoStd (Move 0) ?s = Some ([Ret 0 (Ok (RanOk (Inr (Inr 4096))))], demo_sys Idle UNLOCKED (Return (Inr 4096)))"
    by (simp add: demo_lock_eval)
  from pool_on_lock_answers [OF fifo.seg_queue_axioms demo_config_made z perform_step [OF this]]
  show ?thesis by (auto simp: answer_of_def answer_step_def)
qed

end
