(* ===== verification/Vdso_Local.thy ===== *)
theory Vdso_Local
  imports Vdso_Config
begin

section \<open>Filling a buffer from a rented state (\<open>lib.rs\<close>, \<open>vdso_miri.rs\<close>)\<close>

text \<open>
  The vDSO function is kernel code. It is a parameter: given the length of the buffer, the flags, the
  opaque state and the state length, it returns a C \<open>int\<close>, the bytes it has written at the front
  of the buffer, and the new opaque state. The crate ships one implementation of its own, the mock
  used under miri, which is modelled below and is an instance of the contract.
\<close>

type_synonym byte = nat

type_synonym 'st vdso_func = "nat \<Rightarrow> nat \<Rightarrow> 'st \<Rightarrow> nat \<Rightarrow> int \<times> byte list \<times> 'st"

subsection \<open>\<open>LocalState::try_fill\<close> and \<open>LocalState::fill\<close>\<close>

record 'st local_state =
  state :: 'st
  inflight :: bool

definition local_new :: "'st \<Rightarrow> 'st local_state" where
  "local_new st = \<lparr>state = st, inflight = False\<rparr>"

text \<open>The negation of a C \<open>int\<close>: \<open>-i32::MIN\<close> overflows.\<close>

definition neg_i32 :: "profile \<Rightarrow> int \<Rightarrow> int option" where
  "neg_i32 p x =
     (if x = -(2 ^ 31) then (case p of Debug \<Rightarrow> None | Release \<Rightarrow> Some x) else Some (- x))"

definition write_front :: "byte list \<Rightarrow> byte list \<Rightarrow> byte list" where
  "write_front bs buf = bs @ drop (length bs) buf"

lemma length_write_front: "length bs \<le> length buf \<Longrightarrow> length (write_front bs buf) = length buf"
  by (simp add: write_front_def)

text \<open>\<open>None\<close> is a panic; otherwise the result, the buffer and the state after the call.\<close>

definition try_fill ::
    "profile \<Rightarrow> 'st vdso_func \<Rightarrow> config \<Rightarrow> nat \<Rightarrow> 'st local_state \<Rightarrow> byte list \<Rightarrow>
     ((error + nat) \<times> byte list \<times> 'st local_state) option" where
  "try_fill p func cfg flag l buf =
     (if p = Debug \<and> inflight l then None
      else
        (case func (length buf) flag (state l) (state_size (params cfg)) of
           (result, bs, st) \<Rightarrow>
             (let l' = l\<lparr>state := st\<rparr>; buf' = write_front bs buf in
              if result < 0 then
                do { e \<leftarrow> neg_i32 p result; Some (Inl (Errno e), buf', l') }
              else Some (Inr (nat result), buf', l'))))"

definition EAGAIN :: int where "EAGAIN = 11"
definition EINTR :: int where "EINTR = 4"

datatype 'a run_result = Done 'a | Panicked

text \<open>
  The loop of \<open>fill\<close>: \<open>pre\<close> is the part of the buffer already filled, in front of the slice
  \<open>buf\<close>. It need not return: the outer \<open>None\<close> is a loop that goes on for ever.
\<close>

partial_function (option) fill_loop ::
    "profile \<Rightarrow> 'st vdso_func \<Rightarrow> config \<Rightarrow> nat \<Rightarrow> 'st local_state \<Rightarrow> byte list \<Rightarrow>
     byte list \<Rightarrow> ((error + unit) \<times> byte list \<times> 'st local_state) run_result option" where
  [code]: "fill_loop p func cfg flag l pre buf =
     (if buf = [] then Some (Done (Inr (), pre, l))
      else
        (case try_fill p func cfg flag l buf of
           None \<Rightarrow> Some Panicked
         | Some (Inr filled, buf', l') \<Rightarrow>
             if filled \<le> length buf' then
               fill_loop p func cfg flag l' (pre @ take filled buf') (drop filled buf')
             else Some Panicked
         | Some (Inl e, buf', l') \<Rightarrow>
             if e = Errno EAGAIN \<or> e = Errno EINTR then
               fill_loop p func cfg flag l' pre buf'
             else Some (Done (Inl e, pre @ buf', l'))))"

definition fill ::
    "profile \<Rightarrow> 'st vdso_func \<Rightarrow> config \<Rightarrow> nat \<Rightarrow> 'st local_state \<Rightarrow> byte list \<Rightarrow>
     ((error + unit) \<times> byte list \<times> 'st local_state) run_result option" where
  "fill p func cfg flag l buf = fill_loop p func cfg flag l [] buf"

lemma fill_loop_Nil [simp]: "fill_loop p func cfg flag l pre [] = Some (Done (Inr (), pre, l))"
  by (subst fill_loop.simps) simp

subsection \<open>What the code relies on\<close>

text \<open>
  The documented behaviour of \<open>getrandom\<close>: it never writes past the buffer, a non-negative result
  is the number of bytes written, at most the length asked for, and an error is a small negative
  number. \<open>steady\<close> adds that it makes progress: on a non-empty buffer the number is positive, and
  the retriable errors come at most \<open>patience st\<close> times in a row.
\<close>

locale vgetrandom =
  fixes func :: "'st vdso_func" and len :: nat and good :: "'st \<Rightarrow> bool"
  assumes writes: "good st \<Longrightarrow> func n flag st len = (r, bs, st') \<Longrightarrow> 0 \<le> r \<Longrightarrow>
      length bs = nat r \<and> nat r \<le> n"
    and errors: "good st \<Longrightarrow> func n flag st len = (r, bs, st') \<Longrightarrow> r < 0 \<Longrightarrow>
      length bs \<le> n \<and> - 4095 \<le> r"
    and stays: "good st \<Longrightarrow> func n flag st len = (r, bs, st') \<Longrightarrow> good st'"
begin

lemma try_fill_cases:
  assumes "good (state l)" and "\<not> inflight l" and "state_size (params cfg) = len"
  obtains (filled) bs st where "try_fill p func cfg flag l buf =
      Some (Inr (length bs), write_front bs buf, l\<lparr>state := st\<rparr>)" "length bs \<le> length buf" "good st"
      "func (length buf) flag (state l) len = (int (length bs), bs, st)"
  | (failed) e bs st where "try_fill p func cfg flag l buf =
      Some (Inl (Errno e), write_front bs buf, l\<lparr>state := st\<rparr>)" "length bs \<le> length buf" "good st"
      "0 < e" "func (length buf) flag (state l) len = (- e, bs, st)"
proof -
  obtain r bs st where f: "func (length buf) flag (state l) len = (r, bs, st)"
    by (metis prod_cases3)
  note st = stays [OF assms(1) f]
  show thesis
  proof (cases "r < 0")
    case True
    then have "length bs \<le> length buf" "- 4095 \<le> r" using errors [OF assms(1) f] by auto
    then show thesis
      using True f st assms(2,3)
      by (intro failed [of "- r" bs st]) (simp_all add: try_fill_def neg_i32_def)
  next
    case False
    then have "length bs = nat r" "nat r \<le> length buf" using writes [OF assms(1) f] by auto
    then show thesis
      using False f st assms(2,3) by (intro filled [of bs st]) (simp_all add: try_fill_def)
  qed
qed

text \<open>When \<open>fill\<close> returns, the buffer has kept its length, and it did not panic.\<close>

lemma fill_loop_safe_aux:
  "fill_loop p f cfg flag l pre buf = Some res \<Longrightarrow>
    f = func \<longrightarrow> good (state l) \<longrightarrow> \<not> inflight l \<longrightarrow>
    state_size (params cfg) = len \<longrightarrow>
    (\<exists>out buf' l'. res = Done (out, pre @ buf', l') \<and> length buf' = length buf \<and>
      good (state l') \<and> \<not> inflight l')"
proof (erule fill_loop.raw_induct [where P = "\<lambda>p f cfg flag l pre buf res.
    f = func \<longrightarrow> good (state l) \<longrightarrow> \<not> inflight l \<longrightarrow>
    state_size (params cfg) = len \<longrightarrow>
    (\<exists>out buf' l'. res = Done (out, pre @ buf', l') \<and> length buf' = length buf \<and>
      good (state l') \<and> \<not> inflight l')", rotated], goal_cases)
  case (1 rec p f cfg flag l pre buf res)
  show ?case
  proof (intro impI)
    assume H: "f = func" "good (state l)" "\<not> inflight l" "state_size (params cfg) = len"
    show "\<exists>out buf' l'. res = Done (out, pre @ buf', l') \<and> length buf' = length buf \<and>
      good (state l') \<and> \<not> inflight l'"
    proof (cases "buf = []")
      case True
      with 1(2) H show ?thesis by auto
    next
      case False
      from H(2-4) show ?thesis
      proof (cases rule: try_fill_cases [where p = p and flag = flag and buf = buf])
        case (filled bs st)
        have "rec p func cfg flag (l\<lparr>state := st\<rparr>) (pre @ bs) (drop (length bs) buf) = Some res"
          using 1(2) H False filled by (simp add: write_front_def)
        from 1(1) [OF this] filled H obtain out buf' l' where
          "res = Done (out, (pre @ bs) @ buf', l')" "length buf' = length (drop (length bs) buf)"
          "good (state l')" "\<not> inflight l'" by auto
        then show ?thesis using filled(2) by auto
      next
        case (failed e bs st)
        note len = length_write_front [OF failed(2)]
        show ?thesis
        proof (cases "e = EAGAIN \<or> e = EINTR")
          case True
          have "rec p func cfg flag (l\<lparr>state := st\<rparr>) pre (write_front bs buf) = Some res"
            using 1(2) H False failed True by auto
          from 1(1) [OF this] failed H len show ?thesis by simp
        next
          case ne: False
          then show ?thesis using 1(2) H False failed len by auto
        qed
      qed
    qed
  qed
qed

lemma fill_safe:
  assumes "fill p func cfg flag l buf = Some res"
    and "good (state l)" and "\<not> inflight l" and "state_size (params cfg) = len"
  shows "\<exists>out buf' l'. res = Done (out, buf', l') \<and> length buf' = length buf \<and>
    good (state l') \<and> \<not> inflight l'"
  using fill_loop_safe_aux [OF assms(1) [unfolded fill_def]] assms(2-4) by simp

end

text \<open>A generator that also makes progress, and whose output is one stream read in order.\<close>

locale steady_vgetrandom = vgetrandom func len good
  for func :: "'st vdso_func" and len and good +
  fixes patience :: "'st \<Rightarrow> nat" and stream :: "'st \<Rightarrow> nat \<Rightarrow> byte"
  assumes progress: "good st \<Longrightarrow> func n flag st len = (r, bs, st') \<Longrightarrow> 0 < n \<Longrightarrow> r \<noteq> 0"
    and retry: "good st \<Longrightarrow> func n flag st len = (r, bs, st') \<Longrightarrow> r = - EAGAIN \<or> r = - EINTR \<Longrightarrow>
      patience st' < patience st \<and> stream st' = stream st"
    and streamed: "good st \<Longrightarrow> func n flag st len = (r, bs, st') \<Longrightarrow> 0 \<le> r \<Longrightarrow>
      bs = map (stream st) [0..<length bs] \<and> (\<forall>i. stream st' i = stream st (length bs + i))"
begin

text \<open>An error the generator gave, other than the retriable ones.\<close>

definition reported :: "nat \<Rightarrow> error \<Rightarrow> bool" where
  "reported flag e \<longleftrightarrow> e \<noteq> Errno EAGAIN \<and> e \<noteq> Errno EINTR \<and>
     (\<exists>code n st bs st'. e = Errno code \<and> 0 < code \<and> good st \<and>
        func n flag st len = (- code, bs, st'))"

lemma fill_loop_streams:
  assumes "good (state l)" and "\<not> inflight l" and "state_size (params cfg) = len"
  shows "\<exists>out buf' l'. fill_loop p func cfg flag l pre buf = Some (Done (out, pre @ buf', l')) \<and>
    length buf' = length buf \<and> good (state l') \<and> \<not> inflight l' \<and>
    (case out of
       Inr u \<Rightarrow> buf' = map (stream (state l)) [0..<length buf] \<and>
         (\<forall>i. stream (state l') i = stream (state l) (length buf + i))
     | Inl e \<Rightarrow> reported flag e)"
  using assms
proof (induction "(length buf, patience (state l))" arbitrary: l pre buf
    rule: wf_induct_rule [OF wf_lex_prod [OF wf_less wf_less]])
  case 1
  show ?case
  proof (cases "buf = []")
    case True
    with 1(2,3) show ?thesis by simp
  next
    case False
    from 1(2-4) show ?thesis
    proof (cases rule: try_fill_cases [where p = p and flag = flag and buf = buf])
      case (filled bs st)
      let ?l = "l\<lparr>state := st\<rparr>" and ?buf = "drop (length bs) buf"
      have pos: "bs \<noteq> []" using progress [OF 1(2) filled(4)] False by auto
      have str: "bs = map (stream (state l)) [0..<length bs]"
        "\<And>i. stream st i = stream (state l) (length bs + i)"
        using streamed [OF 1(2) filled(4)] by auto
      have eq: "fill_loop p func cfg flag l pre buf = fill_loop p func cfg flag ?l (pre @ bs) ?buf"
        using False filled by (subst fill_loop.simps) (simp add: write_front_def)
      have "((length ?buf, patience (state ?l)), (length buf, patience (state l))) \<in>
          {(x, y). x < y} <*lex*> {(x, y). x < y}"
        using pos filled(2) False by (cases buf) auto
      from 1(1) [where l = ?l and buf = ?buf and pre = "pre @ bs", OF this] filled(3) 1(3,4) obtain out buf' l' where IH:
        "fill_loop p func cfg flag ?l (pre @ bs) ?buf = Some (Done (out, (pre @ bs) @ buf', l'))"
        "length buf' = length ?buf" "good (state l')" "\<not> inflight l'"
        "case out of Inr u \<Rightarrow> buf' = map (stream (state ?l)) [0..<length ?buf] \<and>
           (\<forall>i. stream (state l') i = stream (state ?l) (length ?buf + i))
         | Inl e \<Rightarrow> reported flag e"
        by auto
      have app: "bs @ map (stream st) [0..<length ?buf] = map (stream (state l)) [0..<length buf]"
      proof (rule nth_equalityI)
        show "length (bs @ map (stream st) [0..<length ?buf]) =
            length (map (stream (state l)) [0..<length buf])" using filled(2) by simp
      next
        fix i
        assume "i < length (bs @ map (stream st) [0..<length ?buf])"
        then have "i < length buf" using filled(2) by simp
        moreover have "i < length bs \<Longrightarrow> bs ! i = stream (state l) i"
          using str(1) by (metis nth_map_upt add_0 diff_zero)
        ultimately show "(bs @ map (stream st) [0..<length ?buf]) ! i =
            map (stream (state l)) [0..<length buf] ! i"
          using str(2) [of "i - length bs"] by (auto simp: nth_append)
      qed
      have "case out of Inr u \<Rightarrow> bs @ buf' = map (stream (state l)) [0..<length buf] \<and>
           (\<forall>i. stream (state l') i = stream (state l) (length buf + i))
         | Inl e \<Rightarrow> reported flag e"
        using IH(5) app str(2) filled(2) by (auto split: sum.splits simp flip: add.assoc)
      with IH(1-4) eq filled(2) show ?thesis by (intro exI [of _ out] exI [of _ "bs @ buf'"] exI) auto
    next
      case (failed e bs st)
      note wl = length_write_front [OF failed(2)]
      let ?l = "l\<lparr>state := st\<rparr>" and ?buf = "write_front bs buf"
      show ?thesis
      proof (cases "e = EAGAIN \<or> e = EINTR")
        case True
        then have rt: "patience st < patience (state l)" "stream st = stream (state l)"
          using retry [OF 1(2) failed(5)] by auto
        have eq: "fill_loop p func cfg flag l pre buf = fill_loop p func cfg flag ?l pre ?buf"
          using False failed True by (subst fill_loop.simps) auto
        have "((length ?buf, patience (state ?l)), (length buf, patience (state l))) \<in>
            {(x, y). x < y} <*lex*> {(x, y). x < y}"
          using rt(1) wl by simp
        from 1(1) [where l = ?l and buf = ?buf and pre = pre, OF this] failed(3) 1(3,4) show ?thesis
          unfolding eq by (simp add: wl rt(2) cong: sum.case_cong)
      next
        case ne: False
        have "fill_loop p func cfg flag l pre buf = Some (Done (Inl (Errno e), pre @ ?buf, ?l))"
          using False failed ne by (subst fill_loop.simps) auto
        moreover have "reported flag (Errno e)"
          using ne failed(4,5) 1(2) unfolding reported_def by blast
        ultimately show ?thesis using failed(3) 1(3) wl by auto
      qed
    qed
  qed
qed

end

subsection \<open>The crate's own generator\<close>

text \<open>\<open>written as c_int\<close> keeps the low 32 bits, read as a signed number.\<close>

definition as_i32 :: "nat \<Rightarrow> int" where
  "as_i32 n = (int n + 2 ^ 31) mod 2 ^ 32 - 2 ^ 31"

definition USIZE_MAX :: nat where "USIZE_MAX = 2 ^ 64 - 1"

definition mock_params :: opaque_params where
  "mock_params =
     \<lparr>size_of_opaque_states = 8, mmap_prot = 0, mmap_flags = 0, reserved = replicate 13 0\<rparr>"

definition MOCK_PAGE_SIZE :: nat where "MOCK_PAGE_SIZE = 8 * 8"

fun mock_loop :: "nat \<Rightarrow> nat \<Rightarrow> byte list \<times> nat" where
  "mock_loop 0 udata = ([], udata)"
| "mock_loop (Suc n) udata =
     (let current = udata; udata = (current + 1) mod 2 ^ 64; b = current mod 256 in
      if current mod 37 = 0 then ([b], udata)
      else (case mock_loop n udata of (bs, udata) \<Rightarrow> (b # bs, udata)))"

text \<open>\<open>None\<close> is the failing \<open>debug_assert!\<close>.\<close>

definition mocked_vgetrandom ::
    "profile \<Rightarrow> nat \<Rightarrow> nat \<Rightarrow> nat \<Rightarrow> nat \<Rightarrow> (int \<times> byte list \<times> nat) option" where
  "mocked_vgetrandom p buf_len flags udata udata_len =
     (if udata_len = USIZE_MAX then Some (0, [], udata)
      else if p = Debug \<and> udata_len \<noteq> 8 then None
      else (case mock_loop buf_len udata of (bs, udata) \<Rightarrow> Some (as_i32 (length bs), bs, udata)))"

definition mock_func :: "nat vdso_func" where
  "mock_func n flags st len =
     (case mocked_vgetrandom Debug n flags st len of Some res \<Rightarrow> res | None \<Rightarrow> (- 22, [], st))"

lemma mock_loop_spec:
  assumes "mock_loop n u = (bs, u')" and "u < 2 ^ 64"
  shows "length bs \<le> n \<and> u' < 2 ^ 64 \<and> (0 < n \<longrightarrow> bs \<noteq> []) \<and>
    bs = map (\<lambda>i. (u + i) mod 256) [0..<length bs] \<and> u' = (u + length bs) mod 2 ^ 64 \<and>
    length bs \<le> (if u mod 37 = 0 then 1 else 38 - u mod 37)"
  using assms
proof (induction n arbitrary: u bs)
  case 0
  then show ?case by simp
next
  case (Suc n)
  show ?case
  proof (cases "u mod 37 = 0")
    case True
    with Suc.prems show ?thesis by (auto simp: Let_def)
  next
    case False
    let ?v = "(u + 1) mod 2 ^ 64"
    obtain cs where cs: "mock_loop n ?v = (cs, u')" "bs = u mod 256 # cs"
      using Suc.prems False by (auto simp: Let_def split: prod.splits)
    have v: "?v < 2 ^ 64" by simp
    note IH = Suc.IH [OF cs(1) v]
    have m: "(?v + i) mod 256 = (u + 1 + i) mod 256" for i
    proof -
      have "?v mod 256 = (u + 1) mod 256" by (rule mod_mod_cancel) simp
      then show ?thesis by (metis mod_add_left_eq)
    qed
    have lc: "length cs \<le> (if ?v mod 37 = 0 then 1 else 38 - ?v mod 37)" using IH by blast
    have b: "length cs + 1 \<le> 38 - u mod 37"
    proof (cases "u + 1 < 2 ^ 64")
      case True
      then have v: "?v mod 37 = (if u mod 37 = 36 then 0 else u mod 37 + 1)"
        by (simp add: mod_Suc)
      have "u mod 37 \<le> 36" by (simp add: less_Suc_eq_le [symmetric])
      then show ?thesis using lc unfolding v by (cases "u mod 37 = 36") auto
    next
      case out: False
      then have "u + 1 = 2 ^ 64" using Suc.prems(2) by linarith
      then have "?v = 0" by simp
      moreover have "u mod 37 \<le> 36" by (simp add: less_Suc_eq_le [symmetric])
      ultimately show ?thesis using lc by simp
    qed
    have "map (\<lambda>i. (u + i) mod 256) [0..<Suc (length cs)] = u mod 256 # map (\<lambda>i. (?v + i) mod 256) [0..<length cs]"
      unfolding m map_upt_Suc by simp
    then show ?thesis using IH cs(2) b False by (simp add: mod_simps)
  qed
qed

lemma as_i32_small: "n < 2 ^ 31 \<Longrightarrow> as_i32 n = int n"
  by (simp add: as_i32_def)

lemma mock_func_eq:
  assumes "mock_func n flag st 8 = (r, bs, st')"
  shows "mock_loop n st = (bs, st') \<and> r = as_i32 (length bs)"
  using assms by (simp add: mock_func_def mocked_vgetrandom_def USIZE_MAX_def split: prod.splits)

lemma mock_func_spec:
  assumes "mock_func n flag st 8 = (r, bs, st')" and "st < 2 ^ 64"
  shows "r = int (length bs)" and "length bs \<le> n" and "st' < 2 ^ 64" and "0 < n \<Longrightarrow> bs \<noteq> []"
    and "bs = map (\<lambda>i. (st + i) mod 256) [0..<length bs]"
    and "(st' + i) mod 256 = (st + (length bs + i)) mod 256"
proof -
  have m: "mock_loop n st = (bs, st')" "r = as_i32 (length bs)"
    using mock_func_eq [OF assms(1)] by auto
  note S = mock_loop_spec [OF m(1) assms(2)]
  then have "length bs \<le> (if st mod 37 = 0 then 1 else 38 - st mod 37)" by blast
  then have "length bs \<le> 38" by (cases "st mod 37 = 0") simp_all
  then have "length bs < 2 ^ 31" by simp
  then show "r = int (length bs)" using m(2) by (simp add: as_i32_small)
  show "length bs \<le> n" "st' < 2 ^ 64" "0 < n \<Longrightarrow> bs \<noteq> []"
    "bs = map (\<lambda>i. (st + i) mod 256) [0..<length bs]" using S by auto
  have "st' mod 256 = (st + length bs) mod 256"
    using S by (auto intro: mod_mod_cancel)
  then show "(st' + i) mod 256 = (st + (length bs + i)) mod 256"
    by (metis mod_add_left_eq add.assoc)
qed

interpretation mock: steady_vgetrandom mock_func 8 "\<lambda>st. st < 2 ^ 64" "\<lambda>_. 0"
  "\<lambda>st i. (st + i) mod 256"
proof (unfold_locales, goal_cases)
  case (1 st n flag r bs st')
  then show ?case using mock_func_spec(1,2) [OF 1(2,1)] by simp
next
  case (2 st n flag r bs st')
  then show ?case using mock_func_spec(1) [OF 2(2,1)] by simp
next
  case (3 st n flag r bs st')
  then show ?case using mock_func_spec(3) [OF 3(2,1)] by simp
next
  case (4 st n flag r bs st')
  then show ?case using mock_func_spec(1,4) [OF 4(2,1)] by simp
next
  case (5 st n flag r bs st')
  then show ?case using mock_func_spec(1) [OF 5(2,1)] by (simp add: EAGAIN_def EINTR_def)
next
  case (6 st n flag r bs st')
  then show ?case using mock_func_spec(5,6) [OF 6(2,1)] by blast
qed

end
