(* ===== verification/Vdso_Elf.thy ===== *)
theory Vdso_Elf
  imports Vdso_Config
begin

section \<open>Finding the vDSO function (\<open>vdso.rs\<close>)\<close>

text \<open>
  The image of the vDSO is memory that the kernel maps: a parameter, read through one view per
  \<open>linux_raw_sys\<close> struct (the contents at an address, and the size of the struct). Pointers are
  64-bit words and pointer arithmetic wraps; the additions on \<open>usize\<close> and the subtraction on
  \<open>isize\<close> are checked in the debug profile. Of every result, the outer \<open>None\<close> is a call that
  does not return (a panic, or a chain of records that never ends), the inner \<open>None\<close> is the
  \<open>None\<close> of the code. The constants are those of the ELF specification.
\<close>

unbundle bit_operations_syntax

type_synonym addr = "64 word"

subsection \<open>The structs of \<open>linux_raw_sys\<close>\<close>

record elf_ehdr =
  e_phoff :: addr
  e_phnum :: nat
  e_shoff :: addr
  e_shnum :: nat

record elf_phdr =
  p_type :: "32 word"
  p_flags :: "32 word"
  p_offset :: addr
  p_vaddr :: addr

record elf_shdr =
  sh_type :: "32 word"
  sh_size :: nat
  sh_entsize :: nat

record elf_dyn =
  d_tag :: "64 word"
  d_val :: addr

record elf_sym =
  st_name :: "32 word"
  st_value :: addr

record elf_verdef =
  vd_flags :: "16 word"
  vd_ndx :: "16 word"
  vd_aux :: "32 word"
  vd_next :: "32 word"

record elf_verdaux =
  vda_name :: "32 word"

record 'a view =
  read_at :: "addr \<Rightarrow> 'a"
  stride :: addr

record image =
  ehdrs :: "elf_ehdr view"
  phdrs :: "elf_phdr view"
  shdrs :: "elf_shdr view"
  dyns :: "elf_dyn view"
  syms :: "elf_sym view"
  halves :: "16 word view"
  verdefs :: "elf_verdef view"
  verdauxs :: "elf_verdaux view"
  cstr_at :: "addr \<Rightarrow> string"

definition from_raw_parts :: "'a view \<Rightarrow> addr \<Rightarrow> nat \<Rightarrow> 'a list" where
  "from_raw_parts v ptr n = map (\<lambda>i. read_at v (ptr + of_nat i * stride v)) [0..<n]"

lemma length_from_raw_parts [simp]: "length (from_raw_parts v ptr n) = n"
  by (simp add: from_raw_parts_def)

definition PT_LOAD :: "32 word" where "PT_LOAD = 1"
definition PT_DYNAMIC :: "32 word" where "PT_DYNAMIC = 2"
definition PF_X :: "32 word" where "PF_X = 1"
definition SHT_DYNSYM :: "32 word" where "SHT_DYNSYM = 11"
definition DT_NULL :: "64 word" where "DT_NULL = 0"
definition DT_STRTAB :: "32 word" where "DT_STRTAB = 5"
definition DT_SYMTAB :: "32 word" where "DT_SYMTAB = 6"
definition DT_VERSYM :: "32 word" where "DT_VERSYM = 0x6ffffff0"
definition DT_VERDEF :: "32 word" where "DT_VERDEF = 0x6ffffffc"
definition VER_FLG_BASE :: "16 word" where "VER_FLG_BASE = 1"
definition AT_SYSINFO_EHDR :: nat where "AT_SYSINFO_EHDR = 33"
definition AT_PAGESZ :: nat where "AT_PAGESZ = 6"

subsection \<open>Arithmetic on addresses\<close>

definition addr_add :: "profile \<Rightarrow> addr \<Rightarrow> addr \<Rightarrow> addr option" where
  "addr_add p a b = (if p = Debug \<and> 2 ^ 64 \<le> unat a + unat b then None else Some (a + b))"

definition isize_sub :: "profile \<Rightarrow> addr \<Rightarrow> addr \<Rightarrow> addr option" where
  "isize_sub p a b =
     (let d = sint a - sint b in
      if p = Debug \<and> (d < - (2 ^ 63) \<or> 2 ^ 63 \<le> d) then None else Some (a - b))"

definition nonnull :: "addr \<Rightarrow> addr option" where
  "nonnull a = (if a = 0 then None else Some a)"

subsection \<open>Version definitions\<close>

definition verdef_aux :: "image \<Rightarrow> addr \<Rightarrow> elf_verdaux option" where
  "verdef_aux img ref =
     (let vd = read_at (verdefs img) ref in
      if vd_aux vd = 0 then None else Some (read_at (verdauxs img) (ref + ucast (vd_aux vd))))"

text \<open>The item and the iterator after it.\<close>

definition verdef_next :: "image \<Rightarrow> addr option \<Rightarrow> addr option \<times> addr option" where
  "verdef_next img it =
     (case it of
        None \<Rightarrow> (None, None)
      | Some current \<Rightarrow>
          let offset = vd_next (read_at (verdefs img) current) in
          (Some current, if offset = 0 then None else Some (current + ucast offset)))"

subsection \<open>The dynamic section\<close>

definition dyn_next :: "image \<Rightarrow> addr option \<Rightarrow> elf_dyn option \<times> addr option" where
  "dyn_next img it =
     (case it of
        None \<Rightarrow> (None, None)
      | Some current \<Rightarrow>
          if d_tag (read_at (dyns img) current) = DT_NULL then (None, it)
          else (Some (read_at (dyns img) current), Some (current + stride (dyns img))))"

subsection \<open>Program headers\<close>

record phdr_info =
  info_addr :: addr
  info_dyn :: addr

fun phdr_loop ::
    "profile \<Rightarrow> addr \<Rightarrow> addr option \<times> addr option \<Rightarrow> elf_phdr list \<Rightarrow>
     (addr option \<times> addr option) option" where
  "phdr_loop p ehdr (vdso_addr, vdso_dyn) [] = Some (vdso_addr, vdso_dyn)"
| "phdr_loop p ehdr (vdso_addr, vdso_dyn) (ph # phs) =
     (if p_type ph = PT_DYNAMIC then
        phdr_loop p ehdr (vdso_addr, Some (ehdr + p_offset ph)) phs
      else if p_type ph = PT_LOAD \<and> p_flags ph AND PF_X \<noteq> 0 then
        do { off \<leftarrow> isize_sub p (p_offset ph) (p_vaddr ph);
             phdr_loop p ehdr (Some (ehdr + off), vdso_dyn) phs }
      else phdr_loop p ehdr (vdso_addr, vdso_dyn) phs)"

definition phdr_info_load :: "profile \<Rightarrow> image \<Rightarrow> addr \<Rightarrow> phdr_info option option" where
  "phdr_info_load p img ehdr =
     (let hdr = read_at (ehdrs img) ehdr;
          phdr_array = from_raw_parts (phdrs img) (ehdr + e_phoff hdr) (e_phnum hdr) in
      do { (vdso_addr, vdso_dyn) \<leftarrow> phdr_loop p ehdr (None, None) phdr_array;
           Some (do { a \<leftarrow> vdso_addr; d \<leftarrow> vdso_dyn;
                      Some \<lparr>info_addr = a, info_dyn = d\<rparr> }) })"

subsection \<open>Section headers\<close>

definition shdr_array_load :: "image \<Rightarrow> addr \<Rightarrow> elf_shdr list" where
  "shdr_array_load img ehdr =
     (let hdr = read_at (ehdrs img) ehdr in
      from_raw_parts (shdrs img) (ehdr + e_shoff hdr) (e_shnum hdr))"

text \<open>An entry size of zero is a division by zero.\<close>

fun symbol_count :: "elf_shdr list \<Rightarrow> nat option" where
  "symbol_count [] = Some 0"
| "symbol_count (shdr # rest) =
     (if sh_type shdr = SHT_DYNSYM then uint_div (sh_size shdr) (sh_entsize shdr)
      else symbol_count rest)"

subsection \<open>The symbol table\<close>

record symbol_table =
  strtab :: addr
  symtab :: "elf_sym list"
  versym :: "16 word list"
  verdef :: addr
  vdso_addr :: addr

record table_addrs =
  strtab_at :: "addr option"
  symtab_at :: "addr option"
  versym_at :: "addr option"
  verdef_at :: "addr option"

text \<open>One round of the loop of \<open>SymbolTable::load\<close>; the tag is cut to 32 bits.\<close>

definition load_entry ::
    "profile \<Rightarrow> addr \<Rightarrow> elf_dyn \<Rightarrow> table_addrs \<Rightarrow> table_addrs option option" where
  "load_entry p base dy acc =
     (let tag = (ucast (d_tag dy) :: 32 word);
          place = (\<lambda>set. do { a \<leftarrow> addr_add p base (d_val dy); Some (map_option set (nonnull a)) }) in
      if tag = DT_STRTAB then place (\<lambda>a. acc\<lparr>strtab_at := Some a\<rparr>)
      else if tag = DT_SYMTAB then place (\<lambda>a. acc\<lparr>symtab_at := Some a\<rparr>)
      else if tag = DT_VERSYM then place (\<lambda>a. acc\<lparr>versym_at := Some a\<rparr>)
      else if tag = DT_VERDEF then place (\<lambda>a. acc\<lparr>verdef_at := Some a\<rparr>)
      else Some (Some acc))"

partial_function (option) load_loop ::
    "profile \<Rightarrow> image \<Rightarrow> addr \<Rightarrow> addr option \<Rightarrow> table_addrs \<Rightarrow> table_addrs option option" where
  [code]: "load_loop p img base it acc =
     (case dyn_next img it of
        (None, it') \<Rightarrow> Some (Some acc)
      | (Some dy, it') \<Rightarrow>
          do { r \<leftarrow> load_entry p base dy acc;
               (case r of None \<Rightarrow> Some None | Some acc' \<Rightarrow> load_loop p img base it' acc') })"

definition symbol_table_load ::
    "profile \<Rightarrow> image \<Rightarrow> phdr_info \<Rightarrow> nat \<Rightarrow> symbol_table option option" where
  "symbol_table_load p img info count =
     do { r \<leftarrow> load_loop p img (info_addr info) (Some (info_dyn info))
            \<lparr>strtab_at = None, symtab_at = None, versym_at = None, verdef_at = None\<rparr>;
          Some (do { acc \<leftarrow> r;
                     str \<leftarrow> strtab_at acc;
                     tab \<leftarrow> symtab_at acc;
                     ver \<leftarrow> versym_at acc;
                     def \<leftarrow> verdef_at acc;
                     Some \<lparr>strtab = str, symtab = from_raw_parts (syms img) tab count,
                       versym = from_raw_parts (halves img) ver count, verdef = def,
                       vdso_addr = info_addr info\<rparr> }) }"

datatype arch = Aarch64 | X86_64 | Other_Arch

definition get_name_and_version :: "arch \<Rightarrow> (string \<times> string) option" where
  "get_name_and_version a =
     (if a = Aarch64 then Some (''__kernel_getrandom'', ''LINUX_2.6.39'')
      else if a = X86_64 then Some (''__vdso_getrandom'', ''LINUX_2.6'')
      else None)"

partial_function (option) find_version_loop ::
    "image \<Rightarrow> addr \<Rightarrow> 16 word \<Rightarrow> addr option \<Rightarrow> string option option" where
  [code]: "find_version_loop img str identifier it =
     (case verdef_next img it of
        (None, it') \<Rightarrow> Some None
      | (Some ref, it') \<Rightarrow>
          let vd = read_at (verdefs img) ref in
          if vd_flags vd AND VER_FLG_BASE \<noteq> 0 then find_version_loop img str identifier it'
          else if vd_ndx vd AND 0x7FFF = identifier then
            Some (map_option (\<lambda>aux. cstr_at img (str + ucast (vda_name aux))) (verdef_aux img ref))
          else find_version_loop img str identifier it')"

definition find_version :: "image \<Rightarrow> symbol_table \<Rightarrow> nat \<Rightarrow> string option option" where
  "find_version img t i =
     (if i < length (versym t) then
        find_version_loop img (strtab t) (versym t ! i AND 0x7FFF) (Some (verdef t))
      else Some None)"

fun find_symbol_loop ::
    "image \<Rightarrow> symbol_table \<Rightarrow> string \<Rightarrow> string \<Rightarrow> nat \<Rightarrow> elf_sym list \<Rightarrow> addr option option" where
  "find_symbol_loop img t target_name target_version i [] = Some None"
| "find_symbol_loop img t target_name target_version i (symbol # rest) =
     (if cstr_at img (strtab t + ucast (st_name symbol)) = target_name then
        do { v \<leftarrow> find_version img t i;
             (case v of
                None \<Rightarrow> Some None
              | Some version \<Rightarrow>
                  if version = target_version then Some (Some (vdso_addr t + st_value symbol))
                  else find_symbol_loop img t target_name target_version (i + 1) rest) }
      else find_symbol_loop img t target_name target_version (i + 1) rest)"

definition find_symbol :: "arch \<Rightarrow> image \<Rightarrow> symbol_table \<Rightarrow> addr option option" where
  "find_symbol a img t =
     (case get_name_and_version a of
        None \<Rightarrow> Some None
      | Some (target_name, target_version) \<Rightarrow>
          find_symbol_loop img t target_name target_version 0 (symtab t))"

subsection \<open>The entry point\<close>

text \<open>The function of one image: the body of the branch for \<open>AT_SYSINFO_EHDR\<close>.\<close>

definition image_function ::
    "profile \<Rightarrow> arch \<Rightarrow> image \<Rightarrow> addr \<Rightarrow> addr option option option" where
  "image_function p a img ptr =
     (case nonnull ptr of
        None \<Rightarrow> Some None
      | Some ehdr \<Rightarrow>
          do { count \<leftarrow> symbol_count (shdr_array_load img ehdr);
               info \<leftarrow> phdr_info_load p img ehdr;
               (case info of
                  None \<Rightarrow> Some None
                | Some phdr_info \<Rightarrow>
                    do { table \<leftarrow> symbol_table_load p img phdr_info count;
                         (case table of
                            None \<Rightarrow> Some None
                          | Some t \<Rightarrow> do { f \<leftarrow> find_symbol a img t; Some (Some f) }) }) })"

fun entry_loop ::
    "profile \<Rightarrow> arch \<Rightarrow> image \<Rightarrow> addr option \<Rightarrow> nat option \<Rightarrow> auxv_entry list \<Rightarrow>
     (addr \<times> nat) option option" where
  "entry_loop p a img func page [] = Some (do { f \<leftarrow> func; n \<leftarrow> page; Some (f, n) })"
| "entry_loop p a img func page (e # es) =
     (let page' = (if key e = AT_PAGESZ then Some (value e) else page) in
      if key e = AT_SYSINFO_EHDR then
        do { r \<leftarrow> image_function p a img (of_nat (value e));
             (case r of
                None \<Rightarrow> Some None
              | Some f \<Rightarrow> entry_loop p a img f page' es) }
      else entry_loop p a img func page' es)"

definition get_function_and_page_size ::
    "profile \<Rightarrow> arch \<Rightarrow> image \<Rightarrow> auxv_entry list option \<Rightarrow> (addr \<times> nat) option option" where
  "get_function_and_page_size p a img written =
     (case auxv_new written of
        None \<Rightarrow> Some None
      | Some entries \<Rightarrow>
          entry_loop p a img None None (auxv_collect \<lparr>auxv = entries, index = 0\<rparr>))"

end
