(* ===== verification/Iterators.thy ===== *)
theory Iterators
  imports Main
begin

section \<open>Rust iterators and the lists they yield\<close>

text \<open>
  A Rust iterator is a function from its state to the next item and the state after it.
  \<open>yields next it xs\<close>: the loop \<open>for x in it\<close> sees the items \<open>xs\<close> and ends.
\<close>

primrec yields :: "('i \<Rightarrow> 'x option \<times> 'i) \<Rightarrow> 'i \<Rightarrow> 'x list \<Rightarrow> bool" where
  "yields next it [] \<longleftrightarrow> fst (next it) = None"
| "yields next it (x # xs) \<longleftrightarrow> fst (next it) = Some x \<and> yields next (snd (next it)) xs"

lemma yields_Nil: "yields next it [] \<Longrightarrow> \<exists>it'. next it = (None, it')"
  by (cases "next it") simp

lemma yields_Cons: "yields next it (x # xs) \<Longrightarrow> \<exists>it'. next it = (Some x, it') \<and> yields next it' xs"
  by (cases "next it") simp

lemma yields_unique: "yields next it xs \<Longrightarrow> yields next it ys \<Longrightarrow> xs = ys"
proof (induction xs arbitrary: it ys)
  case Nil
  then show ?case by (cases ys) auto
next
  case (Cons x xs)
  then show ?case by (cases ys) auto
qed

subsection \<open>The last element with a property\<close>

text \<open>The last element with a property.\<close>

definition find_last :: "('a \<Rightarrow> bool) \<Rightarrow> 'a list \<Rightarrow> 'a option" where
  "find_last P xs = find P (rev xs)"

lemma find_append: "find P (xs @ ys) = (case find P xs of None \<Rightarrow> find P ys | Some x \<Rightarrow> Some x)"
  by (induction xs) auto

lemma find_last_simps [simp]:
  "find_last P [] = None"
  "find_last P (x # xs) =
     (case find_last P xs of None \<Rightarrow> if P x then Some x else None | Some y \<Rightarrow> Some y)"
  by (simp_all add: find_last_def find_append cong: option.case_cong)

lemma find_last_in: "find_last P xs = Some x \<Longrightarrow> x \<in> set xs \<and> P x"
  by (induction xs) (auto split: option.splits if_splits)

end
