(* ===== verification/Vdso_Elf_Correct.thy ===== *)
theory Vdso_Elf_Correct
  imports Vdso_Elf Iterators
begin

section \<open>What the symbol lookup of the vDSO finds\<close>

text \<open>
  The loops over the image against list functions on the records they pass. Every statement is
  about an image whose chains of records end, with \<open>yields\<close> naming the records; \<open>describes\<close> says
  what a well-formed image is by the contents of its tables, without the functions of the code.
\<close>

lemma auxv_collect_yields: "yields auxv_next it (auxv_collect it)"
proof (induction it rule: auxv_collect.induct)
  case (1 it)
  then show ?case
    by (subst auxv_collect.simps) (auto split: prod.splits option.splits)
qed

subsection \<open>Versions\<close>

definition version_matches :: "image \<Rightarrow> 16 word \<Rightarrow> addr \<Rightarrow> bool" where
  "version_matches img identifier ref \<longleftrightarrow>
     vd_flags (read_at (verdefs img) ref) AND VER_FLG_BASE = 0 \<and>
     vd_ndx (read_at (verdefs img) ref) AND 0x7FFF = identifier"

definition version_name :: "image \<Rightarrow> addr \<Rightarrow> 16 word \<Rightarrow> addr list \<Rightarrow> string option" where
  "version_name img str identifier refs =
     (case find (version_matches img identifier) refs of
        None \<Rightarrow> None
      | Some ref \<Rightarrow>
          let offset = vd_aux (read_at (verdefs img) ref) in
          if offset = 0 then None
          else Some (cstr_at img (str + ucast (vda_name (read_at (verdauxs img) (ref + ucast offset))))))"

lemma find_version_loop_eq:
  "yields (verdef_next img) it refs \<Longrightarrow>
     find_version_loop img str identifier it = Some (version_name img str identifier refs)"
proof (induction refs arbitrary: it)
  case Nil
  from yields_Nil [OF Nil.prems] obtain it' where "verdef_next img it = (None, it')" by blast
  then show ?case by (subst find_version_loop.simps) (simp add: version_name_def)
next
  case (Cons ref refs)
  from yields_Cons [OF Cons.prems] obtain it' where
    n: "verdef_next img it = (Some ref, it')" and y: "yields (verdef_next img) it' refs" by blast
  from Cons.IH [OF y] show ?case
    by (subst find_version_loop.simps)
      (simp add: n version_name_def version_matches_def verdef_aux_def Let_def)
qed

definition symbol_version :: "image \<Rightarrow> symbol_table \<Rightarrow> addr list \<Rightarrow> nat \<Rightarrow> string option" where
  "symbol_version img t refs i =
     (if i < length (versym t) then version_name img (strtab t) (versym t ! i AND 0x7FFF) refs
      else None)"

lemma find_version_eq:
  "yields (verdef_next img) (Some (verdef t)) refs \<Longrightarrow>
     find_version img t i = Some (symbol_version img t refs i)"
  by (simp add: find_version_def symbol_version_def find_version_loop_eq)

subsection \<open>Symbols\<close>

definition symbol_name :: "image \<Rightarrow> symbol_table \<Rightarrow> nat \<Rightarrow> string" where
  "symbol_name img t i = cstr_at img (strtab t + ucast (st_name (symtab t ! i)))"

text \<open>The search stops at the first symbol of the name that has the version, or has none.\<close>

definition stops :: "image \<Rightarrow> symbol_table \<Rightarrow> addr list \<Rightarrow> string \<Rightarrow> string \<Rightarrow> nat \<Rightarrow> bool" where
  "stops img t refs name version i \<longleftrightarrow> symbol_name img t i = name \<and>
     (symbol_version img t refs i = None \<or> symbol_version img t refs i = Some version)"

definition symbol_hit ::
    "image \<Rightarrow> symbol_table \<Rightarrow> addr list \<Rightarrow> string \<Rightarrow> string \<Rightarrow> nat list \<Rightarrow> addr option" where
  "symbol_hit img t refs name version is =
     (case find (stops img t refs name version) is of
        None \<Rightarrow> None
      | Some i \<Rightarrow> if symbol_version img t refs i = Some version
          then Some (vdso_addr t + st_value (symtab t ! i)) else None)"

lemma find_symbol_loop_eq:
  assumes y: "yields (verdef_next img) (Some (verdef t)) refs"
  shows "i \<le> length (symtab t) \<Longrightarrow>
    find_symbol_loop img t name version i (drop i (symtab t)) =
      Some (symbol_hit img t refs name version [i..<length (symtab t)])"
proof (induction "length (symtab t) - i" arbitrary: i)
  case 0
  then show ?case by (simp add: symbol_hit_def)
next
  case (Suc k)
  then have i: "i < length (symtab t)" by simp
  have e: "drop i (symtab t) = symtab t ! i # drop (i + 1) (symtab t)"
    "[i..<length (symtab t)] = i # [i + 1..<length (symtab t)]"
    using i by (simp_all add: Cons_nth_drop_Suc upt_conv_Cons)
  have IH: "find_symbol_loop img t name version (i + 1) (drop (i + 1) (symtab t)) =
      Some (symbol_hit img t refs name version [i + 1..<length (symtab t)])"
    using Suc.hyps(1) [of "i + 1"] Suc.hyps(2) i by simp
  show ?case
    unfolding e using IH find_version_eq [OF y, of i]
    by (cases "symbol_version img t refs i")
      (auto simp: symbol_hit_def stops_def symbol_name_def)
qed

lemma find_symbol_eq:
  assumes "yields (verdef_next img) (Some (verdef t)) refs"
  shows "find_symbol a img t = Some (case get_name_and_version a of None \<Rightarrow> None
    | Some (name, version) \<Rightarrow> symbol_hit img t refs name version [0..<length (symtab t)])"
  using find_symbol_loop_eq [OF assms, of 0]
  by (auto simp: find_symbol_def split: option.split)

lemma symbol_hit_iff:
  "symbol_hit img t refs name version [0..<n] = Some f \<longleftrightarrow>
     (\<exists>i < n. symbol_name img t i = name \<and> symbol_version img t refs i = Some version \<and>
        f = vdso_addr t + st_value (symtab t ! i) \<and>
        (\<forall>j < i. symbol_name img t j = name \<longrightarrow>
           (\<exists>v. symbol_version img t refs j = Some v \<and> v \<noteq> version)))"
proof -
  have upt: "find P [0..<n] = Some i \<longleftrightarrow> i < n \<and> P i \<and> (\<forall>j < i. \<not> P j)" for P i
    by (auto simp: find_Some_iff)
  have "symbol_hit img t refs name version [0..<n] = Some f \<longleftrightarrow>
      (\<exists>i. find (stops img t refs name version) [0..<n] = Some i \<and>
        symbol_version img t refs i = Some version \<and> f = vdso_addr t + st_value (symtab t ! i))"
    by (auto simp: symbol_hit_def split: option.splits)
  also have "\<dots> \<longleftrightarrow> (\<exists>i < n. stops img t refs name version i \<and>
      (\<forall>j < i. \<not> stops img t refs name version j) \<and>
      symbol_version img t refs i = Some version \<and> f = vdso_addr t + st_value (symtab t ! i))"
    by (simp only: upt) blast
  moreover have "\<not> stops img t refs name version j \<longleftrightarrow> (symbol_name img t j = name \<longrightarrow>
      (\<exists>v. symbol_version img t refs j = Some v \<and> v \<noteq> version))" for j
    by (cases "symbol_version img t refs j") (auto simp: stops_def)
  moreover have "symbol_version img t refs i = Some version \<Longrightarrow>
      stops img t refs name version i \<longleftrightarrow> symbol_name img t i = name" for i
    by (simp add: stops_def)
  ultimately show ?thesis by (simp only:) blast
qed

subsection \<open>The dynamic section\<close>

fun load_entries ::
    "profile \<Rightarrow> addr \<Rightarrow> elf_dyn list \<Rightarrow> table_addrs \<Rightarrow> table_addrs option option" where
  "load_entries p base [] acc = Some (Some acc)"
| "load_entries p base (d # ds) acc =
     do { r \<leftarrow> load_entry p base d acc;
          (case r of None \<Rightarrow> Some None | Some acc' \<Rightarrow> load_entries p base ds acc') }"

lemma load_loop_eq:
  "yields (dyn_next img) it ds \<Longrightarrow> load_loop p img base it acc = load_entries p base ds acc"
proof (induction ds arbitrary: it acc)
  case Nil
  from yields_Nil [OF Nil.prems] obtain it' where "dyn_next img it = (None, it')" by blast
  then show ?case by (subst load_loop.simps) simp
next
  case (Cons d ds)
  from yields_Cons [OF Cons.prems] obtain it' where
    n: "dyn_next img it = (Some d, it')" and y: "yields (dyn_next img) it' ds" by blast
  have "load_loop p img base it' = load_entries p base ds"
    using Cons.IH [OF y] by (simp add: fun_eq_iff)
  then show ?case by (subst load_loop.simps) (simp add: n)
qed

definition tag_is :: "32 word \<Rightarrow> elf_dyn \<Rightarrow> bool" where
  "tag_is tag d \<longleftrightarrow> ucast (d_tag d) = tag"

text \<open>The address a tag ends up with: its last entry, relative to the load address.\<close>

definition tag_addr :: "addr \<Rightarrow> elf_dyn list \<Rightarrow> 32 word \<Rightarrow> addr option" where
  "tag_addr base ds tag = map_option (\<lambda>d. base + d_val d) (find_last (tag_is tag) ds)"

definition tag_known :: "elf_dyn \<Rightarrow> bool" where
  "tag_known d \<longleftrightarrow> tag_is DT_STRTAB d \<or> tag_is DT_SYMTAB d \<or> tag_is DT_VERSYM d \<or> tag_is DT_VERDEF d"

definition entries_fit :: "profile \<Rightarrow> addr \<Rightarrow> elf_dyn list \<Rightarrow> bool" where
  "entries_fit p base ds \<longleftrightarrow>
     (\<forall>d \<in> set ds. tag_known d \<longrightarrow>
        (p = Debug \<longrightarrow> unat base + unat (d_val d) < 2 ^ 64) \<and> base + d_val d \<noteq> 0)"

lemma addr_add_eq: "(p = Debug \<longrightarrow> unat a + unat b < 2 ^ 64) \<Longrightarrow> addr_add p a b = Some (a + b)"
  by (auto simp: addr_add_def)

definition or_else :: "'a option \<Rightarrow> 'a option \<Rightarrow> 'a option" where
  "or_else x y = (case x of None \<Rightarrow> y | Some a \<Rightarrow> Some a)"

lemma load_entries_eq:
  "entries_fit p base ds \<Longrightarrow> load_entries p base ds acc = Some (Some
     \<lparr>strtab_at = or_else (tag_addr base ds DT_STRTAB) (strtab_at acc),
      symtab_at = or_else (tag_addr base ds DT_SYMTAB) (symtab_at acc),
      versym_at = or_else (tag_addr base ds DT_VERSYM) (versym_at acc),
      verdef_at = or_else (tag_addr base ds DT_VERDEF) (verdef_at acc)\<rparr>)"
proof (induction ds arbitrary: acc)
  case Nil
  then show ?case by (simp add: tag_addr_def or_else_def)
next
  case (Cons d ds)
  then have fit: "entries_fit p base ds" by (simp add: entries_fit_def)
  note IH = Cons.IH [OF fit]
  have one: "tag_known d \<Longrightarrow> addr_add p base (d_val d) = Some (base + d_val d) \<and>
      nonnull (base + d_val d) = Some (base + d_val d)"
    using Cons.prems addr_add_eq [of p base "d_val d"] by (auto simp: entries_fit_def nonnull_def)
  have ta: "tag_addr base (d # ds) tag = or_else (tag_addr base ds tag)
      (if tag_is tag d then Some (base + d_val d) else None)" for tag
    by (simp add: tag_addr_def or_else_def split: option.split)
  have oe: "or_else (or_else x y) z = or_else x (or_else y z)" for x y z :: "addr option"
    by (simp add: or_else_def split: option.split)
  have ite: "or_else (if b then Some x else None) y = (if b then Some x else y)"
    for b and x :: addr and y
    by (simp add: or_else_def)
  have ne: "DT_STRTAB \<noteq> DT_SYMTAB" "DT_STRTAB \<noteq> DT_VERSYM" "DT_STRTAB \<noteq> DT_VERDEF"
    "DT_SYMTAB \<noteq> DT_VERSYM" "DT_SYMTAB \<noteq> DT_VERDEF" "DT_VERSYM \<noteq> DT_VERDEF"
    by (simp_all add: DT_STRTAB_def DT_SYMTAB_def DT_VERSYM_def DT_VERDEF_def)
  show ?case
    using one IH ne ne [symmetric]
    by (auto simp: load_entry_def Let_def ta oe ite tag_known_def tag_is_def split: if_splits)
qed

subsection \<open>Program headers and sections\<close>

definition is_dynamic :: "elf_phdr \<Rightarrow> bool" where
  "is_dynamic ph \<longleftrightarrow> p_type ph = PT_DYNAMIC"

definition is_code :: "elf_phdr \<Rightarrow> bool" where
  "is_code ph \<longleftrightarrow> p_type ph = PT_LOAD \<and> p_flags ph AND PF_X \<noteq> 0"

definition headers_fit :: "profile \<Rightarrow> elf_phdr list \<Rightarrow> bool" where
  "headers_fit p phs \<longleftrightarrow> (\<forall>ph \<in> set phs. is_code ph \<longrightarrow> p = Debug \<longrightarrow>
     - (2 ^ 63) \<le> sint (p_offset ph) - sint (p_vaddr ph) \<and> sint (p_offset ph) - sint (p_vaddr ph) < 2 ^ 63)"

lemma isize_sub_eq:
  "(p = Debug \<longrightarrow> - (2 ^ 63) \<le> sint a - sint b \<and> sint a - sint b < 2 ^ 63) \<Longrightarrow> isize_sub p a b = Some (a - b)"
  by (auto simp: isize_sub_def Let_def)

lemma phdr_loop_eq:
  "headers_fit p phs \<Longrightarrow> phdr_loop p ehdr (a, d) phs = Some
     (or_else (map_option (\<lambda>ph. ehdr + (p_offset ph - p_vaddr ph)) (find_last is_code phs)) a,
      or_else (map_option (\<lambda>ph. ehdr + p_offset ph) (find_last is_dynamic phs)) d)"
proof (induction phs arbitrary: a d)
  case Nil
  then show ?case by (simp add: or_else_def)
next
  case (Cons ph phs)
  then have fit: "headers_fit p phs" by (simp add: headers_fit_def)
  have one: "is_code ph \<Longrightarrow> isize_sub p (p_offset ph) (p_vaddr ph) = Some (p_offset ph - p_vaddr ph)"
    using Cons.prems isize_sub_eq by (auto simp: headers_fit_def)
  have ne: "PT_LOAD \<noteq> PT_DYNAMIC" by (simp add: PT_LOAD_def PT_DYNAMIC_def)
  show ?case
    using one ne Cons.IH [OF fit]
    by (auto simp: is_code_def is_dynamic_def or_else_def split: option.split)
qed

lemma symbol_count_eq:
  "symbol_count shs = (case find (\<lambda>sh. sh_type sh = SHT_DYNSYM) shs of None \<Rightarrow> Some 0
     | Some sh \<Rightarrow> uint_div (sh_size sh) (sh_entsize sh))"
  by (induction shs) auto

subsection \<open>A whole image\<close>

definition program_headers :: "image \<Rightarrow> addr \<Rightarrow> elf_phdr list" where
  "program_headers img ehdr =
     (let hdr = read_at (ehdrs img) ehdr in
      from_raw_parts (phdrs img) (ehdr + e_phoff hdr) (e_phnum hdr))"

definition code_base :: "image \<Rightarrow> addr \<Rightarrow> addr option" where
  "code_base img ehdr = map_option (\<lambda>ph. ehdr + (p_offset ph - p_vaddr ph))
     (find_last is_code (program_headers img ehdr))"

definition dyn_start :: "image \<Rightarrow> addr \<Rightarrow> addr option" where
  "dyn_start img ehdr = map_option (\<lambda>ph. ehdr + p_offset ph)
     (find_last is_dynamic (program_headers img ehdr))"

text \<open>The dynamic section: consecutive entries up to one with the tag \<open>DT_NULL\<close>.\<close>

fun dynamic_section :: "image \<Rightarrow> addr \<Rightarrow> elf_dyn list \<Rightarrow> bool" where
  "dynamic_section img a [] \<longleftrightarrow> d_tag (read_at (dyns img) a) = DT_NULL"
| "dynamic_section img a (d # ds) \<longleftrightarrow>
     d = read_at (dyns img) a \<and> d_tag d \<noteq> DT_NULL \<and> dynamic_section img (a + stride (dyns img)) ds"

text \<open>The version definitions: each says how far away the next one is, the last one 0.\<close>

fun version_chain :: "image \<Rightarrow> addr \<Rightarrow> addr list \<Rightarrow> bool" where
  "version_chain img a [] \<longleftrightarrow> False"
| "version_chain img a (r # rs) \<longleftrightarrow> r = a \<and>
     (let offset = vd_next (read_at (verdefs img) a) in
      if rs = [] then offset = 0 else offset \<noteq> 0 \<and> version_chain img (a + ucast offset) rs)"

text \<open>
  The number of dynamic symbols: how many entries the first section of type \<open>SHT_DYNSYM\<close> holds, or
  0 if there is none.
\<close>

definition dynsym_entries :: "image \<Rightarrow> addr \<Rightarrow> nat \<Rightarrow> bool" where
  "dynsym_entries img ehdr n \<longleftrightarrow>
     (let hdr = read_at (ehdrs img) ehdr;
          sh = (\<lambda>i. read_at (shdrs img) (ehdr + e_shoff hdr + of_nat i * stride (shdrs img))) in
      (\<forall>i < e_shnum hdr. sh_type (sh i) \<noteq> SHT_DYNSYM) \<and> n = 0 \<or>
      (\<exists>i < e_shnum hdr. sh_type (sh i) = SHT_DYNSYM \<and> (\<forall>j < i. sh_type (sh j) \<noteq> SHT_DYNSYM) \<and>
         n * sh_entsize (sh i) \<le> sh_size (sh i) \<and> sh_size (sh i) < (n + 1) * sh_entsize (sh i)))"

lemma dynamic_section_yields: "dynamic_section img a ds \<Longrightarrow> yields (dyn_next img) (Some a) ds"
  by (induction ds arbitrary: a) (auto simp: dyn_next_def)

lemma version_chain_yields: "version_chain img a refs \<Longrightarrow> yields (verdef_next img) (Some a) refs"
proof (induction refs arbitrary: a)
  case (Cons r rs)
  then show ?case by (cases rs) (auto simp: verdef_next_def Let_def)
qed simp

lemma dynsym_entries_count:
  assumes "dynsym_entries img ehdr n"
  shows "symbol_count (shdr_array_load img ehdr) = Some n"
proof -
  let ?hdr = "read_at (ehdrs img) ehdr"
  define sh where "sh i = read_at (shdrs img) (ehdr + e_shoff ?hdr + of_nat i * stride (shdrs img))" for i
  let ?P = "\<lambda>s. sh_type s = SHT_DYNSYM"
  have l: "shdr_array_load img ehdr = map sh [0..<e_shnum ?hdr]"
    by (simp add: shdr_array_load_def from_raw_parts_def sh_def Let_def)
  from assms consider "\<forall>i < e_shnum ?hdr. \<not> ?P (sh i)" "n = 0"
    | i where "i < e_shnum ?hdr" "?P (sh i)" "\<forall>j < i. \<not> ?P (sh j)"
      "n * sh_entsize (sh i) \<le> sh_size (sh i)" "sh_size (sh i) < (n + 1) * sh_entsize (sh i)"
    unfolding dynsym_entries_def sh_def Let_def by blast
  then show ?thesis
  proof cases
    case 1
    then have "find ?P (map sh [0..<e_shnum ?hdr]) = None" by (simp add: find_None_iff)
    then show ?thesis using 1 by (simp add: symbol_count_eq l)
  next
    case 2
    then have "find ?P (map sh [0..<e_shnum ?hdr]) = Some (sh i)"
      by (auto simp: find_Some_iff intro!: exI [of _ i])
    moreover have "sh_size (sh i) div sh_entsize (sh i) = n" "sh_entsize (sh i) \<noteq> 0"
      using 2(4,5) by (auto intro!: div_nat_eqI simp: algebra_simps)
    ultimately show ?thesis by (simp add: symbol_count_eq l uint_div_def)
  qed
qed

text \<open>
  \<open>describes p img ehdr ds refs t\<close>: the image at \<open>ehdr\<close> is well formed, its dynamic section is
  \<open>ds\<close>, its version definitions are \<open>refs\<close>, and they make up the symbol table \<open>t\<close>.
\<close>

definition describes ::
    "profile \<Rightarrow> image \<Rightarrow> addr \<Rightarrow> elf_dyn list \<Rightarrow> addr list \<Rightarrow> symbol_table \<Rightarrow> bool" where
  "describes p img ehdr ds refs t \<longleftrightarrow>
     ehdr \<noteq> 0 \<and> headers_fit p (program_headers img ehdr) \<and>
     code_base img ehdr = Some (vdso_addr t) \<and>
     (\<exists>d. dyn_start img ehdr = Some d \<and> dynamic_section img d ds) \<and>
     entries_fit p (vdso_addr t) ds \<and>
     tag_addr (vdso_addr t) ds DT_STRTAB = Some (strtab t) \<and>
     tag_addr (vdso_addr t) ds DT_VERDEF = Some (verdef t) \<and>
     version_chain img (verdef t) refs \<and>
     dynsym_entries img ehdr (length (symtab t)) \<and>
     map_option (\<lambda>a. from_raw_parts (syms img) a (length (symtab t)))
       (tag_addr (vdso_addr t) ds DT_SYMTAB) = Some (symtab t) \<and>
     map_option (\<lambda>a. from_raw_parts (halves img) a (length (symtab t)))
       (tag_addr (vdso_addr t) ds DT_VERSYM) = Some (versym t)"

lemma phdr_info_load_eq:
  assumes "headers_fit p (program_headers img ehdr)"
  shows "phdr_info_load p img ehdr = Some (do { a \<leftarrow> code_base img ehdr; d \<leftarrow> dyn_start img ehdr;
     Some \<lparr>info_addr = a, info_dyn = d\<rparr> })"
  using phdr_loop_eq [OF assms, of ehdr None None]
  by (simp add: phdr_info_load_def program_headers_def code_base_def dyn_start_def or_else_def Let_def
      option.case_eq_if)

lemma symbol_table_load_eq:
  assumes "describes p img ehdr ds refs t"
    and "code_base img ehdr = Some base" and "dyn_start img ehdr = Some d"
  shows "symbol_table_load p img \<lparr>info_addr = base, info_dyn = d\<rparr> (length (symtab t)) = Some (Some t)"
proof -
  have b: "base = vdso_addr t" and y: "yields (dyn_next img) (Some d) ds" and
    fit: "entries_fit p (vdso_addr t) ds"
    using assms by (auto simp: describes_def dynamic_section_yields)
  obtain st vs where "tag_addr (vdso_addr t) ds DT_SYMTAB = Some st"
    "from_raw_parts (syms img) st (length (symtab t)) = symtab t"
    "tag_addr (vdso_addr t) ds DT_VERSYM = Some vs"
    "from_raw_parts (halves img) vs (length (symtab t)) = versym t"
    using assms(1) by (auto simp: describes_def)
  then show ?thesis
    using assms(1) load_entries_eq [OF fit] load_loop_eq [OF y]
    by (simp add: symbol_table_load_def b describes_def or_else_def)
qed

definition vdso_symbol ::
    "arch \<Rightarrow> image \<Rightarrow> symbol_table \<Rightarrow> addr list \<Rightarrow> addr option" where
  "vdso_symbol a img t refs =
     (case get_name_and_version a of
        None \<Rightarrow> None
      | Some (name, version) \<Rightarrow> symbol_hit img t refs name version [0..<length (symtab t)])"

lemma image_function_eq:
  assumes "describes p img ehdr ds refs t"
  shows "image_function p a img ehdr = Some (Some (vdso_symbol a img t refs))"
proof -
  obtain base d where bd: "code_base img ehdr = Some base" "dyn_start img ehdr = Some d"
    using assms by (auto simp: describes_def)
  have "headers_fit p (program_headers img ehdr)" using assms by (simp add: describes_def)
  then have "phdr_info_load p img ehdr = Some (Some \<lparr>info_addr = base, info_dyn = d\<rparr>)"
    using bd by (simp add: phdr_info_load_eq)
  moreover have "find_symbol a img t = Some (vdso_symbol a img t refs)"
    using assms by (simp add: vdso_symbol_def describes_def find_symbol_eq version_chain_yields)
  moreover have "ehdr \<noteq> 0" "symbol_count (shdr_array_load img ehdr) = Some (length (symtab t))"
    using assms by (simp_all add: describes_def dynsym_entries_count)
  ultimately show ?thesis
    using symbol_table_load_eq [OF assms bd] by (simp add: image_function_def nonnull_def)
qed

definition page_entry :: "auxv_entry list \<Rightarrow> nat option" where
  "page_entry es = map_option value (find_last (\<lambda>e. key e = AT_PAGESZ) es)"

lemma entry_loop_eq:
  assumes "describes p img ehdr ds refs t"
    and "\<forall>e \<in> set es. key e = AT_SYSINFO_EHDR \<longrightarrow> of_nat (value e) = ehdr"
  shows "entry_loop p a img func page es = Some (do {
      f \<leftarrow> (if \<exists>e \<in> set es. key e = AT_SYSINFO_EHDR then vdso_symbol a img t refs else func);
      n \<leftarrow> or_else (page_entry es) page;
      Some (f, n) })"
  using assms(2)
proof (induction es arbitrary: func page)
  case Nil
  then show ?case by (simp add: page_entry_def or_else_def)
next
  case (Cons e es)
  have pe: "or_else (page_entry (e # es)) page =
      or_else (page_entry es) (if key e = AT_PAGESZ then Some (value e) else page)"
    by (simp add: page_entry_def or_else_def split: option.split)
  show ?case
    using Cons image_function_eq [OF assms(1)]
    by (cases "key e = AT_SYSINFO_EHDR") (simp_all add: pe Let_def)
qed

lemma auxv_entries:
  assumes "auxv_new (Some es) = Some entries"
  shows "auxv_collect \<lparr>auxv = entries, index = 0\<rparr> =
    takeWhile (\<lambda>e. key e \<noteq> AT_NULL) (take MAX_AUXV_ENTRIES es)"
proof -
  let ?nul = "\<lparr>key = AT_NULL, value = AT_NULL\<rparr> :: auxv_entry"
  have "takeWhile (\<lambda>e. key e \<noteq> AT_NULL) (take MAX_AUXV_ENTRIES (es @ replicate MAX_AUXV_ENTRIES ?nul)) =
      takeWhile (\<lambda>e. key e \<noteq> AT_NULL)
        (take MAX_AUXV_ENTRIES es @ replicate (min (MAX_AUXV_ENTRIES - length es) MAX_AUXV_ENTRIES) ?nul)"
    by (simp add: take_replicate)
  also have "\<dots> = takeWhile (\<lambda>e. key e \<noteq> AT_NULL) (take MAX_AUXV_ENTRIES es)"
    by (simp add: takeWhile_append takeWhile_replicate)
      (intro impI sym [OF iffD2 [OF takeWhile_eq_all_conv]], blast)
  finally show ?thesis
    using assms by (simp add: auxv_collect_eq auxv_new_def)
qed

lemma get_function_eq:
  assumes "describes p img ehdr ds refs t"
    and "takeWhile (\<lambda>e. key e \<noteq> AT_NULL) (take MAX_AUXV_ENTRIES es) = es'"
    and "\<forall>e \<in> set es'. key e = AT_SYSINFO_EHDR \<longrightarrow> of_nat (value e) = ehdr"
    and "\<exists>e \<in> set es'. key e = AT_SYSINFO_EHDR"
  shows "get_function_and_page_size p a img (Some es) =
    Some (do { f \<leftarrow> vdso_symbol a img t refs; n \<leftarrow> page_entry es'; Some (f, n) })"
proof -
  obtain entries where e: "auxv_new (Some es) = Some entries" by (simp add: auxv_new_def)
  have "or_else (page_entry es') None = page_entry es'" by (simp add: or_else_def split: option.split)
  then show ?thesis
    using assms(4) entry_loop_eq [OF assms(1,3), of a None None]
    by (simp add: get_function_and_page_size_def e auxv_entries [OF e] assms(2))
qed

end
