(* ===== verification/Vdso_Demo.thy ===== *)
theory Vdso_Demo
  imports Vdso_Elf_Correct
begin

section \<open>A small vDSO image\<close>

text \<open>
  An image at 0x1000 with one code segment, a dynamic section of four entries, two symbols (the null
  symbol and \<open>__vdso_getrandom\<close>) and two version definitions (the base and \<open>LINUX_2.6\<close>), laid out
  the way the linker does. It is the concrete input of the witnesses about \<open>vdso.rs\<close>; \<open>names\<close>
  and \<open>nums\<close> let a witness change the symbol names and the versions.
\<close>

definition demo_ehdr :: elf_ehdr where
  "demo_ehdr = \<lparr>e_phoff = 0x40, e_phnum = 2, e_shoff = 0x300, e_shnum = 1\<rparr>"

definition demo_phdr :: "addr \<Rightarrow> elf_phdr" where
  "demo_phdr a =
     (if a = 0x1040 then \<lparr>p_type = 1, p_flags = 5, p_offset = 0, p_vaddr = 0\<rparr>
      else \<lparr>p_type = 2, p_flags = 4, p_offset = 0x200, p_vaddr = 0x200\<rparr>)"

definition demo_dyn :: "addr \<Rightarrow> elf_dyn" where
  "demo_dyn a =
     (if a = 0x1200 then \<lparr>d_tag = 5, d_val = 0x400\<rparr>
      else if a = 0x1210 then \<lparr>d_tag = 6, d_val = 0x500\<rparr>
      else if a = 0x1220 then \<lparr>d_tag = 0x6ffffff0, d_val = 0x600\<rparr>
      else if a = 0x1230 then \<lparr>d_tag = 0x6ffffffc, d_val = 0x700\<rparr>
      else \<lparr>d_tag = 0, d_val = 0\<rparr>)"

definition demo_sym :: "32 word \<times> 32 word \<Rightarrow> addr \<Rightarrow> elf_sym" where
  "demo_sym names a =
     (if a = 0x1500 then \<lparr>st_name = fst names, st_value = 0\<rparr>
      else \<lparr>st_name = snd names, st_value = 0x800\<rparr>)"

definition demo_verdef :: "addr \<Rightarrow> elf_verdef" where
  "demo_verdef a =
     (if a = 0x1700 then \<lparr>vd_flags = 1, vd_ndx = 1, vd_aux = 20, vd_next = 28\<rparr>
      else \<lparr>vd_flags = 0, vd_ndx = 2, vd_aux = 20, vd_next = 0\<rparr>)"

definition demo_cstr :: "addr \<Rightarrow> string" where
  "demo_cstr a =
     (if a = 0x1401 then ''__vdso_getrandom'' else if a = 0x1412 then ''LINUX_2.6'' else [])"

definition demo_image :: "32 word \<times> 32 word \<Rightarrow> 16 word \<times> 16 word \<Rightarrow> image" where
  "demo_image names nums =
     \<lparr>ehdrs = \<lparr>read_at = (\<lambda>_. demo_ehdr), stride = 64\<rparr>,
      phdrs = \<lparr>read_at = demo_phdr, stride = 56\<rparr>,
      shdrs = \<lparr>read_at = (\<lambda>_. \<lparr>sh_type = 11, sh_size = 48, sh_entsize = 24\<rparr>), stride = 64\<rparr>,
      dyns = \<lparr>read_at = demo_dyn, stride = 16\<rparr>,
      syms = \<lparr>read_at = demo_sym names, stride = 24\<rparr>,
      halves = \<lparr>read_at = (\<lambda>a. if a = 0x1600 then fst nums else snd nums), stride = 2\<rparr>,
      verdefs = \<lparr>read_at = demo_verdef, stride = 20\<rparr>,
      verdauxs = \<lparr>read_at = (\<lambda>_. \<lparr>vda_name = 18\<rparr>), stride = 8\<rparr>,
      cstr_at = demo_cstr\<rparr>"

definition demo_table :: "32 word \<times> 32 word \<Rightarrow> 16 word \<times> 16 word \<Rightarrow> symbol_table" where
  "demo_table names nums =
     \<lparr>strtab = 0x1400,
      symtab = [\<lparr>st_name = fst names, st_value = 0\<rparr>, \<lparr>st_name = snd names, st_value = 0x800\<rparr>],
      versym = [fst nums, snd nums], verdef = 0x1700, vdso_addr = 0x1000\<rparr>"

definition demo_dyns :: "elf_dyn list" where
  "demo_dyns = map demo_dyn [0x1200, 0x1210, 0x1220, 0x1230]"

lemmas elf_constants =
  PT_LOAD_def PT_DYNAMIC_def PF_X_def SHT_DYNSYM_def DT_NULL_def DT_STRTAB_def DT_SYMTAB_def
  DT_VERSYM_def DT_VERDEF_def VER_FLG_BASE_def

lemma demo_headers:
  "program_headers (demo_image names nums) 0x1000 = [demo_phdr 0x1040, demo_phdr 0x1078]"
  by (simp add: program_headers_def demo_image_def demo_ehdr_def from_raw_parts_def upt_rec)

lemma demo_starts:
  "code_base (demo_image names nums) 0x1000 = Some 0x1000"
  "dyn_start (demo_image names nums) 0x1000 = Some 0x1200"
  by (simp_all add: code_base_def dyn_start_def demo_headers demo_phdr_def is_code_def is_dynamic_def
      elf_constants)

lemma demo_yields:
  "yields (dyn_next (demo_image names nums)) (Some 0x1200) demo_dyns"
  "yields (verdef_next (demo_image names nums)) (Some 0x1700) [0x1700, 0x171c]"
  by (simp_all add: dyn_next_def verdef_next_def demo_image_def demo_dyns_def demo_dyn_def demo_verdef_def
      elf_constants Let_def)

lemma demo_entries: "entries_fit p 0x1000 demo_dyns"
  by (simp add: entries_fit_def demo_dyns_def demo_dyn_def addr_add_def)

lemma demo_tags:
  "tag_addr 0x1000 demo_dyns DT_STRTAB = Some 0x1400"
  "tag_addr 0x1000 demo_dyns DT_SYMTAB = Some 0x1500"
  "tag_addr 0x1000 demo_dyns DT_VERSYM = Some 0x1600"
  "tag_addr 0x1000 demo_dyns DT_VERDEF = Some 0x1700"
  by (simp_all add: tag_addr_def demo_dyns_def demo_dyn_def tag_is_def elf_constants)

lemma demo_describes:
  "describes p (demo_image names nums) 0x1000 demo_dyns [0x1700, 0x171c] (demo_table names nums)"
proof -
  let ?img = "demo_image names nums" and ?t = "demo_table names nums"
  have fit: "headers_fit p (program_headers ?img 0x1000)"
    by (simp add: headers_fit_def demo_headers demo_phdr_def is_code_def isize_sub_def Let_def)
  have count: "dynsym_entries ?img 0x1000 2"
    by (simp add: dynsym_entries_def demo_image_def demo_ehdr_def elf_constants)
  have chains: "dynamic_section ?img 0x1200 demo_dyns" "version_chain ?img 0x1700 [0x1700, 0x171c]"
    by (simp_all add: demo_image_def demo_dyns_def demo_dyn_def demo_verdef_def elf_constants)
  have parts: "from_raw_parts (syms ?img) 0x1500 2 = symtab ?t"
    "from_raw_parts (halves ?img) 0x1600 2 = versym ?t"
    by (simp_all add: from_raw_parts_def demo_image_def demo_table_def demo_sym_def upt_rec)
  have t: "vdso_addr ?t = 0x1000" "strtab ?t = 0x1400" "verdef ?t = 0x1700" "length (symtab ?t) = 2"
    by (simp_all add: demo_table_def)
  show ?thesis
    unfolding describes_def t demo_starts demo_tags
    using fit count chains parts demo_entries by simp
qed

lemma demo_symbols:
  "symbol_name (demo_image names nums) (demo_table names nums) 0 = demo_cstr (0x1400 + ucast (fst names))"
  "symbol_name (demo_image names nums) (demo_table names nums) (Suc 0) = demo_cstr (0x1400 + ucast (snd names))"
  by (simp_all add: symbol_name_def demo_image_def demo_table_def)

lemma demo_versions:
  "symbol_version (demo_image names nums) (demo_table names nums) [0x1700, 0x171c] 0 =
     (if fst nums AND 0x7FFF = 2 then Some ''LINUX_2.6'' else None)"
  "symbol_version (demo_image names nums) (demo_table names nums) [0x1700, 0x171c] (Suc 0) =
     (if snd nums AND 0x7FFF = 2 then Some ''LINUX_2.6'' else None)"
  by (auto simp: symbol_version_def version_name_def version_matches_def verdef_aux_def demo_image_def
      demo_table_def demo_verdef_def demo_cstr_def elf_constants Let_def)

lemma demo_symbol_found:
  "vdso_symbol X86_64 (demo_image (0, 1) (0, 2)) (demo_table (0, 1) (0, 2)) [0x1700, 0x171c] = Some 0x1800"
proof -
  let ?t = "demo_table (0, 1) (0, 2)"
  have t: "length (symtab ?t) = 2" "vdso_addr ?t + st_value (symtab ?t ! Suc 0) = 0x1800"
    by (simp_all add: demo_table_def)
  have "[0..<2] = [0, Suc 0]" by (simp add: upt_rec)
  then show ?thesis
    unfolding vdso_symbol_def symbol_hit_def t(1)
    by (simp add: get_name_and_version_def stops_def demo_symbols demo_versions demo_cstr_def t)
qed

end
