(* ===== verification/Vdso_Open.thy ===== *)
theory Vdso_Open
  imports Vdso_Elf_Correct Vdso_Pool
begin

section \<open>Opening a pool (\<open>Pool::new\<close>)\<close>

text \<open>
  \<open>Pool::new\<close> composes the lookup of the vDSO function with \<open>Config::new\<close>. The function at the
  address the lookup found is kernel code: \<open>params_of\<close> is what it writes when asked for the
  parameters of the opaque states; \<open>res\<close> and \<open>cpu_set\<close> are the answer of \<open>sched_getaffinity\<close>.
\<close>

definition pool_open ::
    "profile \<Rightarrow> arch \<Rightarrow> image \<Rightarrow> auxv_entry list option \<Rightarrow> (addr \<Rightarrow> opaque_params) \<Rightarrow>
     64 word \<Rightarrow> nat list \<Rightarrow>
     'q segq \<Rightarrow> (error + 'q pool) option" where
  "pool_open p a img written params_of res cpu_set Q =
     do { r \<leftarrow> get_function_and_page_size p a img written;
          (case r of
             None \<Rightarrow> Some (Inl NotSupported)
           | Some (function, page) \<Rightarrow>
               do { c \<leftarrow> config_new p (params_of function) res cpu_set page;
                    Some (Inr (pool_new Q c)) }) }"

lemma pool_open_eq:
  assumes "get_function_and_page_size p a img written = Some (Some (f, page))"
    and "config_new p (params_of f) res cpu_set page = Some c"
  shows "pool_open p a img written params_of res cpu_set Q = Some (Inr (pool_new Q c))"
  using assms by (simp add: pool_open_def)

lemma pool_open_unsupported:
  assumes "get_function_and_page_size p a img written = Some None"
  shows "pool_open p a img written params_of res cpu_set Q = Some (Inl NotSupported)"
  using assms by (simp add: pool_open_def)

end
