(* ===== verification/Vdso_Theorems.thy ===== *)
theory Vdso_Theorems
  imports Vdso_Local Vdso_Demo Vdso_Open
begin

section \<open>The properties of the configuration, of \<open>fill\<close> and of the vDSO lookup\<close>

subsection \<open>The geometry of a block\<close>

text \<open>C35. \<open>Config::new\<close>, for every answer of \<open>sched_getaffinity\<close>
  with its mask of 128 bytes, every 32-bit state size and every page size below
  \<open>2 ^ 63\<close>, in both profiles: nothing overflows, and the only panic is the division by a state
  size or a page size of zero. Otherwise a block takes more than the bytes of one state per
  processor, by at most a page, and if the state size divides the page size it holds more states
  than there are processors. The configuration satisfies \<open>config_made\<close>, and the pool
  can use it (\<open>config_ok\<close>) exactly if a state fits into a page.\<close>

theorem config_geometry:
  assumes "length cpu_set = 128" and "page < 2 ^ 63"
  shows "case config_new p ps res cpu_set page of
      None \<Rightarrow> state_size ps = 0 \<or> page = 0
    | Some c \<Rightarrow> 0 < state_size ps \<and> 0 < page \<and> page_size c = page \<and> params c = ps \<and>
        states_per_page c = page div state_size ps \<and>
        config_made c \<and> (config_ok c \<longleftrightarrow> state_size ps \<le> page) \<and>
        guess_cpu_count res cpu_set * state_size ps < page_size c * pages_per_block c \<and>
        page_size c * pages_per_block c \<le> guess_cpu_count res cpu_set * state_size ps + page \<and>
        (state_size ps dvd page \<longrightarrow> guess_cpu_count res cpu_set < pages_per_block c * states_per_page c)"
proof (cases "state_size ps = 0 \<or> page = 0")
  case True
  from config_new_panics [OF this] True show ?thesis by simp
next
  case False
  then show ?thesis using config_new_geometry [of ps page cpu_set p res] assms by auto
qed

theorem config_geometry_witness:
  "\<exists>c. config_new Debug mock_params 128 (replicate 128 15) MOCK_PAGE_SIZE = Some c \<and> config_ok c \<and>
     512 < pages_per_block c * states_per_page c"
proof -
  have m: "length (replicate 128 (15 :: nat)) = 128" "MOCK_PAGE_SIZE < 2 ^ 63" "MOCK_PAGE_SIZE \<noteq> 0"
    "state_size mock_params \<noteq> 0" "state_size mock_params \<le> MOCK_PAGE_SIZE"
    "state_size mock_params dvd MOCK_PAGE_SIZE"
    by (simp_all add: mock_params_def MOCK_PAGE_SIZE_def)
  have "guess_cpu_count 128 (replicate 128 15) = 512"
    by (simp add: guess_cpu_count_def count_ones_def upt_rec bit_simps bit_numeral_rec sum_list_replicate)
  with config_geometry [OF m(1,2), where p = Debug and ps = mock_params and res = 128] m(3-6) show ?thesis
    by (auto split: option.splits)
qed

text \<open>When the state size does not divide the page size, one block can be short of the processors.\<close>

lemma config_short:
  assumes "guess_cpu_count res cpu_set = 1023" and "length cpu_set = 128"
  shows "\<exists>c. config_new Debug \<lparr>size_of_opaque_states = 144, mmap_prot = 3, mmap_flags = 34, reserved = []\<rparr>
     res cpu_set 4096 = Some c \<and> pages_per_block c * states_per_page c < 1023"
  using assms by (simp add: config_new_ok)

text \<open>The number of processors is at least one, whatever the kernel answers, and at most the 1024
  bits of the affinity mask.\<close>

lemma cpu_count_bounds:
  assumes "length cpu_set = 128"
  shows "1 \<le> guess_cpu_count res cpu_set \<and> guess_cpu_count res cpu_set \<le> 1024"
  using guess_cpu_count_pos guess_cpu_count_bound [OF assms] by blast

subsection \<open>Filling a buffer\<close>

text \<open>C22. With a generator that makes progress, \<open>fill\<close> returns. It either fills the whole buffer with
  the next bytes of the generator, none lost, repeated or reordered at the partial fills and the retries,
  or reports an error that is not a retriable one; it never panics.\<close>

theorem fill_complete:
  assumes "steady_vgetrandom func len good patience stream"
    and "good (state l)" and "\<not> inflight l" and "state_size (params cfg) = len"
  shows "\<exists>out buf' l'. fill p func cfg flag l buf = Some (Done (out, buf', l')) \<and>
    length buf' = length buf \<and> good (state l') \<and> \<not> inflight l' \<and>
    (case out of
       Inr u \<Rightarrow> buf' = map (stream (state l)) [0..<length buf] \<and>
         (\<forall>i. stream (state l') i = stream (state l) (length buf + i))
     | Inl e \<Rightarrow> e \<noteq> Errno EAGAIN \<and> e \<noteq> Errno EINTR \<and>
         (\<exists>code n st bs st'. e = Errno code \<and> 0 < code \<and> good st \<and>
            func n flag st len = (- code, bs, st')))"
  using steady_vgetrandom.fill_loop_streams [OF assms, of p flag "[]" buf]
  by (simp add: fill_def steady_vgetrandom.reported_def [OF assms(1)] cong: sum.case_cong)

definition mock_config :: config where
  "mock_config =
     \<lparr>page_size = MOCK_PAGE_SIZE, pages_per_block = 1, states_per_page = 8, params = mock_params\<rparr>"

theorem fill_complete_witness:
  "\<exists>out buf' l'. fill Debug mock_func mock_config 0 (local_new 35) [0, 0, 0, 0, 0] =
     Some (Done (out, buf', l')) \<and> length buf' = 5"
proof -
  have "state (local_new 35) < (2 :: nat) ^ 64" "\<not> inflight (local_new (35 :: nat))"
    "state_size (params mock_config) = 8"
    by (simp_all add: local_new_def mock_config_def mock_params_def)
  from fill_complete [OF mock.steady_vgetrandom_axioms this, of Debug 0 "[0, 0, 0, 0, 0]"]
  show ?thesis by auto
qed

text \<open>C38. If \<open>fill\<close> returns at all, with any generator that keeps to the documented results, it has not
  panicked, the buffer has its length and the state can be used again.\<close>

theorem fill_keeps_buffer:
  assumes "vgetrandom func len good"
    and "fill p func cfg flag l buf = Some res"
    and "good (state l)" and "\<not> inflight l" and "state_size (params cfg) = len"
  shows "\<exists>out buf' l'. res = Done (out, buf', l') \<and> length buf' = length buf \<and>
    good (state l') \<and> \<not> inflight l'"
  using vgetrandom.fill_safe [OF assms] .

theorem fill_keeps_buffer_witness:
  "\<exists>out buf' l'. fill Release mock_func mock_config 0 (local_new 7) [0] = Some (Done (out, buf', l')) \<and>
     length buf' = 1"
proof -
  have f: "fill Release mock_func mock_config 0 (local_new 7) [0] =
      Some (Done (Inr (), [7], \<lparr>state = 8, inflight = False\<rparr>))"
    unfolding fill_def
    by (subst fill_loop.simps)
      (simp add: try_fill_def mock_func_def mocked_vgetrandom_def mock_config_def mock_params_def
        local_new_def USIZE_MAX_def as_i32_def write_front_def)
  have g: "state (local_new 7) < (2 :: nat) ^ 64" "\<not> inflight (local_new (7 :: nat))"
    "state_size (params mock_config) = 8"
    by (simp_all add: local_new_def mock_config_def mock_params_def)
  from fill_keeps_buffer [OF mock.vgetrandom_axioms f g] f show ?thesis by auto
qed

text \<open>C39. With the generator the crate uses for its own tests, \<open>fill\<close> succeeds and the buffer holds
  consecutive bytes from the counter on, although each call stops at the multiples of 37.\<close>

theorem fill_mock:
  assumes "st < 2 ^ 64" and "state_size (params cfg) = 8"
  shows "\<exists>l'. fill p mock_func cfg flag (local_new st) buf =
      Some (Done (Inr (), map (\<lambda>i. (st + i) mod 256) [0..<length buf], l')) \<and>
    state l' mod 256 = (st + length buf) mod 256 \<and> \<not> inflight l'"
proof -
  have l: "state (local_new st) < 2 ^ 64" "\<not> inflight (local_new st)"
    using assms(1) by (simp_all add: local_new_def)
  have sl: "state (local_new st) = st" by (simp add: local_new_def)
  have never: "\<not> mock.reported flag e" for e
    using mock_func_spec(1) unfolding mock.reported_def by fastforce
  obtain out buf' l' where f: "fill p mock_func cfg flag (local_new st) buf = Some (Done (out, buf', l'))"
    and i: "\<not> inflight l'" and out: "case out of
       Inr u \<Rightarrow> buf' = map (\<lambda>i. (st + i) mod 256) [0..<length buf] \<and>
         (\<forall>i. (state l' + i) mod 256 = (st + (length buf + i)) mod 256)
     | Inl e \<Rightarrow> mock.reported flag e"
    using mock.fill_loop_streams [OF l assms(2), of p flag "[]" buf, unfolded append_Nil sl]
    unfolding fill_def by blast
  obtain u where u: "out = Inr u" using out never by (cases out) auto
  then have "buf' = map (\<lambda>i. (st + i) mod 256) [0..<length buf]"
    "\<forall>i. (state l' + i) mod 256 = (st + (length buf + i)) mod 256" using out by simp_all
  moreover from this(2) have "(state l' + 0) mod 256 = (st + (length buf + 0)) mod 256" by blast
  ultimately show ?thesis using f i u by simp
qed

theorem fill_mock_witness:
  "\<exists>l'. fill Debug mock_func mock_config 0 (local_new 36) (replicate 4 0) =
     Some (Done (Inr (), [36, 37, 38, 39], l'))"
proof -
  have "(36 :: nat) < 2 ^ 64" "state_size (params mock_config) = 8"
    by (simp_all add: mock_config_def mock_params_def)
  from fill_mock [OF this, of Debug 0 "replicate 4 0"] show ?thesis by (auto simp: upt_rec)
qed

subsection \<open>The auxiliary vector and the symbol lookup\<close>

text \<open>The loop over the auxiliary vector sees the entries the kernel wrote, in order, up to the
  first \<open>AT_NULL\<close> or the 64th, and ends.\<close>

theorem auxv_iterates:
  assumes "auxv_new (Some es) = Some entries"
  shows "yields auxv_next \<lparr>auxv = entries, index = 0\<rparr>
    (takeWhile (\<lambda>e. key e \<noteq> AT_NULL) (take MAX_AUXV_ENTRIES es))"
  using auxv_collect_yields [of "\<lparr>auxv = entries, index = 0\<rparr>"] by (simp only: auxv_entries [OF assms])

theorem auxv_iterates_witness:
  "\<exists>entries. auxv_new (Some [\<lparr>key = 6, value = 4096\<rparr>]) = Some entries \<and>
     yields auxv_next \<lparr>auxv = entries, index = 0\<rparr> [\<lparr>key = 6, value = 4096\<rparr>]"
proof -
  obtain entries where e: "auxv_new (Some [\<lparr>key = 6, value = 4096\<rparr>]) = Some entries"
    by (simp add: auxv_new_def)
  from auxv_iterates [OF e] e show ?thesis by (simp add: AT_NULL_def MAX_AUXV_ENTRIES_def)
qed

text \<open>C21. The search of the symbol table returns. It finds the address of the first symbol of the
  architecture's name that has the architecture's version, provided that every earlier symbol of that
  name has a version, and nothing else.\<close>

theorem find_symbol_iff:
  assumes "yields (verdef_next img) (Some (verdef t)) refs"
    and "get_name_and_version a = Some (name, version)"
  shows "find_symbol a img t \<noteq> None \<and>
    (find_symbol a img t = Some (Some f) \<longleftrightarrow>
      (\<exists>i < length (symtab t). symbol_name img t i = name \<and>
         symbol_version img t refs i = Some version \<and>
         f = vdso_addr t + st_value (symtab t ! i) \<and>
         (\<forall>j < i. symbol_name img t j = name \<longrightarrow>
            (\<exists>v. symbol_version img t refs j = Some v \<and> v \<noteq> version))))"
  using assms(2) symbol_hit_iff [of img t refs name version] by (simp add: find_symbol_eq [OF assms(1)])

theorem find_symbol_iff_witness:
  "find_symbol X86_64 (demo_image (0, 1) (0, 2)) (demo_table (0, 1) (0, 2)) = Some (Some 0x1800)"
proof -
  let ?img = "demo_image (0, 1) (0, 2)" and ?t = "demo_table (0, 1) (0, 2)"
  have y: "yields (verdef_next ?img) (Some (verdef ?t)) [0x1700, 0x171c]"
    using demo_yields by (simp add: demo_table_def)
  have n: "get_name_and_version X86_64 = Some (''__vdso_getrandom'', ''LINUX_2.6'')"
    by (simp add: get_name_and_version_def)
  have t: "length (symtab ?t) = 2" "vdso_addr ?t + st_value (symtab ?t ! Suc 0) = 0x1800"
    by (simp_all add: demo_table_def)
  have "\<exists>i < length (symtab ?t). symbol_name ?img ?t i = ''__vdso_getrandom'' \<and>
      symbol_version ?img ?t [0x1700, 0x171c] i = Some ''LINUX_2.6'' \<and>
      0x1800 = vdso_addr ?t + st_value (symtab ?t ! i) \<and>
      (\<forall>j < i. symbol_name ?img ?t j = ''__vdso_getrandom'' \<longrightarrow>
         (\<exists>v. symbol_version ?img ?t [0x1700, 0x171c] j = Some v \<and> v \<noteq> ''LINUX_2.6''))"
    by (rule exI [of _ "Suc 0"]) (simp only: t, simp add: demo_symbols demo_versions demo_cstr_def)
  then show ?thesis using find_symbol_iff [OF y n, of "0x1800"] by blast
qed

text \<open>C40. A symbol of the right name that has no version ends the search with no result, although a
  later symbol has the right name and version.\<close>

theorem unversioned_symbol_hides:
  assumes "yields (verdef_next img) (Some (verdef t)) refs"
    and "get_name_and_version a = Some (name, version)"
    and "j < i" and "i < length (symtab t)"
    and "symbol_name img t i = name" and "symbol_version img t refs i = Some version"
    and "symbol_name img t j = name" and "symbol_version img t refs j = None"
    and "\<forall>k < j. symbol_name img t k \<noteq> name"
  shows "find_symbol a img t = Some None"
proof -
  have "find (stops img t refs name version) [0..<length (symtab t)] = Some j"
    using assms(3,4,7-9) by (auto simp: find_Some_iff stops_def intro!: exI [of _ j])
  then show ?thesis
    using assms(2,8) by (simp add: find_symbol_eq [OF assms(1)] symbol_hit_def)
qed

theorem unversioned_symbol_hides_witness:
  "find_symbol X86_64 (demo_image (1, 1) (0, 2)) (demo_table (1, 1) (0, 2)) = Some None"
proof -
  let ?img = "demo_image (1, 1) (0, 2)" and ?t = "demo_table (1, 1) (0, 2)"
  have y: "yields (verdef_next ?img) (Some (verdef ?t)) [0x1700, 0x171c]"
    using demo_yields by (simp add: demo_table_def)
  have n: "get_name_and_version X86_64 = Some (''__vdso_getrandom'', ''LINUX_2.6'')"
    by (simp add: get_name_and_version_def)
  show ?thesis
    by (rule unversioned_symbol_hides [OF y n, of 0 "Suc 0"])
      (simp_all only: demo_symbols demo_versions fst_conv snd_conv,
        simp_all add: demo_table_def demo_cstr_def)
qed

text \<open>C20. On a well-formed image the whole lookup returns, in both profiles: the address of the symbol,
  relative to where the code is loaded, and the page size of the auxiliary vector, if there are both. What a
  well-formed image is, \<open>describes\<close>, is said of its raw tables: the program headers, the entries of the
  dynamic section up to \<open>DT_NULL\<close>, the chain of version definitions, and as many symbols as the first
  \<open>SHT_DYNSYM\<close> section has entries.\<close>

theorem vdso_lookup:
  assumes "describes p img ehdr ds refs t"
    and "takeWhile (\<lambda>e. key e \<noteq> AT_NULL) (take MAX_AUXV_ENTRIES es) = es'"
    and "\<forall>e \<in> set es'. key e = AT_SYSINFO_EHDR \<longrightarrow> of_nat (value e) = ehdr"
    and "\<exists>e \<in> set es'. key e = AT_SYSINFO_EHDR"
  shows "get_function_and_page_size p a img (Some es) =
    Some (do { f \<leftarrow> vdso_symbol a img t refs; n \<leftarrow> page_entry es'; Some (f, n) })"
  using get_function_eq [OF assms] .

theorem vdso_lookup_witness:
  "get_function_and_page_size Debug X86_64 (demo_image (0, 1) (0, 2))
     (Some [\<lparr>key = 33, value = 0x1000\<rparr>, \<lparr>key = 6, value = 4096\<rparr>]) = Some (Some (0x1800, 4096))"
proof -
  let ?img = "demo_image (0, 1) (0, 2)" and ?t = "demo_table (0, 1) (0, 2)"
  let ?es = "[\<lparr>key = 33, value = 0x1000\<rparr>, \<lparr>key = 6, value = 4096\<rparr>] :: auxv_entry list"
  have es: "takeWhile (\<lambda>e. key e \<noteq> AT_NULL) (take MAX_AUXV_ENTRIES ?es) = ?es"
    by (simp add: AT_NULL_def MAX_AUXV_ENTRIES_def)
  have "page_entry ?es = Some 4096" by (simp add: page_entry_def AT_PAGESZ_def)
  then show ?thesis
    using vdso_lookup [OF demo_describes es] by (simp add: AT_SYSINFO_EHDR_def demo_symbol_found)
qed

subsection \<open>Opening a pool\<close>

text \<open>C34. \<open>Pool::new\<close> on a well-formed image, for every answer of
  \<open>sched_getaffinity\<close> with its mask of 128 bytes: without the symbol or the page size
  it reports \<open>NotSupported\<close>. With both, and a page size below \<open>2 ^ 63\<close>, it
  panics if the page size or the state size the kernel reports is zero, and otherwise opens a pool
  with a configuration that satisfies \<open>config_made\<close>, which the pool can use exactly if
  a state fits into a page.\<close>

theorem pool_opens:
  assumes "describes p img ehdr ds refs t"
    and "takeWhile (\<lambda>e. key e \<noteq> AT_NULL) (take MAX_AUXV_ENTRIES es) = es'"
    and "\<forall>e \<in> set es'. key e = AT_SYSINFO_EHDR \<longrightarrow> of_nat (value e) = ehdr"
    and "\<exists>e \<in> set es'. key e = AT_SYSINFO_EHDR"
    and "length cpu_set = 128" and "\<And>page. page_entry es' = Some page \<Longrightarrow> page < 2 ^ 63"
  shows "case (vdso_symbol a img t refs, page_entry es') of
      (Some f, Some page) \<Rightarrow>
        if state_size (params_of f) = 0 \<or> page = 0
        then pool_open p a img (Some es) params_of res cpu_set Q = None
        else \<exists>c. pool_open p a img (Some es) params_of res cpu_set Q = Some (Inr (pool_new Q c)) \<and>
          page_size c = page \<and> params c = params_of f \<and> config_made c \<and>
          (config_ok c \<longleftrightarrow> state_size (params_of f) \<le> page)
    | _ \<Rightarrow> pool_open p a img (Some es) params_of res cpu_set Q = Some (Inl NotSupported)"
proof -
  note look = get_function_eq [OF assms(1-4), of a]
  show ?thesis
  proof (cases "vdso_symbol a img t refs")
    case None
    then show ?thesis using look by (simp add: pool_open_unsupported)
  next
    case f: (Some f)
    show ?thesis
    proof (cases "page_entry es'")
      case None
      then show ?thesis using look f by (simp add: pool_open_unsupported)
    next
      case (Some page)
      have found: "get_function_and_page_size p a img (Some es) = Some (Some (f, page))"
        using look f Some by simp
      show ?thesis
      proof (cases "state_size (params_of f) = 0 \<or> page = 0")
        case True
        from config_new_panics [OF this, of p res cpu_set] True found f Some show ?thesis
          by (simp add: pool_open_def)
      next
        case False
        then obtain c where c: "config_new p (params_of f) res cpu_set page = Some c"
          "page_size c = page" "params c = params_of f" "config_made c" "config_ok c \<longleftrightarrow> state_size (params_of f) \<le> page"
          using config_new_geometry [of "params_of f" page cpu_set p res] assms(5) assms(6) [OF Some] by auto
        from pool_open_eq [OF found, of params_of res cpu_set c Q] c False show ?thesis
          by (simp only: f Some option.case prod.case if_False) blast
      qed
    qed
  qed
qed

theorem pool_opens_witness:
  "\<exists>c. pool_open Debug X86_64 (demo_image (0, 1) (0, 2))
     (Some [\<lparr>key = 33, value = 0x1000\<rparr>, \<lparr>key = 6, value = 4096\<rparr>]) (\<lambda>_. mock_params) 128 (replicate 128 15) fifo =
     Some (Inr (pool_new fifo c)) \<and> config_ok c"
proof -
  let ?es = "[\<lparr>key = 33, value = 0x1000\<rparr>, \<lparr>key = 6, value = 4096\<rparr>] :: auxv_entry list"
  have es: "takeWhile (\<lambda>e. key e \<noteq> AT_NULL) (take MAX_AUXV_ENTRIES ?es) = ?es"
    by (simp add: AT_NULL_def MAX_AUXV_ENTRIES_def)
  have pg: "page_entry ?es = Some 4096" by (simp add: page_entry_def AT_PAGESZ_def)
  have one: "\<forall>e \<in> set ?es. key e = AT_SYSINFO_EHDR \<longrightarrow> of_nat (value e) = (0x1000 :: addr)"
    "\<exists>e \<in> set ?es. key e = AT_SYSINFO_EHDR"
    by (simp_all add: AT_SYSINFO_EHDR_def)
  show ?thesis
    using pool_opens [OF demo_describes [of Debug "(0, 1)" "(0, 2)"] es one, where cpu_set = "replicate 128 15" and a = X86_64 
      and params_of = "\<lambda>_. mock_params" and res = 128 and Q = fifo]
    by (simp add: pg demo_symbol_found) (auto simp: mock_params_def)
qed

end
