(* ===== verification/Spec2Isabelle.thy ===== *)
theory Spec2Isabelle
  imports Punycode_Theorems Lam_Theorems Poison_Tests Lam_Clients Vdso_Pool_Theorems
    Pool_Lock_Theorems Vdso_Theorems
begin

text \<open>
  Three crates: \<open>punyenc\<close> (a Punycode encoder), \<open>lamlock\<close> (a flat-combining lock) and
  \<open>vdso-rng\<close> (random bytes through the vDSO). \<open>vdso-rng\<close> keeps its list of mappings in a
  \<open>lamlock::Lock\<close>; \<open>punyenc\<close> stands alone.

  \<^bold>\<open>Shared.\<close> \<open>Prelude\<close>: build profiles, checked arithmetic at a width (a panic is
  \<open>None\<close>). \<open>Traces\<close>: runs of a step relation with events; the interfaces
  \<open>invariant_system\<close> and \<open>refined_system\<close>. \<open>Iterators\<close>: what a Rust iterator yields.

  \<^bold>\<open>punyenc\<close> (\<open>src/crates/punyenc/src/lib.rs\<close>).
  \<^item> \<open>Fenwick\<close>: the interface of the crate \<open>ftree\<close>, a parameter, as the locale
    \<open>prefix_counter\<close>, and its interpretation by a binary indexed tree.
  \<^item> \<open>Punycode\<close>: \<open>digit_to_char\<close>, \<open>adapt\<close>, \<open>push_delta\<close> and \<open>encode\<close> with its two
    nested loops, every \<open>u64\<close> operator checked.
  \<^item> \<open>Bootstring\<close>: the encoder and the decoder of RFC 3492 over unbounded numbers, and
    their round trip. \<open>Bootstring_Inverse\<close>: canonical strings, on which the encoder inverts the
    decoder. \<open>Punycode_Correct\<close>: the encoder of the crate computes the same output.
  \<^item> \<open>Punycode_Theorems\<close>: the properties, for inputs below 2 to the 42 code points, where no
    \<open>u64\<close> can overflow (a code point is below 2 to the 21, so a delta stays below 2 to the 63).

  \<^bold>\<open>lamlock\<close> (\<open>src/crates/lamlock/src\<close>).
  \<^item> \<open>Lam_Raw\<close>: the raw lock, the queue node and the futex word (\<open>rawlock.rs\<close>,
    \<open>node.rs\<close>, \<open>futex.rs\<close>). \<open>Lam_System\<close>: the step relation of any number of threads in
    \<open>Lock::try_run\<close>, one definition per access to shared memory (\<open>nonpoison.rs\<close>,
    \<open>node.rs\<close>, \<open>bomb.rs\<close>, \<open>panic.rs\<close>), with and without the feature \<open>std\<close>. A read of
    freed or uninitialised memory is \<open>Fault\<close>.
  \<^item> \<open>Lam_Spec\<close>: the abstract executor (tasks run atomically, once, in queue order).
    \<open>Lam_Inv\<close> to \<open>Lam_Debts\<close>: the invariant and one preservation lemma per program counter.
    \<open>Lam_Refine\<close>: the lemmas together.
  \<^item> \<open>Lam_Order\<close>: the memory ordering of every access, and the happens-before relation of the
    C11 memory model along a run. \<open>Lam_Weak\<close>: the system whose runs the properties speak of, where a
    load may find an earlier value (\<open>weak_step\<close>). \<open>Lam_Seen\<close> to \<open>Lam_Seen_Thread\<close>: what each
    thread has seen. \<open>Lam_Past\<close>: what the earlier values can be. \<open>Lam_Stale\<close>: a stale load only
    makes its thread look again. \<open>Lam_Memory\<close>: the three invariants together, and the refinement.
  \<^item> \<open>Lam_Sched\<close>: schedules that evaluate concrete runs. \<open>Lam_Safety\<close>, \<open>Lam_Trace\<close>:
    what follows for reachable states and for event sequences.
    \<open>Lam_Rank\<close>, \<open>Lam_Finish\<close>: a number for each thread that falls along its call, and from it
    that all calls end when every thread keeps having turns. A number is at most 314 and two
    rounds bring their sum down, hence 628 rounds for each thread. \<open>Lam_Fair\<close>: the same when some
    of the turns load a stale value, with 628 rounds for each thread and stretch between such turns.
  \<^item> \<open>Lam_Theorems\<close>: refinement, exclusion, memory safety, no data race, exactly-once,
    order, wake-ups, the return of every call, quiescence, poisoning.
  \<^item> \<open>Lam_Poison\<close>, \<open>Poison_Theorems\<close>: \<open>poison.rs\<close> as the tasks it submits to the inner
    lock, and what poisoning guarantees to the data; \<open>nonpoison::Lock::run\<close>.
  \<^item> \<open>Lam_Healthy\<close>, \<open>Lam_Clients\<close>: while no task panics the two features give the same
    guarantee; the test \<open>multi_thread_test\<close> of \<open>poison.rs\<close>, on every run, with \<open>i32\<close> arithmetic.
  \<^item> \<open>Lam_Borrow\<close>: \<open>get_mut\<close>, a change of the data while no call is open. \<open>Lam_Alone\<close>: a thread
    that is alone, which never waits. \<open>Poison_Tests\<close>: more tests of \<open>poison.rs\<close> as clients.

  \<^bold>\<open>vdso-rng\<close> (\<open>src/crates/vdso-rng/src\<close>).
  \<^item> \<open>Vdso_Config\<close>: \<open>utils.rs\<close>, \<open>config.rs\<close>, \<open>auxv.rs\<close>. What the kernel answers is an
    argument: the raw result registers, the affinity mask of 128 bytes, the 32-bit parameters. They
    bound the sizes of \<open>Config::new\<close> by 2 to the 42, so only a page size above 2 to the 63 could
    overflow. \<open>config_made\<close> holds of every configuration it makes and is what the theorems of the pool
    assume; \<open>config_ok\<close> adds that a state fits into a page, without which \<open>get\<close> never returns.
  \<^item> \<open>Vdso_Elf\<close>: \<open>vdso.rs\<close>, over an image read through one view per struct; pointers are
    64-bit words. \<open>Vdso_Elf_Correct\<close>: the loops against list functions, and the whole lookup on a
    well-formed image (\<open>describes\<close>, which speaks of the raw tables only). \<open>Vdso_Demo\<close>: a concrete image for the witnesses.
  \<^item> \<open>Vdso_Pool\<close>: \<open>pool.rs\<close>, the threads interleaving at each access to the free list,
    the free list being a parameter with the laws of the locale \<open>seg_queue\<close>. Addresses wrap at 2
    to the 64. \<open>Vdso_Pool_Correct\<close>: the invariant, in two parts: where the states are, for every kernel,
    and that the real mappings do not overlap, for the documented one. \<open>Vdso_Alloc\<close>: the allocator the
    pool refines.
    \<open>Vdso_Get\<close>: a call of \<open>get\<close> from start to end, and \<open>drop\<close>. \<open>Vdso_Open\<close>:
    \<open>Pool::new\<close>.
  \<^item> \<open>Vdso_Pool_Lock\<close>, \<open>Pool_Lock_Theorems\<close>: the pool on the lock of \<open>lamlock\<close>, as the two systems
    side by side: the thread that the lock lets execute a closure of \<open>get\<close> makes the closure's
    accesses one by one, while the others move. Its runs are runs of \<open>Vdso_Pool\<close>.
  \<^item> \<open>Vdso_Local\<close>: \<open>try_fill\<close> and \<open>fill\<close> of \<open>lib.rs\<close>, for every generator with
    the laws of \<open>vgetrandom\<close> or \<open>steady_vgetrandom\<close>, and the mock generator of
    \<open>vdso_miri.rs\<close>, an instance.
  \<^item> \<open>Vdso_Pool_Theorems\<close>, \<open>Vdso_Theorems\<close>: the properties. The steps of a call of
    \<open>get\<close> are bounded by 7 plus the states of a block, because a call that runs alone maps one
    block at most; the loops of \<open>fill\<close> and of the image are partial functions, and that they
    return is part of the statements.

  \<^bold>\<open>What is assumed.\<close> The lock runs on the C11 memory model, with the orderings as
  written and stale values wherever coherence and happens-before allow them, but without load
  buffering. \<open>lock_calls_return\<close> takes it that a write becomes visible in finite time, so that
  finitely many of the turns load a stale value. \<open>documented_kernel\<close>, where the pool's states are
  said to be apart: the raw system call \<open>mmap\<close> fails with any error number, or gives a block within the
  address space and apart from the earlier blocks it gave. The code takes the failures other than \<open>EPERM\<close>
  for mappings; they are part of every run, and \<open>error_states\<close> are the states that come of them. What
  does not depend on the addresses (\<open>pool_refines\<close>, \<open>pool_on_lock_refines\<close>) is shown for every kernel.
  \<open>Vdso_Pool\<close> has its lock by
  contract (one thread inside, a panic inside poisons it); \<open>pool_on_lock_refines\<close> shows that
  \<open>lamlock\<close> keeps the contract.

  \<^bold>\<open>Not modelled.\<close> The nightly prefetch hint; the futex and the allocator calls of the miri
  build; the \<open>Display\<close> texts of the errors; the benchmarks; the unit tests that hold the raw lock by
  hand, count drops or compare thread identifiers. None of them takes part in the protocols above.
\<close>

end
